(* ===== verification/Prelude.thy ===== *)
theory Prelude
  imports Main "HOL-Library.Word" "HOL-Library.Multiset"
begin

text \<open>
  What the components share: the names of the machine integer types, the fact collections
  of the library, and models of the C++ standard library algorithms the code calls
  (\<^verbatim>\<open>std::lower_bound\<close>, \<^verbatim>\<open>std::upper_bound\<close>, \<^verbatim>\<open>std::partial_sum\<close>,
  \<^verbatim>\<open>std::adjacent_find\<close>) with the lemmas about them.
\<close>

unbundle bit_operations_syntax

named_theorems stl_simps \<open>characteristic equations of the standard library models\<close>
named_theorems count_simps \<open>facts that turn counting into filtering\<close>

type_synonym int64 = "64 word"
type_synonym uint32 = "32 word"

abbreviation int64_max :: int64 where
  "int64_max \<equiv> 0x7FFFFFFFFFFFFFFF"

abbreviation int64_min :: int64 where
  "int64_min \<equiv> 0x8000000000000000"

section \<open>Signed 64-bit words\<close>

lemma sless_iff: "a <s b \<longleftrightarrow> sint a < sint (b :: int64)"
  by (simp add: word_sless_alt)

lemma sle_iff: "a \<le>s b \<longleftrightarrow> sint a \<le> sint (b :: int64)"
  by (simp add: word_sle_eq)

lemma sint_range64: "- (2 ^ 63) \<le> sint (a :: int64)" "sint (a :: int64) < 2 ^ 63"
  using sint_ge [of a] sint_lt [of a] by simp_all

lemma sint_of_int64:
  assumes "- (2 ^ 63) \<le> x" "x < 2 ^ 63"
  shows "sint (word_of_int x :: int64) = x"
proof -
  have "sint (word_of_int x :: int64) = signed_take_bit 63 x"
    by (simp add: sint_sbintrunc')
  also have "\<dots> = x"
    using assms by (simp add: signed_take_bit_int_eq_self_iff)
  finally show ?thesis .
qed

lemma sint_of_nat64:
  assumes "n < 2 ^ 63"
  shows "sint (of_nat n :: int64) = int n"
proof -
  have "(of_nat n :: int64) = word_of_int (int n)"
    by simp
  with assms show ?thesis
    using sint_of_int64 [of "int n"] by simp
qed

lemma sint_add64:
  assumes "- (2 ^ 63) \<le> sint (a :: int64) + sint b" "sint a + sint b < 2 ^ 63"
  shows "sint (a + b) = sint a + sint b"
proof -
  have "a + b = word_of_int (sint a + sint b)"
    by simp
  with assms show ?thesis
    using sint_of_int64 [of "sint a + sint b"] by simp
qed

lemma sint_diff64:
  assumes "- (2 ^ 63) \<le> sint (a :: int64) - sint b" "sint a - sint b < 2 ^ 63"
  shows "sint (a - b) = sint a - sint b"
proof -
  have "a - b = word_of_int (sint a - sint b)"
    by simp
  with assms show ?thesis
    using sint_of_int64 [of "sint a - sint b"] by simp
qed

lemma int64_eq_iff: "(a :: int64) = b \<longleftrightarrow> sint a = sint b"
  using signed_word_eqI by blast

text \<open>The unsigned reading of a signed difference that is not negative.\<close>

lemma uint_diff64:
  assumes "sint a \<le> sint (b :: int64)"
  shows "uint (b - a) = sint b - sint a"
proof -
  have "b - a = word_of_int (sint b - sint a)"
    by simp
  then have "uint (b - a) = (sint b - sint a) mod 2 ^ 64"
    by (simp only: uint_word_of_int) simp
  also have "\<dots> = sint b - sint a"
    using assms sint_range64 [of a] sint_range64 [of b] by (intro mod_pos_pos_trivial) auto
  finally show ?thesis .
qed

text \<open>Midpoint computation through the unsigned difference never leaves the interval.\<close>

lemma sint_midpoint64:
  assumes "sint a \<le> sint (b :: int64)"
  shows "sint (a + (b - a) div 2) = sint a + (sint b - sint a) div 2"
proof -
  let ?d = "(sint b - sint a) div 2"
  have "uint ((b - a) div 2) = ?d"
    using uint_diff64 [OF assms] by (simp add: uint_div_distrib)
  then have "(b - a) div 2 = word_of_int ?d"
    by (metis word_of_int_uint)
  then have "a + (b - a) div 2 = word_of_int (sint a + ?d)"
    by simp
  moreover have "- (2 ^ 63) \<le> sint a + ?d" "sint a + ?d < 2 ^ 63"
    using assms sint_range64 [of a] sint_range64 [of b] by linarith+
  ultimately show ?thesis
    by (simp only: sint_of_int64)
qed

section \<open>Standard library algorithms on ranges\<close>

text \<open>
  \<^verbatim>\<open>std::lower_bound\<close> and \<^verbatim>\<open>std::upper_bound\<close> return the partition point of the
  range; the model returns its distance from \<^verbatim>\<open>begin()\<close>. The comparison is a
  parameter, as in the C++ overload.
\<close>

definition lower_bound :: "('a \<Rightarrow> 'a \<Rightarrow> bool) \<Rightarrow> 'a list \<Rightarrow> 'a \<Rightarrow> nat" where
  "lower_bound lt xs v = length (takeWhile (\<lambda>x. lt x v) xs)"

definition upper_bound :: "('a \<Rightarrow> 'a \<Rightarrow> bool) \<Rightarrow> 'a list \<Rightarrow> 'a \<Rightarrow> nat" where
  "upper_bound lt xs v = length (takeWhile (\<lambda>x. \<not> lt v x) xs)"

lemma lower_bound_le_length [simp]: "lower_bound lt xs v \<le> length xs"
  by (simp add: lower_bound_def length_takeWhile_le)

lemma lower_bound_eq_length_iff: "lower_bound lt xs v = length xs \<longleftrightarrow> (\<forall>x\<in>set xs. lt x v)"
  unfolding lower_bound_def by (metis length_takeWhile_le set_takeWhileD takeWhile_eq_all_conv
      takeWhile_eq_take take_all_iff)

lemma lower_bound_before: "i < lower_bound lt xs v \<Longrightarrow> lt (xs ! i) v"
  unfolding lower_bound_def by (metis nth_mem set_takeWhileD takeWhile_nth)

lemma lower_bound_at: "lower_bound lt xs v < length xs \<Longrightarrow> \<not> lt (xs ! lower_bound lt xs v) v"
  unfolding lower_bound_def by (rule nth_length_takeWhile)

text \<open>On a sorted range the partition point counts the elements on its left.\<close>

lemma takeWhile_sorted_filter:
  assumes "sorted_wrt (\<lambda>x y. P y \<longrightarrow> P x) xs"
  shows "takeWhile P xs = filter P xs"
  using assms by (induction xs) (auto simp: filter_empty_conv)

definition partial_sum :: "int list \<Rightarrow> int list" where
  "partial_sum xs = map (\<lambda>i. sum_list (take (Suc i) xs)) [0..<length xs]"

lemma length_partial_sum [simp]: "length (partial_sum xs) = length xs"
  by (simp add: partial_sum_def)

lemma partial_sum_nth [stl_simps]:
  "i < length xs \<Longrightarrow> partial_sum xs ! i = sum_list (take (Suc i) xs)"
  by (simp add: partial_sum_def del: upt_Suc)

text \<open>\<^verbatim>\<open>std::adjacent_find\<close> with a binary predicate: is there an adjacent pair?\<close>

fun adjacent_find :: "('a \<Rightarrow> 'a \<Rightarrow> bool) \<Rightarrow> 'a list \<Rightarrow> nat option" where
  "adjacent_find p (x # y # xs) =
     (if p x y then Some 0 else map_option Suc (adjacent_find p (y # xs)))"
| "adjacent_find p xs = None"

lemma adjacent_find_None:
  "adjacent_find p xs = None \<longleftrightarrow> (\<forall>i. Suc i < length xs \<longrightarrow> \<not> p (xs ! i) (xs ! Suc i))"
proof (induction p xs rule: adjacent_find.induct)
  case (1 p x y xs)
  have "(\<forall>i. Suc i < length (x # y # xs) \<longrightarrow> \<not> p ((x # y # xs) ! i) ((x # y # xs) ! Suc i))
    \<longleftrightarrow> \<not> p x y \<and> (\<forall>i. Suc i < length (y # xs) \<longrightarrow> \<not> p ((y # xs) ! i) ((y # xs) ! Suc i))"
    (is "?l \<longleftrightarrow> ?r")
  proof
    assume ?l
    then show ?r by (auto dest: spec [of _ 0] spec [of _ "Suc _"])
  next
    assume ?r
    then show ?l by (auto simp: nth_Cons split: nat.splits)
  qed
  with 1 show ?case by simp
qed simp_all

section \<open>Order statistics\<close>

text \<open>In a list sorted by a key, position \<open>i\<close> separates the counts of smaller and of
  not greater elements.\<close>

lemma count_less_nth:
  fixes f :: "'a \<Rightarrow> 'b :: linorder"
  assumes "sorted (map f ys)" "i < length ys"
  shows "length (filter (\<lambda>x. f x < f (ys ! i)) ys) \<le> i"
proof -
  have "{j. j < length ys \<and> f (ys ! j) < f (ys ! i)} \<subseteq> {..<i}"
    using assms by (auto simp: sorted_iff_nth_mono) (meson leD leI)
  then have "card {j. j < length ys \<and> f (ys ! j) < f (ys ! i)} \<le> card {..<i}"
    by (intro card_mono) auto
  then show ?thesis by (simp add: length_filter_conv_card)
qed

lemma count_le_nth:
  fixes f :: "'a \<Rightarrow> 'b :: linorder"
  assumes "sorted (map f ys)" "i < length ys"
  shows "i < length (filter (\<lambda>x. f x \<le> f (ys ! i)) ys)"
proof -
  have "{..i} \<subseteq> {j. j < length ys \<and> f (ys ! j) \<le> f (ys ! i)}"
    using assms by (auto simp: sorted_iff_nth_mono)
  then have "card {..i} \<le> card {j. j < length ys \<and> f (ys ! j) \<le> f (ys ! i)}"
    by (intro card_mono) auto
  then show ?thesis by (simp add: length_filter_conv_card)
qed

lemma length_filter_mset_cong:
  "mset xs = mset ys \<Longrightarrow> length (filter P xs) = length (filter P ys)"
  by (metis mset_filter size_mset)

lemma length_filter_mono:
  "(\<And>x. P x \<Longrightarrow> Q x) \<Longrightarrow> length (filter P xs) \<le> length (filter Q xs)"
  by (induction xs) auto

lemma length_filter_disj:
  "(\<And>x. \<not> (P x \<and> Q x)) \<Longrightarrow>
    length (filter (\<lambda>x. P x \<or> Q x) xs) = length (filter P xs) + length (filter Q xs)"
  by (induction xs) auto

text \<open>One element of a list replaced.\<close>

lemma sum_update:
  fixes f :: "'a \<Rightarrow> int"
  shows "i < length xs \<Longrightarrow> (\<Sum>x\<leftarrow>xs[i := y]. f x) = (\<Sum>x\<leftarrow>xs. f x) - f (xs ! i) + f y"
proof (induction xs arbitrary: i)
  case (Cons x xs)
  then show ?case by (cases i) auto
qed simp

lemma filter_length_sum: "int (length (filter P xs)) = (\<Sum>x\<leftarrow>xs. if P x then 1 else 0)"
  by (induction xs) simp_all

lemma filter_update:
  "i < length xs \<Longrightarrow>
     int (length (filter P (xs[i := y]))) =
     int (length (filter P xs)) - (if P (xs ! i) then 1 else 0) + (if P y then 1 else 0)"
  unfolding filter_length_sum by (rule sum_update)

lemma sorted_last_max: "sorted xs \<Longrightarrow> x \<in> set xs \<Longrightarrow> x \<le> last xs" for xs :: "'a :: linorder list"
  by (induction xs) auto

end
