(* ===== verification/Kth.thy ===== *)
theory Kth
  imports Prelude
begin

text \<open>
  The distributed selection algorithm of examples/median/kth.h. \<^verbatim>\<open>getKth\<close> receives
  a search procedure that answers, for a guess, how many elements are smaller than it and
  how many are equal to it, and narrows the interval \<^verbatim>\<open>[min, max]\<close> by bisection.
  All numbers are \<^verbatim>\<open>int64_t\<close>, so they are 64-bit words compared with the signed order:
  the expression \<^verbatim>\<open>min + static_cast<uint64_t>(max - min)/2\<close> is computed modulo
  \<open>2 ^ 64\<close>, as the compiled code does.
\<close>

section \<open>The code\<close>

text \<open>The outcome is the returned pair, or the failure of the \<^verbatim>\<open>assert\<close> in the loop.\<close>

datatype kth_outcome =
    Kth_Result int64 bool
  | Kth_Assert_Failed

text \<open>
  One call of \<open>getKth_loop\<close> is one evaluation of the loop condition. \<open>steps\<close> is the
  counter of the source before its increment, so \<open>100 < Suc steps\<close> is
  \<^verbatim>\<open>++steps > 100\<close>. The three tests keep the order of the source; the last
  \<^verbatim>\<open>else\<close> is its "no improvement" branch.
\<close>

function getKth_loop ::
  "(int64 \<Rightarrow> int64 \<times> int64) \<Rightarrow> int64 \<Rightarrow> nat \<Rightarrow> int64 \<Rightarrow> int64 \<Rightarrow> int64 \<Rightarrow> kth_outcome" where
  "getKth_loop search k steps guess mn mx =
     (if mn \<le>s mx then
        (let (smaller, same) = search guess in
         if 100 < Suc steps then Kth_Result guess False
         else if smaller <s k \<and> k \<le>s smaller + same then Kth_Result guess True
         else if smaller + same <s k then
           (let mn' = guess + 1; guess' = mn' + (mx - mn') div 2 in
            if mn' \<le>s guess' \<and> guess' \<le>s mx
            then getKth_loop search k (Suc steps) guess' mn' mx
            else Kth_Assert_Failed)
         else if k \<le>s smaller then
           (let mx' = guess; guess' = mn + (mx' - mn) div 2 in
            if mn \<le>s guess' \<and> guess' \<le>s mx'
            then getKth_loop search k (Suc steps) guess' mn mx'
            else Kth_Assert_Failed)
         else Kth_Result guess False)
      else Kth_Result guess False)"
  by pat_completeness auto
termination
  by (relation "measure (\<lambda>(search, k, steps, guess, mn, mx). 101 - steps)") auto

declare getKth_loop.simps [simp del]

text \<open>The three ways an evaluation of the body goes on, by the answers of the search.\<close>

lemma getKth_loop_hit:
  assumes "mn \<le>s mx" "steps < 100"
    and "fst (search guess) <s k" "k \<le>s fst (search guess) + snd (search guess)"
  shows "getKth_loop search k steps guess mn mx = Kth_Result guess True"
  using assms by (subst getKth_loop.simps) (simp add: case_prod_beta Let_def)

lemma getKth_loop_low:
  assumes "mn \<le>s mx" "steps < 100"
    and "fst (search guess) + snd (search guess) <s k"
    and "mn' = guess + 1" "guess' = mn' + (mx - mn') div 2" "mn' \<le>s guess'" "guess' \<le>s mx"
  shows "getKth_loop search k steps guess mn mx =
    getKth_loop search k (Suc steps) guess' mn' mx"
proof -
  have "\<not> k \<le>s fst (search guess) + snd (search guess)"
    using assms(3) by (simp add: sle_iff sless_iff)
  then show ?thesis
    using assms by (subst getKth_loop.simps) (simp add: case_prod_beta Let_def)
qed

lemma getKth_loop_high:
  assumes "mn \<le>s mx" "steps < 100"
    and "k \<le>s fst (search guess)" "\<not> fst (search guess) + snd (search guess) <s k"
    and "guess' = mn + (guess - mn) div 2" "mn \<le>s guess'" "guess' \<le>s guess"
  shows "getKth_loop search k steps guess mn mx =
    getKth_loop search k (Suc steps) guess' mn guess"
proof -
  have "\<not> fst (search guess) <s k"
    using assms(3) by (simp add: sle_iff sless_iff)
  then show ?thesis
    using assms by (subst getKth_loop.simps) (simp add: case_prod_beta Let_def)
qed

text \<open>\<^verbatim>\<open>count\<close> is a parameter of the source that its body never reads.\<close>

definition getKth ::
  "(int64 \<Rightarrow> int64 \<times> int64) \<Rightarrow> int64 \<Rightarrow> int64 \<Rightarrow> int64 \<Rightarrow> int64 \<Rightarrow> kth_outcome" where
  "getKth search k cnt mn mx = getKth_loop search k 0 mx mn mx"

section \<open>Specification\<close>

text \<open>The k-th smallest element, counted from 1, in the signed order.\<close>

definition kth_smallest :: "nat \<Rightarrow> int64 list \<Rightarrow> int64" where
  "kth_smallest k xs = sort_key sint xs ! (k - 1)"

lemma kth_smallest_in:
  assumes "0 < k" "k \<le> length xs"
  shows "kth_smallest k xs \<in> set xs"
proof -
  have "sort_key sint xs ! (k - 1) \<in> set (sort_key sint xs)"
    using assms by (intro nth_mem) auto
  then show ?thesis by (simp add: kth_smallest_def)
qed

lemma kth_smallest_cong: "mset xs = mset ys \<Longrightarrow> kth_smallest k xs = kth_smallest k ys"
proof -
  assume *: "mset xs = mset ys"
  have "sort_key sint xs = sort_key sint ys"
    using * by (intro sort_key_inj_key_eq) (auto intro: inj_onI signed_word_eqI)
  then show ?thesis by (simp add: kth_smallest_def)
qed

lemma kth_counts:
  assumes "0 < k" "k \<le> length xs"
  shows "length (filter (\<lambda>x. x <s kth_smallest k xs) xs) < k"
    and "k \<le> length (filter (\<lambda>x. x \<le>s kth_smallest k xs) xs)"
proof -
  let ?ys = "sort_key sint xs"
  have ys: "sorted (map sint ?ys)" "k - 1 < length ?ys"
    using assms by auto
  show "length (filter (\<lambda>x. x <s kth_smallest k xs) xs) < k"
    using count_less_nth [OF ys] length_filter_mset_cong [of xs ?ys "\<lambda>x. x <s kth_smallest k xs"]
      assms by (simp add: kth_smallest_def sless_iff)
  show "k \<le> length (filter (\<lambda>x. x \<le>s kth_smallest k xs) xs)"
    using count_le_nth [OF ys] length_filter_mset_cong [of xs ?ys "\<lambda>x. x \<le>s kth_smallest k xs"]
      assms by (simp add: kth_smallest_def sle_iff)
qed

section \<open>The contract of the search procedure\<close>

text \<open>
  What \<open>getKth\<close> relies on, for a provider in any state \<open>s\<close> that satisfies its invariant
  \<open>ok\<close>: the two answers are the numbers of elements held that are smaller than the guess
  and equal to it, and fewer than \<open>2 ^ 63\<close> elements are held.
\<close>

locale kth_search =
  fixes search :: "'s \<Rightarrow> int64 \<Rightarrow> int64 \<times> int64"
    and elems :: "'s \<Rightarrow> int64 list"
    and ok :: "'s \<Rightarrow> bool"
  assumes data_small: "ok s \<Longrightarrow> length (elems s) < 2 ^ 63"
    and search_smaller:
      "ok s \<Longrightarrow> sint (fst (search s g)) = int (length (filter (\<lambda>x. x <s g) (elems s)))"
    and search_same:
      "ok s \<Longrightarrow> sint (snd (search s g)) = int (length (filter (\<lambda>x. x = g) (elems s)))"
begin

lemma smaller_plus_same:
  assumes ok: "ok s"
  shows "sint (fst (search s g) + snd (search s g)) = int (length (filter (\<lambda>x. x \<le>s g) (elems s)))"
proof -
  have "length (filter (\<lambda>x. x \<le>s g) (elems s)) =
      length (filter (\<lambda>x. x <s g \<or> x = g) (elems s))"
    by (rule arg_cong [where f = length], rule filter_cong)
       (auto simp: sle_iff sless_iff int64_eq_iff)
  also have "\<dots> = length (filter (\<lambda>x. x <s g) (elems s)) + length (filter (\<lambda>x. x = g) (elems s))"
    by (intro length_filter_disj) (auto simp: sless_iff)
  finally have eq: "int (length (filter (\<lambda>x. x \<le>s g) (elems s))) =
      sint (fst (search s g)) + sint (snd (search s g))"
    by (simp add: search_smaller [OF ok] search_same [OF ok])
  have "length (filter (\<lambda>x. x \<le>s g) (elems s)) < 2 ^ 63"
    using length_filter_le [of "\<lambda>x. x \<le>s g" "elems s"] data_small [OF ok] by linarith
  then have "int (length (filter (\<lambda>x. x \<le>s g) (elems s))) < 2 ^ 63"
    by (simp flip: of_nat_less_iff)
  then have "sint (fst (search s g)) + sint (snd (search s g)) < 2 ^ 63"
    using eq by linarith
  then show ?thesis
    using eq by (subst sint_add64) (auto simp: search_smaller [OF ok] search_same [OF ok])
qed

text \<open>A guess is compared with the k-th smallest element by the two answers.\<close>

lemma guess_compared:
  assumes ok: "ok s" and k: "0 < k" "k \<le> length (elems s)" and v: "v = kth_smallest k (elems s)"
  shows guess_hit: "fst (search s v) <s of_nat k \<and> of_nat k \<le>s fst (search s v) + snd (search s v)"
    and guess_low: "g <s v \<Longrightarrow> fst (search s g) + snd (search s g) <s of_nat k"
    and guess_high: "v <s g \<Longrightarrow> of_nat k \<le>s fst (search s g)"
proof -
  note c = kth_counts [OF k, folded v]
  have kk: "sint (of_nat k :: int64) = int k"
    using k data_small [OF ok] by (intro sint_of_nat64) linarith
  show "fst (search s v) <s of_nat k \<and> of_nat k \<le>s fst (search s v) + snd (search s v)"
    using c by (simp add: sless_iff sle_iff kk search_smaller [OF ok] smaller_plus_same [OF ok])
  show "fst (search s g) + snd (search s g) <s of_nat k" if "g <s v"
  proof -
    have "length (filter (\<lambda>x. x \<le>s g) (elems s)) \<le> length (filter (\<lambda>x. x <s v) (elems s))"
      using that by (intro length_filter_mono) (auto simp: sle_iff sless_iff)
    with c show ?thesis by (simp add: sless_iff kk smaller_plus_same [OF ok])
  qed
  show "of_nat k \<le>s fst (search s g)" if "v <s g"
  proof -
    have "length (filter (\<lambda>x. x \<le>s v) (elems s)) \<le> length (filter (\<lambda>x. x <s g) (elems s))"
      using that by (intro length_filter_mono) (auto simp: sle_iff sless_iff)
    with c show ?thesis by (simp add: sle_iff kk search_smaller [OF ok])
  qed
qed

lemma guess_high_not_low:
  assumes ok: "ok s"
  shows "of_nat k \<le>s fst (search s g) \<Longrightarrow> \<not> fst (search s g) + snd (search s g) <s of_nat k"
  using smaller_plus_same [OF ok, of g] length_filter_mono [of "\<lambda>x. x <s g" "\<lambda>x. x \<le>s g" "elems s"]
  by (auto simp: sle_iff sless_iff search_smaller [OF ok])

text \<open>
  The bisection: with the guess at the midpoint and an interval of less than \<open>2 ^ m\<close>
  further values, \<open>m + 1\<close> evaluations are enough, so the limit of 100 steps is not
  reached when \<open>m + steps < 100\<close>.
\<close>

lemma getKth_loop_bisect:
  assumes ok: "ok s" and k: "0 < k" "k \<le> length (elems s)" and v: "v = kth_smallest k (elems s)"
    and "mn \<le>s v" "v \<le>s mx" "sint mx - sint mn < 2 ^ m" "m + steps < 100"
  shows "getKth_loop (search s) (of_nat k) steps (mn + (mx - mn) div 2) mn mx = Kth_Result v True"
  using assms(4-)
proof (induction m arbitrary: steps mn mx)
  case 0
  then have "mn = v" "mx = v" by (auto simp: sle_iff int64_eq_iff)
  then show ?case
    using guess_hit [OF ok k v] 0 by (simp add: getKth_loop_hit)
next
  case (Suc m)
  let ?g = "mn + (mx - mn) div 2"
  have g: "sint ?g = sint mn + (sint mx - sint mn) div 2"
    using Suc.prems by (intro sint_midpoint64) (simp add: sle_iff)
  have le: "mn \<le>s mx" using Suc.prems by (simp add: sle_iff)
  consider "?g = v" | "?g <s v" | "v <s ?g"
    by (metis int64_eq_iff linorder_neqE_linordered_idom sless_iff)
  then show ?case
  proof cases
    case 1
    then show ?thesis
      using guess_hit [OF ok k v] Suc.prems le by (simp add: getKth_loop_hit)
  next
    case 2
    let ?mn = "?g + 1"
    have mn: "sint ?mn = sint ?g + 1"
      using 2 sint_range64 [of v] sint_range64 [of ?g]
      by (subst sint_add64) (auto simp: sless_iff)
    have rng: "?mn \<le>s v" "v \<le>s mx" "sint mx - sint ?mn < 2 ^ m"
      using 2 mn Suc.prems g by (auto simp: sle_iff sless_iff)
    have g': "sint (?mn + (mx - ?mn) div 2) = sint ?mn + (sint mx - sint ?mn) div 2"
      using rng by (intro sint_midpoint64) (simp add: sle_iff)
    have "getKth_loop (search s) (of_nat k) steps ?g mn mx =
        getKth_loop (search s) (of_nat k) (Suc steps) (?mn + (mx - ?mn) div 2) ?mn mx"
      using Suc.prems rng g' le
      by (intro getKth_loop_low guess_low [OF ok k v 2] refl) (auto simp: sle_iff)
    also have "\<dots> = Kth_Result v True"
      using rng Suc.prems by (intro Suc.IH) auto
    finally show ?thesis .
  next
    case 3
    have rng: "mn \<le>s v" "v \<le>s ?g" "sint ?g - sint mn < 2 ^ m"
      using 3 Suc.prems g by (auto simp: sle_iff sless_iff)
    have g': "sint (mn + (?g - mn) div 2) = sint mn + (sint ?g - sint mn) div 2"
      using rng by (intro sint_midpoint64) (simp add: sle_iff)
    have "getKth_loop (search s) (of_nat k) steps ?g mn mx =
        getKth_loop (search s) (of_nat k) (Suc steps) (mn + (?g - mn) div 2) mn ?g"
      using Suc.prems rng g' le
      by (intro getKth_loop_high guess_high [OF ok k v 3] guess_high_not_low [OF ok] refl)
         (auto simp: sle_iff)
    also have "\<dots> = Kth_Result v True"
      using rng Suc.prems by (intro Suc.IH) auto
    finally show ?thesis .
  qed
qed

text \<open>The first guess is the upper bound; 65 further evaluations bisect the interval.\<close>

lemma getKth_correct:
  assumes ok: "ok s" and k: "0 < k" "k \<le> length (elems s)"
    and bounds: "\<forall>x \<in> set (elems s). mn \<le>s x \<and> x \<le>s mx"
  shows "getKth (search s) (of_nat k) cnt mn mx = Kth_Result (kth_smallest k (elems s)) True"
proof -
  define v where "v = kth_smallest k (elems s)"
  have v: "mn \<le>s v" "v \<le>s mx" "mn \<le>s mx"
    using kth_smallest_in [OF k] bounds by (auto simp: v_def sle_iff)
  show ?thesis
  proof (cases "mx = v")
    case True
    then show ?thesis
      using guess_hit [OF ok k v_def] v
      by (simp add: getKth_def getKth_loop_hit flip: v_def)
  next
    case False
    then have lt: "v <s mx" using v by (auto simp: sle_iff sless_iff int64_eq_iff)
    have g': "sint (mn + (mx - mn) div 2) = sint mn + (sint mx - sint mn) div 2"
      using v by (intro sint_midpoint64) (simp add: sle_iff)
    have "getKth (search s) (of_nat k) cnt mn mx =
        getKth_loop (search s) (of_nat k) (Suc 0) (mn + (mx - mn) div 2) mn mx"
      using v g' unfolding getKth_def
      by (intro getKth_loop_high guess_high [OF ok k v_def lt] guess_high_not_low [OF ok] refl)
         (auto simp: sle_iff)
    also have "\<dots> = Kth_Result v True"
      using v sint_range64 [of mn] sint_range64 [of mx]
      by (intro getKth_loop_bisect [OF ok k v_def, where m = 64]) auto
    finally show ?thesis by (simp add: v_def)
  qed
qed

end

end
