(* ===== verification/Sorter.thy ===== *)
theory Sorter
  imports Kth "HOL-Library.Signed_Division"
begin

text \<open>
  One sorter process of the median example (examples/median/sorter.cc): it keeps a sorted
  vector of \<^verbatim>\<open>int64_t\<close> and answers \<^verbatim>\<open>Query\<close>, \<^verbatim>\<open>Search\<close> and
  \<^verbatim>\<open>Generate\<close>. The libc generator \<^verbatim>\<open>nrand48\<close> is a parameter; what the code relies
  on (its man page: the results are not negative) is a hypothesis of the theorems.
\<close>

section \<open>State and messages\<close>

text \<open>The object: its data and the state of its random number generator.\<close>

record 'r sorter =
  sorter_data :: "int64 list"
  sorter_xsubi :: 'r

text \<open>\<^verbatim>\<open>QueryResponse\<close> of median.proto: the optional fields may be unset, and reading an
  unset field gives 0.\<close>

record query_response =
  qr_count :: int64
  qr_min :: "int64 option"
  qr_max :: "int64 option"
  qr_sum :: "int64 option"

definition field_value :: "int64 option \<Rightarrow> int64" where
  "field_value f = (case f of None \<Rightarrow> 0 | Some v \<Rightarrow> v)"

definition query_response_empty :: query_response where
  "query_response_empty = \<lparr>qr_count = 0, qr_min = None, qr_max = None, qr_sum = None\<rparr>"

section \<open>Operations\<close>

text \<open>The loop of \<^verbatim>\<open>doGenerate\<close>, \<open>n\<close> iterations left; \<^verbatim>\<open>%\<close> truncates.\<close>

fun generate_loop ::
  "('r \<Rightarrow> int64 \<times> 'r) \<Rightarrow> nat \<Rightarrow> int64 \<Rightarrow> int64 \<Rightarrow> int64 list \<Rightarrow> 'r \<Rightarrow> int64 list \<times> 'r" where
  "generate_loop nrand48 0 mn mx acc r = (acc, r)"
| "generate_loop nrand48 (Suc n) mn mx acc r =
     (let range = mx - mn in
      if 1 <s range then
        (let (x, r') = nrand48 r in
         generate_loop nrand48 n mn mx
           (acc @ [mn + word_of_int (sint x smod sint range)]) r')
      else generate_loop nrand48 n mn mx (acc @ [mn]) r)"

definition doGenerate ::
  "('r \<Rightarrow> int64 \<times> 'r) \<Rightarrow> int64 \<Rightarrow> int64 \<Rightarrow> int64 \<Rightarrow> 'r sorter \<Rightarrow> 'r sorter" where
  "doGenerate nrand48 cnt mn mx s =
     (let (xs, r) = generate_loop nrand48 (nat (sint cnt)) mn mx [] (sorter_xsubi s)
      in s\<lparr>sorter_data := sort_key sint xs, sorter_xsubi := r\<rparr>)"

text \<open>The constructor seeds the generator and calls \<^verbatim>\<open>doGenerate(100, 0, 30)\<close>.\<close>

definition SorterImpl :: "('r \<Rightarrow> int64 \<times> 'r) \<Rightarrow> 'r \<Rightarrow> 'r sorter" where
  "SorterImpl nrand48 seed = doGenerate nrand48 100 0 30 \<lparr>sorter_data = [], sorter_xsubi = seed\<rparr>"

text \<open>\<^verbatim>\<open>Query\<close>: what its handler passes to \<^verbatim>\<open>done\<close>. The sum wraps at 64 bits.\<close>

definition Query :: "'r sorter \<Rightarrow> query_response" where
  "Query s =
     (let resp = query_response_empty\<lparr>qr_count := of_nat (length (sorter_data s))\<rparr> in
      if 0 < length (sorter_data s) then
        resp\<lparr>qr_min := Some (sorter_data s ! 0), qr_max := Some (last (sorter_data s)),
             qr_sum := Some (sum_list (sorter_data s))\<rparr>
      else resp)"

text \<open>\<^verbatim>\<open>Search\<close>: the fields \<^verbatim>\<open>smaller\<close> and \<^verbatim>\<open>same\<close> of the response.\<close>

definition Search :: "'r sorter \<Rightarrow> int64 \<Rightarrow> int64 \<times> int64" where
  "Search s guess =
     (let it = lower_bound (<s) (sorter_data s) guess in
      (of_nat it, of_nat (upper_bound (<s) (sorter_data s) guess) - of_nat it))"

text \<open>\<^verbatim>\<open>Generate\<close> replaces the data; its response is empty.\<close>

definition Generate ::
  "('r \<Rightarrow> int64 \<times> 'r) \<Rightarrow> int64 \<Rightarrow> int64 \<Rightarrow> int64 \<Rightarrow> 'r sorter \<Rightarrow> 'r sorter" where
  "Generate nrand48 cnt mn mx s = doGenerate nrand48 cnt mn mx s"

section \<open>Invariant\<close>

definition sorter_ok :: "'r sorter \<Rightarrow> bool" where
  "sorter_ok s \<longleftrightarrow> sorted (map sint (sorter_data s)) \<and> length (sorter_data s) < 2 ^ 63"

lemma generate_loop_length:
  "length (fst (generate_loop nrand48 n mn mx acc r)) = length acc + n"
  by (induction n arbitrary: acc r) (auto simp: Let_def split: prod.splits)

lemma doGenerate_length: "length (sorter_data (doGenerate nrand48 cnt mn mx s)) = nat (sint cnt)"
  using generate_loop_length [of nrand48 "nat (sint cnt)" mn mx "[]" "sorter_xsubi s"]
  by (simp add: doGenerate_def case_prod_beta Let_def)

lemma doGenerate_ok: "sorter_ok (doGenerate nrand48 cnt mn mx s)"
proof -
  have "nat (sint cnt) < 2 ^ 63"
    using sint_range64 [of cnt] by simp
  moreover have "sorted (map sint (sorter_data (doGenerate nrand48 cnt mn mx s)))"
    by (simp add: doGenerate_def case_prod_beta Let_def)
  ultimately show ?thesis
    by (simp only: sorter_ok_def doGenerate_length)
qed

text \<open>The generated values: in \<open>[min, max)\<close>, or \<open>min\<close> where that interval has at most one
  value.\<close>

definition generated_value :: "int64 \<Rightarrow> int64 \<Rightarrow> int64 \<Rightarrow> bool" where
  "generated_value mn mx x \<longleftrightarrow> x = mn \<or> mn \<le>s x \<and> x <s mx"

lemma generated_value_step:
  assumes fits: "- (2 ^ 63) \<le> sint mx - sint mn" "sint mx - sint mn < 2 ^ 63"
    and "1 <s mx - mn" "0 \<le>s (x :: int64)"
  shows "generated_value mn mx (mn + word_of_int (sint x smod sint (mx - mn)))"
proof -
  let ?m = "sint x smod sint (mx - mn)"
  have d: "sint (mx - mn) = sint mx - sint mn"
    using fits by (rule sint_diff64)
  have m: "0 \<le> ?m" "?m < sint mx - sint mn"
    using smod_int_compares(1,2) [of "sint x" "sint (mx - mn)"] assms(3,4) d
    by (auto simp: sless_iff sle_iff)
  have w: "sint (word_of_int ?m :: int64) = ?m"
    using m fits by (intro sint_of_int64) linarith+
  have "sint (mn + word_of_int ?m) = sint mn + ?m"
    using m w sint_range64 [of mn] sint_range64 [of mx] by (subst sint_add64) auto
  with m show ?thesis
    by (auto simp: generated_value_def sle_iff sless_iff)
qed

lemma generate_loop_values:
  assumes "- (2 ^ 63) \<le> sint mx - sint mn" "sint mx - sint mn < 2 ^ 63"
    and "\<And>r. 0 \<le>s fst (nrand48 r)"
    and "\<forall>x\<in>set acc. generated_value mn mx x"
  shows "\<forall>x\<in>set (fst (generate_loop nrand48 n mn mx acc r)). generated_value mn mx x"
  using assms(4)
proof (induction n arbitrary: acc r)
  case (Suc n)
  have "generated_value mn mx mn" by (simp add: generated_value_def)
  with Suc.prems have low: "\<forall>x\<in>set (acc @ [mn]). generated_value mn mx x"
    by simp
  show ?case
  proof (cases "1 <s mx - mn")
    case True
    let ?v = "mn + word_of_int (sint (fst (nrand48 r)) smod sint (mx - mn))"
    have "\<forall>x\<in>set (acc @ [?v]). generated_value mn mx x"
      using Suc.prems generated_value_step [OF assms(1,2) True assms(3)] by simp
    from Suc.IH [OF this] True show ?thesis by (simp add: Let_def case_prod_beta)
  next
    case False
    with Suc.IH [OF low] show ?thesis by (simp add: Let_def)
  qed
qed simp

section \<open>Search counts, Query summarises\<close>

lemma sorted_sless_wrt:
  assumes "sorted (map sint xs)"
  shows "sorted_wrt (\<lambda>x y. y <s v \<longrightarrow> x <s (v :: int64)) xs"
    and "sorted_wrt (\<lambda>x y. \<not> v <s y \<longrightarrow> \<not> v <s x) xs"
  using assms by (auto simp: sorted_map sless_iff elim!: sorted_wrt_mono_rel [rotated])

lemma Search_fst:
  assumes "sorter_ok s"
  shows "sint (fst (Search s g)) = int (length (filter (\<lambda>x. x <s g) (sorter_data s)))"
proof -
  have "lower_bound (<s) (sorter_data s) g = length (filter (\<lambda>x. x <s g) (sorter_data s))"
    using assms sorted_sless_wrt(1)
    by (simp add: lower_bound_def sorter_ok_def takeWhile_sorted_filter)
  moreover have "\<dots> < 2 ^ 63"
    using assms length_filter_le [of "\<lambda>x. x <s g" "sorter_data s"]
    by (simp only: sorter_ok_def) linarith
  ultimately show ?thesis
    by (simp only: Search_def Let_def fst_conv sint_of_nat64)
qed

lemma Search_snd:
  assumes "sorter_ok s"
  shows "sint (snd (Search s g)) = int (length (filter (\<lambda>x. x = g) (sorter_data s)))"
proof -
  let ?xs = "sorter_data s"
  have lb: "lower_bound (<s) ?xs g = length (filter (\<lambda>x. x <s g) ?xs)"
    and ub: "upper_bound (<s) ?xs g = length (filter (\<lambda>x. \<not> g <s x) ?xs)"
    using assms sorted_sless_wrt
    by (simp_all add: lower_bound_def upper_bound_def sorter_ok_def takeWhile_sorted_filter)
  have "filter (\<lambda>x. \<not> g <s x) ?xs = filter (\<lambda>x. x <s g \<or> x = g) ?xs"
    by (rule filter_cong) (auto simp: sless_iff int64_eq_iff)
  then have *: "upper_bound (<s) ?xs g = lower_bound (<s) ?xs g + length (filter (\<lambda>x. x = g) ?xs)"
    unfolding lb ub by (simp only:) (rule length_filter_disj, auto simp: sless_iff)
  have "length (filter (\<lambda>x. x = g) ?xs) < 2 ^ 63"
    using assms length_filter_le [of "\<lambda>x. x = g" ?xs] by (simp only: sorter_ok_def) linarith
  then have "sint (of_nat (length (filter (\<lambda>x. x = g) ?xs)) :: int64) =
      int (length (filter (\<lambda>x. x = g) ?xs))"
    by (rule sint_of_nat64)
  moreover have "snd (Search s g) = of_nat (length (filter (\<lambda>x. x = g) ?xs))"
    by (simp add: Search_def Let_def *)
  ultimately show ?thesis by simp
qed

text \<open>A sorter provides the search contract that \<open>getKth\<close> relies on.\<close>

interpretation sorter_search: kth_search Search sorter_data sorter_ok
  by unfold_locales (auto simp: sorter_ok_def Search_fst Search_snd)

lemma Query_bounds:
  assumes "sorter_ok s" "sorter_data s \<noteq> []"
  shows "\<forall>x\<in>set (sorter_data s).
    field_value (qr_min (Query s)) \<le>s x \<and> x \<le>s field_value (qr_max (Query s))"
proof
  fix x assume "x \<in> set (sorter_data s)"
  then obtain i where i: "i < length (sorter_data s)" "x = sorter_data s ! i"
    by (auto simp: in_set_conv_nth)
  have "sorted (map sint (sorter_data s))" using assms(1) by (simp add: sorter_ok_def)
  then have "sint (sorter_data s ! 0) \<le> sint x" "sint x \<le> sint (last (sorter_data s))"
    using i assms(2) by (auto simp: sorted_iff_nth_mono last_conv_nth)
  then show "field_value (qr_min (Query s)) \<le>s x \<and> x \<le>s field_value (qr_max (Query s))"
    using assms(2) by (simp add: Query_def Let_def field_value_def sle_iff)
qed

lemma Query_attained:
  assumes "sorter_data s \<noteq> []"
  shows "field_value (qr_min (Query s)) \<in> set (sorter_data s)"
    and "field_value (qr_max (Query s)) \<in> set (sorter_data s)"
  using assms by (auto simp: Query_def Let_def field_value_def)

text \<open>The answer of one sorter to a search is exact: the numbers of its values that are
  smaller than the guess and equal to it, as its two binary searches in the sorted data
  count them.\<close>

theorem Search_exact:
  assumes "sorter_ok s"
  shows "sint (fst (Search s guess)) = int (length (filter (\<lambda>x. x <s guess) (sorter_data s))) \<and>
    sint (snd (Search s guess)) = int (length (filter (\<lambda>x. x = guess) (sorter_data s)))"
  using Search_fst [OF assms] Search_snd [OF assms] by simp

theorem Search_exact_witness:
  "sint (snd (Search \<lparr>sorter_data = [1, 4, 4, 9], sorter_xsubi = ()\<rparr> 4)) = 2"
  using Search_exact [of "\<lparr>sorter_data = [1, 4, 4, 9], sorter_xsubi = ()\<rparr>" 4]
  by (simp add: sorter_ok_def)

end
