(* ===== verification/MedianCollector.thy ===== *)
theory MedianCollector
  imports Sorter
begin

text \<open>
  The collector of the median example (examples/median/collector.cc, class
  \<^verbatim>\<open>Collector\<close>): it queries all sorters, sums their answers in the callbacks and runs
  \<^verbatim>\<open>getKth\<close> over the network. The callbacks run in the event loop in the order in which
  the responses arrive, which the network decides: it is a parameter, any reordering of
  the responses. The latch is released by the last response, so a completed call has seen
  each response once.
\<close>

section \<open>Callbacks and operations\<close>

text \<open>A network order turns the responses, listed by sorter, into their order of arrival.\<close>

record network =
  query_order :: "query_response list \<Rightarrow> query_response list"
  search_order :: "int64 \<Rightarrow> (int64 \<times> int64) list \<Rightarrow> (int64 \<times> int64) list"

definition network_ok :: "network \<Rightarrow> bool" where
  "network_ok net \<longleftrightarrow>
     (\<forall>rs. mset (query_order net rs) = mset rs) \<and>
     (\<forall>g rs. mset (search_order net g rs) = mset rs)"

definition getStats_cb :: "query_response \<Rightarrow> query_response \<Rightarrow> query_response" where
  "getStats_cb resp result =
     (let result = result\<lparr>qr_count := qr_count result + qr_count resp\<rparr>;
          result = result\<lparr>qr_sum := Some (field_value (qr_sum result) + field_value (qr_sum resp))\<rparr>
      in if 0 <s qr_count resp then
           (let result =
                  (if field_value (qr_min resp) <s field_value (qr_min result)
                   then result\<lparr>qr_min := Some (field_value (qr_min resp))\<rparr> else result)
            in if field_value (qr_max result) <s field_value (qr_max resp)
               then result\<lparr>qr_max := Some (field_value (qr_max resp))\<rparr> else result)
         else result)"

definition getStats :: "network \<Rightarrow> 'r sorter list \<Rightarrow> query_response \<Rightarrow> query_response" where
  "getStats net sorters result = fold getStats_cb (query_order net (map Query sorters)) result"

definition search_cb :: "int64 \<times> int64 \<Rightarrow> int64 \<times> int64 \<Rightarrow> int64 \<times> int64" where
  "search_cb resp acc = (fst acc + fst resp, snd acc + snd resp)"

definition collector_search :: "network \<times> 'r sorter list \<Rightarrow> int64 \<Rightarrow> int64 \<times> int64" where
  "collector_search c guess =
     fold search_cb (search_order (fst c) guess (map (\<lambda>s. Search s guess) (snd c))) (0, 0)"

text \<open>What \<^verbatim>\<open>run\<close> logs.\<close>

datatype run_outcome = No_median | Median int64 | Median_not_found | Run_assert_failed

definition run :: "network \<Rightarrow> 'r sorter list \<Rightarrow> run_outcome" where
  "run net sorters =
     (let stats = getStats net sorters
            (query_response_empty\<lparr>qr_min := Some int64_max, qr_max := Some int64_min\<rparr>);
          cnt = qr_count stats
      in if cnt \<le>s 0 then No_median
         else
           (let k = word_of_int (sint (cnt + 1) sdiv 2) in
            case getKth (collector_search (net, sorters)) k cnt
                   (field_value (qr_min stats)) (field_value (qr_max stats)) of
              Kth_Result v found \<Rightarrow> if found then Median v else Median_not_found
            | Kth_Assert_Failed \<Rightarrow> Run_assert_failed))"

section \<open>The search over all sorters keeps the contract\<close>

definition all_data :: "'r sorter list \<Rightarrow> int64 list" where
  "all_data sorters = concat (map sorter_data sorters)"

definition collector_ok :: "network \<times> 'r sorter list \<Rightarrow> bool" where
  "collector_ok c \<longleftrightarrow> network_ok (fst c) \<and> (\<forall>s\<in>set (snd c). sorter_ok s) \<and>
     length (all_data (snd c)) < 2 ^ 63"

lemma fold_search_cb:
  "fold search_cb rs (a, b) = (a + sum_list (map fst rs), b + sum_list (map snd rs))"
  by (induction rs arbitrary: a b) (auto simp: search_cb_def algebra_simps)

lemma sum_list_map_mset_cong:
  fixes f :: "'a \<Rightarrow> 'b :: comm_monoid_add"
  shows "mset xs = mset ys \<Longrightarrow> sum_list (map f xs) = sum_list (map f ys)"
  by (metis mset_map sum_mset_sum_list)

lemma collector_search_sums:
  assumes "network_ok net"
  shows "collector_search (net, sorters) g =
    (sum_list (map (\<lambda>s. fst (Search s g)) sorters), sum_list (map (\<lambda>s. snd (Search s g)) sorters))"
proof -
  let ?rs = "map (\<lambda>s. Search s g) sorters"
  have "mset (search_order net g ?rs) = mset ?rs"
    using assms unfolding network_ok_def by blast
  then show ?thesis
    by (simp add: collector_search_def fold_search_cb sum_list_map_mset_cong [of _ ?rs] o_def)
qed

text \<open>Sums of words that stand for counts do not wrap while the total is below \<open>2 ^ 63\<close>.\<close>

lemma sint_sum_counts:
  assumes "\<forall>s\<in>set ss. sint (f s :: int64) = int (n s)" "sum_list (map n ss) < 2 ^ 63"
  shows "sint (sum_list (map f ss)) = int (sum_list (map n ss))"
  using assms
proof (induction ss)
  case (Cons s ss)
  then have IH: "sint (sum_list (map f ss)) = int (sum_list (map n ss))"
    by simp
  have "int (n s + sum_list (map n ss)) < 2 ^ 63"
    using Cons.prems(2) by (simp flip: of_nat_less_iff)
  then show ?case
    using Cons.prems(1) IH by (simp add: sint_add64)
qed simp

lemma length_filter_concat:
  "length (filter P (concat xss)) = sum_list (map (\<lambda>xs. length (filter P xs)) xss)"
  by (induction xss) auto

lemma collector_count:
  assumes ok: "collector_ok (net, sorters)"
    and each: "\<And>s. sorter_ok s \<Longrightarrow> sint (f s :: int64) = int (length (filter P (sorter_data s)))"
  shows "sint (sum_list (map f sorters)) = int (length (filter P (all_data sorters)))"
proof -
  have eq: "length (filter P (all_data sorters)) =
      sum_list (map (\<lambda>s. length (filter P (sorter_data s))) sorters)"
    by (simp add: all_data_def length_filter_concat o_def)
  moreover have "length (filter P (all_data sorters)) < 2 ^ 63"
    using ok length_filter_le [of P "all_data sorters"]
    by (simp only: collector_ok_def snd_conv) linarith
  ultimately show ?thesis
    using ok each sint_sum_counts [of sorters f "\<lambda>s. length (filter P (sorter_data s))"]
    by (simp add: collector_ok_def)
qed

interpretation collector_search: kth_search collector_search "\<lambda>c. all_data (snd c)" collector_ok
proof unfold_locales
  fix c :: "network \<times> 'r sorter list" and g
  assume ok: "collector_ok c"
  obtain net sorters where c: "c = (net, sorters)" by (cases c)
  have net: "network_ok net" using ok by (simp add: collector_ok_def c)
  show "length (all_data (snd c)) < 2 ^ 63" using ok by (simp add: collector_ok_def)
  show "sint (fst (collector_search c g)) = int (length (filter (\<lambda>x. x <s g) (all_data (snd c))))"
    using collector_count [OF ok [unfolded c] Search_fst] by (simp add: c collector_search_sums [OF net])
  show "sint (snd (collector_search c g)) = int (length (filter (\<lambda>x. x = g) (all_data (snd c))))"
    using collector_count [OF ok [unfolded c] Search_snd] by (simp add: c collector_search_sums [OF net])
qed

section \<open>The statistics\<close>

lemma getStats_cb_fields:
  "qr_count (getStats_cb resp result) = qr_count result + qr_count resp"
  "field_value (qr_sum (getStats_cb resp result)) =
     field_value (qr_sum result) + field_value (qr_sum resp)"
  "field_value (qr_min (getStats_cb resp result)) =
     (if 0 <s qr_count resp \<and> field_value (qr_min resp) <s field_value (qr_min result)
      then field_value (qr_min resp) else field_value (qr_min result))"
  "field_value (qr_max (getStats_cb resp result)) =
     (if 0 <s qr_count resp \<and> field_value (qr_max result) <s field_value (qr_max resp)
      then field_value (qr_max resp) else field_value (qr_max result))"
  by (simp_all add: getStats_cb_def Let_def field_value_def)

lemma fold_getStats_totals:
  "qr_count (fold getStats_cb rs r) = qr_count r + sum_list (map qr_count rs)"
  "field_value (qr_sum (fold getStats_cb rs r)) =
     field_value (qr_sum r) + sum_list (map (\<lambda>resp. field_value (qr_sum resp)) rs)"
  by (induction rs arbitrary: r) (auto simp: getStats_cb_fields algebra_simps)

lemma fold_getStats_min_le:
  "field_value (qr_min (fold getStats_cb rs r)) \<le>s field_value (qr_min r)"
  "field_value (qr_max r) \<le>s field_value (qr_max (fold getStats_cb rs r))"
proof (induction rs arbitrary: r)
  case (Cons x rs)
  {
    case 1
    from Cons(1) [of "getStats_cb x r"] show ?case
      by (simp add: getStats_cb_fields sle_iff sless_iff split: if_splits)
  next
    case 2
    from Cons(2) [of "getStats_cb x r"] show ?case
      by (simp add: getStats_cb_fields sle_iff sless_iff split: if_splits)
  }
qed (simp_all add: sle_iff)

lemma fold_getStats_bounds:
  assumes "resp \<in> set rs" "0 <s qr_count resp"
  shows "field_value (qr_min (fold getStats_cb rs r)) \<le>s field_value (qr_min resp)"
    and "field_value (qr_max resp) \<le>s field_value (qr_max (fold getStats_cb rs r))"
proof -
  obtain us vs where rs: "rs = us @ resp # vs"
    using assms(1) by (auto simp: in_set_conv_decomp)
  let ?r = "getStats_cb resp (fold getStats_cb us r)"
  have "fold getStats_cb rs r = fold getStats_cb vs ?r" by (simp add: rs)
  moreover have "field_value (qr_min ?r) \<le>s field_value (qr_min resp)"
    "field_value (qr_max resp) \<le>s field_value (qr_max ?r)"
    using assms(2) by (auto simp: getStats_cb_fields sle_iff sless_iff)
  ultimately show "field_value (qr_min (fold getStats_cb rs r)) \<le>s field_value (qr_min resp)"
    and "field_value (qr_max resp) \<le>s field_value (qr_max (fold getStats_cb rs r))"
    using fold_getStats_min_le [where rs = vs and r = ?r] by (auto simp: sle_iff)
qed

text \<open>The minimum and maximum are one of the reported ones, or the initial values.\<close>

lemma fold_getStats_attained:
  "field_value (qr_min (fold getStats_cb rs r)) = field_value (qr_min r) \<or>
    (\<exists>resp\<in>set rs. 0 <s qr_count resp \<and>
      field_value (qr_min (fold getStats_cb rs r)) = field_value (qr_min resp))"
  "field_value (qr_max (fold getStats_cb rs r)) = field_value (qr_max r) \<or>
    (\<exists>resp\<in>set rs. 0 <s qr_count resp \<and>
      field_value (qr_max (fold getStats_cb rs r)) = field_value (qr_max resp))"
proof (induction rs arbitrary: r)
  case (Cons x rs)
  {
    case 1
    from Cons(1) [of "getStats_cb x r"] show ?case
      by (auto simp: getStats_cb_fields split: if_splits)
  next
    case 2
    from Cons(2) [of "getStats_cb x r"] show ?case
      by (auto simp: getStats_cb_fields split: if_splits)
  }
qed simp_all

abbreviation initial_stats :: query_response where
  "initial_stats \<equiv> query_response_empty\<lparr>qr_min := Some int64_max, qr_max := Some int64_min\<rparr>"

lemma Query_count: "sorter_ok s \<Longrightarrow> sint (qr_count (Query s)) = int (length (sorter_data s))"
  using sint_of_nat64 [of "length (sorter_data s)"]
  by (simp add: Query_def Let_def sorter_ok_def)

lemma Query_sum: "field_value (qr_sum (Query s)) = sum_list (sorter_data s)"
  by (simp add: Query_def Let_def field_value_def query_response_empty_def)

lemma getStats_count:
  assumes "collector_ok (net, sorters)"
  shows "sint (qr_count (getStats net sorters initial_stats)) = int (length (all_data sorters))"
proof -
  have "mset (query_order net (map Query sorters)) = mset (map Query sorters)"
    using assms by (simp add: collector_ok_def network_ok_def)
  then have "qr_count (getStats net sorters initial_stats) =
      sum_list (map (\<lambda>s. qr_count (Query s)) sorters)"
    by (simp add: getStats_def fold_getStats_totals query_response_empty_def o_def
        sum_list_map_mset_cong [of _ "map Query sorters"])
  then show ?thesis
    using collector_count [OF assms, where f = "\<lambda>s. qr_count (Query s)" and P = "\<lambda>_. True"]
      Query_count by fastforce
qed

lemma sum_list_concat_map:
  "sum_list (concat (map f xs)) = (\<Sum>x\<leftarrow>xs. sum_list (f x))"
  by (induction xs) auto

lemma getStats_sum:
  assumes "network_ok net"
  shows "field_value (qr_sum (getStats net sorters initial_stats)) = sum_list (all_data sorters)"
proof -
  have "mset (query_order net (map Query sorters)) = mset (map Query sorters)"
    using assms by (simp add: network_ok_def)
  then have "field_value (qr_sum (getStats net sorters initial_stats)) =
      sum_list (map (\<lambda>s. sum_list (sorter_data s)) sorters)"
    by (simp add: getStats_def fold_getStats_totals query_response_empty_def o_def Query_sum
        field_value_def [of None] sum_list_map_mset_cong [of _ "map Query sorters"])
  then show ?thesis
    by (simp add: all_data_def sum_list_concat_map)
qed

lemma query_arrivals:
  "network_ok net \<Longrightarrow> set (query_order net (map Query sorters)) = Query ` set sorters"
  unfolding network_ok_def by (metis mset_eq_setD set_map)

lemma Query_reports: "sorter_ok s \<Longrightarrow> 0 <s qr_count (Query s) \<longleftrightarrow> sorter_data s \<noteq> []"
  using Query_count [of s] by (simp add: sless_iff)

lemma getStats_bounds:
  assumes ok: "collector_ok (net, sorters)"
  shows "\<forall>x\<in>set (all_data sorters).
    field_value (qr_min (getStats net sorters initial_stats)) \<le>s x \<and>
    x \<le>s field_value (qr_max (getStats net sorters initial_stats))"
proof
  fix x assume "x \<in> set (all_data sorters)"
  then obtain s where s: "s \<in> set sorters" "x \<in> set (sorter_data s)"
    by (auto simp: all_data_def)
  then have sok: "sorter_ok s" and net: "network_ok net" using ok by (auto simp: collector_ok_def)
  have ne: "sorter_data s \<noteq> []" using s(2) by auto
  have "Query s \<in> set (query_order net (map Query sorters))"
    using s(1) query_arrivals [OF net] by auto
  from fold_getStats_bounds [OF this] Query_bounds [OF sok ne] Query_reports [OF sok] s(2) ne
  show "field_value (qr_min (getStats net sorters initial_stats)) \<le>s x \<and>
    x \<le>s field_value (qr_max (getStats net sorters initial_stats))"
    unfolding getStats_def sle_iff by (meson order_trans)
qed

lemma getStats_attained:
  assumes ok: "collector_ok (net, sorters)" and ne: "all_data sorters \<noteq> []"
  shows "field_value (qr_min (getStats net sorters initial_stats)) \<in> set (all_data sorters)"
    and "field_value (qr_max (getStats net sorters initial_stats)) \<in> set (all_data sorters)"
proof -
  have net: "network_ok net" and oks: "\<forall>s\<in>set sorters. sorter_ok s"
    using ok by (auto simp: collector_ok_def)
  have reported: "field_value (qr_min resp) \<in> set (all_data sorters) \<and>
      field_value (qr_max resp) \<in> set (all_data sorters)"
    if resp: "resp \<in> set (query_order net (map Query sorters))" "0 <s qr_count resp" for resp
  proof -
    obtain s where s: "s \<in> set sorters" "resp = Query s"
      using resp(1) query_arrivals [OF net, of sorters] by auto
    with resp(2) oks have "sorter_data s \<noteq> []" by (simp add: Query_reports)
    from Query_attained [OF this] s show ?thesis by (auto simp: all_data_def)
  qed
  obtain x where x: "x \<in> set (all_data sorters)" using ne by (cases "all_data sorters") auto
  note bounds = getStats_bounds [OF ok, rule_format, OF x]
  let ?rs = "query_order net (map Query sorters)" and ?st = "getStats net sorters initial_stats"
  show "field_value (qr_min ?st) \<in> set (all_data sorters)"
  proof (cases "field_value (qr_min ?st) = int64_max")
    case True
    with bounds have "x = int64_max"
      using sint_range64 [of x] by (simp add: sle_iff int64_eq_iff)
    with True x show ?thesis by simp
  next
    case False
    then have "\<exists>resp\<in>set ?rs. 0 <s qr_count resp \<and> field_value (qr_min ?st) = field_value (qr_min resp)"
      using fold_getStats_attained(1) [of ?rs initial_stats] by (simp add: getStats_def field_value_def)
    then show ?thesis using reported by metis
  qed
  show "field_value (qr_max ?st) \<in> set (all_data sorters)"
  proof (cases "field_value (qr_max ?st) = int64_min")
    case True
    with bounds have "x = int64_min"
      using sint_range64 [of x] by (simp add: sle_iff int64_eq_iff)
    with True x show ?thesis by simp
  next
    case False
    then have "\<exists>resp\<in>set ?rs. 0 <s qr_count resp \<and> field_value (qr_max ?st) = field_value (qr_max resp)"
      using fold_getStats_attained(2) [of ?rs initial_stats] by (simp add: getStats_def field_value_def)
    then show ?thesis using reported by metis
  qed
qed

section \<open>The run\<close>

lemma half_nat_word: "(word_of_int ((int n + 1) div 2) :: int64) = of_nat ((n + 1) div 2)"
proof -
  have "(int n + 1) div 2 = int ((n + 1) div 2)" by (simp add: zdiv_int)
  then show ?thesis by (simp only: of_int_of_nat_eq)
qed

text \<open>C7: Whatever values the sorters hold and in whatever order their answers arrive, the
  collector of the median example logs the median: the lower median of all values together,
  found within the limit of 100 steps and without a failing assertion, although the code
  subtracts 64-bit values whose difference may not fit.\<close>

theorem run_median:
  assumes ok: "collector_ok (net, sorters)"
    and ne: "all_data sorters \<noteq> []" and small: "Suc (length (all_data sorters)) < 2 ^ 63"
  shows "run net sorters =
    Median (kth_smallest ((length (all_data sorters) + 1) div 2) (all_data sorters))"
proof -
  let ?n = "length (all_data sorters)" and ?st = "getStats net sorters initial_stats"
  have n: "0 < ?n" using ne by simp
  have cnt: "sint (qr_count ?st) = int ?n" by (rule getStats_count [OF ok])
  have "int ?n + 1 < 2 ^ 63"
    using small by (simp flip: of_nat_less_iff)
  then have "sint (qr_count ?st + 1) = int ?n + 1"
    using cnt by (subst sint_add64) auto
  then have k: "word_of_int (sint (qr_count ?st + 1) sdiv 2) = (of_nat ((?n + 1) div 2) :: int64)"
    using n by (simp add: signed_divide_int_def sgn_if half_nat_word)
  have pos: "\<not> qr_count ?st \<le>s 0" using cnt n by (simp add: sle_iff)
  have "getKth (collector_search (net, sorters)) (of_nat ((?n + 1) div 2)) (qr_count ?st)
      (field_value (qr_min ?st)) (field_value (qr_max ?st)) =
      Kth_Result (kth_smallest ((?n + 1) div 2) (all_data sorters)) True"
    using collector_search.getKth_correct [OF ok, of "(?n + 1) div 2"] getStats_bounds [OF ok] n
    by simp
  with k pos show ?thesis
    by (simp add: run_def Let_def)
qed

text \<open>An example: three sorters, two with data, whose answers arrive in reverse.\<close>

definition example_net :: network where
  "example_net = \<lparr>query_order = rev, search_order = (\<lambda>_. rev)\<rparr>"

definition example_sorters :: "unit sorter list" where
  "example_sorters = [\<lparr>sorter_data = [int64_min, 7], sorter_xsubi = ()\<rparr>,
     \<lparr>sorter_data = [], sorter_xsubi = ()\<rparr>, \<lparr>sorter_data = [9, int64_max], sorter_xsubi = ()\<rparr>]"

lemma example_collector_ok: "collector_ok (example_net, example_sorters)"
  by (simp add: collector_ok_def network_ok_def example_net_def example_sorters_def sorter_ok_def
      all_data_def)

theorem run_median_witness: "run example_net example_sorters = Median 7"
proof -
  have "kth_smallest ((length (all_data example_sorters) + 1) div 2) (all_data example_sorters) = 7"
    by (simp add: kth_smallest_def all_data_def example_sorters_def)
  moreover have "all_data example_sorters \<noteq> []" "Suc (length (all_data example_sorters)) < 2 ^ 63"
    by (simp_all add: all_data_def example_sorters_def)
  ultimately show ?thesis using run_median [OF example_collector_ok] by metis
qed

text \<open>The statistics the collector gathers are exact for any order of arrival: the count is
  the number of all values, the sum is their sum (at 64 bits), and unless there is no value
  the minimum and maximum are values that bound all the others.\<close>

theorem getStats_exact:
  assumes "collector_ok (net, sorters)"
  shows "let st = getStats net sorters initial_stats; xs = all_data sorters in
    sint (qr_count st) = int (length xs) \<and> field_value (qr_sum st) = sum_list xs \<and>
    (xs = [] \<or> field_value (qr_min st) \<in> set xs \<and> field_value (qr_max st) \<in> set xs) \<and>
    list_all (\<lambda>x. field_value (qr_min st) \<le>s x \<and> x \<le>s field_value (qr_max st)) xs"
  using getStats_count [OF assms] getStats_sum [of net sorters] getStats_attained [OF assms]
    getStats_bounds [OF assms] assms
  by (auto simp: Let_def list_all_iff collector_ok_def)

theorem getStats_exact_witness:
  "sint (qr_count (getStats example_net example_sorters initial_stats)) = 4 \<and>
     field_value (qr_sum (getStats example_net example_sorters initial_stats)) = 15"
proof -
  have "length (all_data example_sorters) = 4" "sum_list (all_data example_sorters) = 15"
    by (simp_all add: all_data_def example_sorters_def)
  then show ?thesis
    using getStats_exact [OF example_collector_ok] by (simp add: Let_def)
qed

end
