(* ===== verification/Partition.thy ===== *)
theory Partition
  imports Prelude
begin

text \<open>
  The pivot search of the word-frequency example (examples/wordfreq/partition.h): it cuts the
  range of keys into slots, asks for a histogram, and picks the pivots that give each worker
  about the same number of keys. The histogram comes from a callback, a parameter. Its
  contract is the locale \<open>histogram_source\<close>: the counts of the keys up to each pivot. The
  workers' handler provides it (theory \<open>WordFreq\<close>).

  A failing assertion, a signed overflow and a write past the end of a vector are error values.
\<close>

section \<open>The code\<close>

datatype partition_error = Partition_assert | Integer_overflow | Past_end

text \<open>\<^verbatim>\<open>increment\<close> and \<^verbatim>\<open>nPivots\<close> of one round.\<close>

definition slot_size :: "int \<Rightarrow> int \<Rightarrow> int \<times> int" where
  "slot_size maxKey nPivots =
     (let increment = maxKey div nPivots
      in if increment = 0 then (1, maxKey) else (increment, nPivots))"

text \<open>The \<^verbatim>\<open>while\<close> loop; \<open>slots\<close> is positive in every round. The vector \<^verbatim>\<open>pivots\<close>
  is not cleared between rounds.\<close>

function partition_loop ::
  "(int list \<Rightarrow> int list) \<Rightarrow> int \<Rightarrow> int \<Rightarrow> int \<Rightarrow> int \<Rightarrow> int list \<Rightarrow>
     partition_error + int \<times> int list \<times> int list" where
  "partition_loop getHist maxKey keyCount nWorkers slots pivots =
     (if \<not> slots * nWorkers < 2 ^ 31 then Inl Integer_overflow
      else
        (let (increment, nPivots) = slot_size maxKey (slots * nWorkers);
             pivots = pivots @ map (\<lambda>i. int i * increment) [1..<nat nPivots] @ [maxKey]
         in if int (length pivots) \<noteq> nPivots then Inl Partition_assert
            else
              (let histogram = getHist pivots
               in if histogram \<noteq> [] \<and> \<not> 2 * keyCount < 2 ^ 63 then Inl Integer_overflow
                  else
                    (let retry = list_ex (\<lambda>c. 2 * keyCount div nPivots < c) histogram
                     in if retry \<and> slots \<le> 1024 \<and> 0 < slots
                        then partition_loop getHist maxKey keyCount nWorkers (slots * 2) pivots
                        else Inr (nPivots, pivots, histogram)))))"
  by pat_completeness auto
termination
  by (relation "measure (\<lambda>(getHist, maxKey, keyCount, nWorkers, slots, pivots). nat (2048 - slots))") auto

declare partition_loop.simps [simp del]

text \<open>One pivot of the result, for the \<open>i\<close>-th worker; \<open>None\<close> is the failing assertion.\<close>

definition worker_pivot :: "int list \<Rightarrow> int list \<Rightarrow> int \<Rightarrow> nat \<Rightarrow> int option" where
  "worker_pivot pivots cum perWorker i =
     (let it = lower_bound (<) cum (int i * perWorker)
      in if it = length cum then None else Some (pivots ! it))"

definition partition ::
  "int \<Rightarrow> int \<Rightarrow> int \<Rightarrow> (int list \<Rightarrow> int list) \<Rightarrow> partition_error + int list" where
  "partition maxKey keyCount nWorkers getHist =
     (if \<not> (0 < maxKey \<and> 0 < keyCount \<and> 0 < nWorkers) then Inl Partition_assert
      else case partition_loop getHist maxKey keyCount nWorkers 32 [] of
        Inl e \<Rightarrow> Inl e
      | Inr (nPivots, pivots, histogram) \<Rightarrow>
          if nPivots < int (length histogram) then Inl Past_end
          else if list_ex (\<lambda>x. \<not> x < 2 ^ 63 \<or> x < - (2 ^ 63)) (partial_sum histogram)
          then Inl Integer_overflow
          else
            (let cum = partial_sum histogram @ replicate (nat nPivots - length histogram) 0;
                 perWorker = keyCount div nWorkers
             in if last cum \<noteq> keyCount then Inl Partition_assert
                else case those (map (worker_pivot pivots cum perWorker) [1..<nat nWorkers]) of
                  None \<Rightarrow> Inl Partition_assert
                | Some result \<Rightarrow>
                    (let result = result @ [maxKey]
                     in if int (length result) = nWorkers \<and> last result = maxKey then Inr result
                        else Inl Partition_assert)))"

section \<open>The pivots of the first round\<close>

definition first_pivots :: "int \<Rightarrow> int \<Rightarrow> int list" where
  "first_pivots maxKey nWorkers =
     (let (increment, nPivots) = slot_size maxKey (32 * nWorkers)
      in map (\<lambda>i. int i * increment) [1..<nat nPivots] @ [maxKey])"

lemma slot_size_bounds:
  assumes "0 < maxKey" "0 < n" "slot_size maxKey n = (increment, nPivots)"
  shows "0 < increment" "0 < nPivots" "nPivots * increment \<le> maxKey"
proof -
  have "n * (maxKey div n) \<le> maxKey" using assms(2) by (simp add: mult.commute pos_imp_zdiv_nonneg_iff
        minus_mod_eq_mult_div [symmetric])
  moreover have "0 \<le> maxKey div n" using assms by (simp add: pos_imp_zdiv_nonneg_iff)
  ultimately show "0 < increment" "0 < nPivots" "nPivots * increment \<le> maxKey"
    using assms by (auto simp: slot_size_def Let_def split: if_splits)
qed

lemma length_first_pivots:
  assumes "0 < maxKey" "0 < nWorkers"
  shows "int (length (first_pivots maxKey nWorkers)) = snd (slot_size maxKey (32 * nWorkers))"
proof -
  obtain increment nPivots where s: "slot_size maxKey (32 * nWorkers) = (increment, nPivots)"
    by (cases "slot_size maxKey (32 * nWorkers)")
  have "0 < nPivots" using slot_size_bounds(2) [OF assms(1) _ s] assms(2) by simp
  then show ?thesis by (simp add: first_pivots_def s Let_def)
qed

lemma first_pivots_sorted:
  assumes "0 < maxKey" "0 < nWorkers"
  shows "sorted_wrt (<) (first_pivots maxKey nWorkers)"
proof -
  obtain increment nPivots where s: "slot_size maxKey (32 * nWorkers) = (increment, nPivots)"
    by (cases "slot_size maxKey (32 * nWorkers)")
  note b = slot_size_bounds [OF assms(1) _ s]
  have "int i * increment < maxKey" if "i < nat nPivots" for i
  proof -
    have "int i < nPivots" using that by linarith
    then have "int i * increment < nPivots * increment" using b assms by simp
    then show ?thesis using b assms by linarith
  qed
  moreover have "sorted_wrt (<) (map (\<lambda>i. int i * increment) [1..<nat nPivots])"
    using b assms by (simp add: sorted_wrt_map sorted_wrt_iff_nth_less)
  ultimately show ?thesis by (auto simp: first_pivots_def s sorted_wrt_append)
qed

lemma last_first_pivots: "first_pivots maxKey nWorkers \<noteq> [] \<and> last (first_pivots maxKey nWorkers) = maxKey"
  by (simp add: first_pivots_def case_prod_beta Let_def)

section \<open>The rounds\<close>

lemma partition_loop_first:
  assumes "0 < maxKey" "0 < nWorkers" "32 * nWorkers < 2 ^ 31" "2 * keyCount < 2 ^ 63"
    and "\<not> list_ex (\<lambda>c. 2 * keyCount div int (length (first_pivots maxKey nWorkers)) < c)
      (getHist (first_pivots maxKey nWorkers))"
  shows "partition_loop getHist maxKey keyCount nWorkers 32 [] =
    Inr (int (length (first_pivots maxKey nWorkers)), first_pivots maxKey nWorkers,
      getHist (first_pivots maxKey nWorkers))"
proof -
  obtain increment nPivots where s: "slot_size maxKey (32 * nWorkers) = (increment, nPivots)"
    by (cases "slot_size maxKey (32 * nWorkers)")
  have n: "int (length (first_pivots maxKey nWorkers)) = nPivots"
    using length_first_pivots [OF assms(1,2)] by (simp add: s)
  have ps: "map (\<lambda>i. int i * increment) [1..<nat nPivots] @ [maxKey] = first_pivots maxKey nWorkers"
    by (simp add: first_pivots_def s)
  show ?thesis
    using assms(3-5) n
    by (subst partition_loop.simps) (simp only: s Let_def prod.case append_Nil ps n not_True_eq_False if_False
        not_False_eq_True if_True simp_thms)
qed

text \<open>A second round never gets past the assertion on the number of pivots.\<close>

lemma partition_loop_later:
  assumes "0 < maxKey" "0 < slots * nWorkers" "pivots \<noteq> []"
  shows "\<exists>e. partition_loop getHist maxKey keyCount nWorkers slots pivots = Inl e"
proof (cases "slots * nWorkers < 2 ^ 31")
  case True
  obtain increment nPivots where s: "slot_size maxKey (slots * nWorkers) = (increment, nPivots)"
    by (cases "slot_size maxKey (slots * nWorkers)")
  have "0 < nPivots" by (rule slot_size_bounds(2) [OF assms(1,2) s])
  then have "int (length (pivots @ map (\<lambda>i. int i * increment) [1..<nat nPivots] @ [maxKey])) \<noteq> nPivots"
    using assms(3) by (cases pivots) auto
  with True show ?thesis by (subst partition_loop.simps) (simp add: s Let_def)
qed (simp add: partition_loop.simps)

lemma partition_loop_retry:
  assumes "0 < maxKey" "0 < nWorkers"
    and "list_ex (\<lambda>c. 2 * keyCount div int (length (first_pivots maxKey nWorkers)) < c)
      (getHist (first_pivots maxKey nWorkers))"
  shows "\<exists>e. partition_loop getHist maxKey keyCount nWorkers 32 [] = Inl e"
proof -
  obtain increment nPivots where s: "slot_size maxKey (32 * nWorkers) = (increment, nPivots)"
    by (cases "slot_size maxKey (32 * nWorkers)")
  have n: "int (length (first_pivots maxKey nWorkers)) = nPivots"
    using length_first_pivots [OF assms(1,2)] by (simp add: s)
  have ps: "map (\<lambda>i. int i * increment) [1..<nat nPivots] @ [maxKey] = first_pivots maxKey nWorkers"
    by (simp add: first_pivots_def s)
  have "\<exists>e. partition_loop getHist maxKey keyCount nWorkers (32 * 2) (first_pivots maxKey nWorkers) = Inl e"
    using assms(1,2) last_first_pivots by (intro partition_loop_later) auto
  with assms(3) show ?thesis
    unfolding n by (subst partition_loop.simps) (auto simp: s ps [simplified] n Let_def)
qed

lemma partition_retry:
  assumes "list_ex (\<lambda>c. 2 * keyCount div int (length (first_pivots maxKey nWorkers)) < c)
      (getHist (first_pivots maxKey nWorkers))"
  shows "\<exists>e. partition maxKey keyCount nWorkers getHist = Inl e"
proof (cases "0 < maxKey \<and> 0 < keyCount \<and> 0 < nWorkers")
  case True
  then obtain e where "partition_loop getHist maxKey keyCount nWorkers 32 [] = Inl e"
    using partition_loop_retry [of maxKey nWorkers keyCount getHist] assms by blast
  with True show ?thesis by (simp add: partition_def)
qed (auto simp: partition_def)

section \<open>A histogram source\<close>

lemma those_map_Some: "(\<And>x. x \<in> set xs \<Longrightarrow> f x = Some (g x)) \<Longrightarrow> those (map f xs) = Some (map g xs)"
  by (induction xs) simp_all

text \<open>What \<open>partition\<close> needs of the histogram: the counts up to a pivot add up to the number of
  keys that are not greater than it.\<close>

locale histogram_source =
  fixes hist :: "'s \<Rightarrow> int list \<Rightarrow> int list"
    and keys :: "'s \<Rightarrow> int list"
  assumes hist_upto: "sorted_wrt (<) ps \<Longrightarrow> i < length ps \<Longrightarrow>
      sum_list (take (Suc i) (hist s ps)) = int (length (filter (\<lambda>k. k \<le> ps ! i) (keys s)))"
begin

abbreviation upto_count :: "'s \<Rightarrow> int \<Rightarrow> int" where
  "upto_count s p \<equiv> int (length (filter (\<lambda>k. k \<le> p) (keys s)))"

lemma cum_nth:
  assumes "sorted_wrt (<) ps" "length (hist s ps) = length ps" "i < length ps"
  shows "partial_sum (hist s ps) ! i = upto_count s (ps ! i)"
  using assms by (simp add: partial_sum_nth hist_upto)

lemma cum_last:
  assumes "sorted_wrt (<) ps" "length (hist s ps) = length ps" "ps \<noteq> []" "\<forall>k\<in>set (keys s). k \<le> last ps"
  shows "last (partial_sum (hist s ps)) = int (length (keys s))"
proof -
  have "last (partial_sum (hist s ps)) = partial_sum (hist s ps) ! (length ps - 1)"
    using assms(2,3) by (metis last_conv_nth length_partial_sum length_0_conv)
  also have "\<dots> = upto_count s (last ps)"
    using assms by (simp add: cum_nth last_conv_nth)
  also have "filter (\<lambda>k. k \<le> last ps) (keys s) = keys s"
    using assms(4) by (simp add: filter_id_conv)
  finally show ?thesis .
qed

text \<open>The pivot of a worker is the first one with enough keys up to it, and the slot before it
  holds at most \<open>bound\<close> keys.\<close>

lemma worker_pivot_ok:
  assumes ps: "sorted_wrt (<) ps" "length (hist s ps) = length ps"
    and enough: "int i * perWorker \<le> last (partial_sum (hist s ps))" "ps \<noteq> []"
    and "0 \<le> perWorker" and bound: "\<forall>c\<in>set (hist s ps). c \<le> bound"
  defines "j \<equiv> lower_bound (<) (partial_sum (hist s ps)) (int i * perWorker)"
  shows "worker_pivot ps (partial_sum (hist s ps)) perWorker i = Some (ps ! j)" "j < length ps"
    "int i * perWorker \<le> upto_count s (ps ! j)"
    "upto_count s (ps ! j) \<le> int i * perWorker + bound"
proof -
  let ?cum = "partial_sum (hist s ps)" and ?v = "int i * perWorker"
  have "\<not> last ?cum < ?v" using enough by simp
  moreover have "?cum \<noteq> []" using ps(2) enough(2) by (metis length_0_conv length_partial_sum)
  ultimately have "j \<noteq> length ?cum"
    unfolding j_def lower_bound_eq_length_iff by (metis last_in_set)
  then have j: "j < length ps" using ps(2) lower_bound_le_length [of "(<)" ?cum ?v] by (simp add: j_def)
  then show "j < length ps" .
  show "worker_pivot ps ?cum perWorker i = Some (ps ! j)"
    using j ps(2) by (simp add: worker_pivot_def j_def Let_def)
  show "?v \<le> upto_count s (ps ! j)"
    using lower_bound_at [of "(<)" ?cum ?v] j ps(2) cum_nth [OF ps j] by (simp add: j_def)
  have hj: "hist s ps ! j \<le> bound" using bound j ps(2) by simp
  show "upto_count s (ps ! j) \<le> ?v + bound"
  proof (cases j)
    case 0
    then have "upto_count s (ps ! j) = hist s ps ! j"
      using hist_upto [OF ps(1) j, of s] ps(2) j by (cases "hist s ps") auto
    moreover have "0 \<le> ?v" using assms(5) by simp
    ultimately show ?thesis using hj by linarith
  next
    case (Suc j')
    then have "?cum ! j' < ?v" using lower_bound_before [of j' "(<)" ?cum ?v] by (simp add: j_def)
    moreover have "upto_count s (ps ! j) = ?cum ! j' + hist s ps ! j"
      using hist_upto [OF ps(1) j, of s] Suc j ps(2)
      by (simp add: partial_sum_nth take_Suc_conv_app_nth)
    ultimately show ?thesis using hj by linarith
  qed
qed

lemma partition_balanced:
  assumes sizes: "0 < maxKey" "0 < nWorkers" "32 * nWorkers < 2 ^ 31"
    and count: "keyCount = int (length (keys s))" "0 < keyCount" "2 * keyCount < 2 ^ 63"
    and range: "\<forall>k\<in>set (keys s). k \<le> maxKey"
  defines "ps \<equiv> first_pivots maxKey nWorkers"
  defines "bound \<equiv> 2 * keyCount div int (length ps)"
  assumes len: "length (hist s ps) = length ps" and bal: "\<forall>c\<in>set (hist s ps). c \<le> bound"
  defines "pivot \<equiv> \<lambda>i. ps ! lower_bound (<) (partial_sum (hist s ps)) (int i * (keyCount div nWorkers))"
  shows "partition maxKey keyCount nWorkers (hist s) =
    Inr (map pivot [1..<nat nWorkers] @ [maxKey])"
    "0 < i \<Longrightarrow> i < nat nWorkers \<Longrightarrow> pivot i \<le> maxKey \<and>
      int i * (keyCount div nWorkers) \<le> upto_count s (pivot i) \<and>
      upto_count s (pivot i) \<le> int i * (keyCount div nWorkers) + bound"
proof -
  have ps: "sorted_wrt (<) ps" "ps \<noteq> []" "last ps = maxKey"
    unfolding ps_def using first_pivots_sorted [OF sizes(1,2)] last_first_pivots by auto
  let ?cum = "partial_sum (hist s ps)" and ?pw = "keyCount div nWorkers"
  have last: "last ?cum = keyCount"
    using cum_last [OF ps(1) len ps(2), of] ps(3) range count(1) by simp
  have pw: "0 \<le> ?pw" using count(2) sizes(2) by (simp add: pos_imp_zdiv_nonneg_iff)
  have enough: "int i * ?pw \<le> last ?cum" if "i < nat nWorkers" for i
  proof -
    have "int i * ?pw \<le> nWorkers * ?pw" using that pw by (intro mult_right_mono) auto
    also have "\<dots> \<le> keyCount" using sizes(2) by (simp add: minus_mod_eq_mult_div [symmetric])
    finally show ?thesis by (simp add: last)
  qed
  note wp = worker_pivot_ok [OF ps(1) len enough ps(2) pw bal]
  have mx: "ps ! j \<le> maxKey" if "j < length ps" for j
  proof -
    have "ps ! j \<le> ps ! (length ps - 1)"
      using ps that by (metis One_nat_def Suc_pred length_greater_0_conv less_Suc_eq less_imp_le_nat
          linorder_not_le order_le_less sorted_wrt_iff_nth_less)
    then show ?thesis using ps by (simp add: last_conv_nth)
  qed
  show "0 < i \<Longrightarrow> i < nat nWorkers \<Longrightarrow> pivot i \<le> maxKey \<and>
      int i * ?pw \<le> upto_count s (pivot i) \<and> upto_count s (pivot i) \<le> int i * ?pw + bound"
    unfolding pivot_def using wp(2-4) mx by blast
  have loop: "partition_loop (hist s) maxKey keyCount nWorkers 32 [] = Inr (int (length ps), ps, hist s ps)"
    unfolding ps_def
    by (rule partition_loop_first [OF sizes count(3)])
       (use bal in \<open>auto simp: list_ex_iff not_less bound_def ps_def\<close>)
  have fits: "\<not> list_ex (\<lambda>x. \<not> x < 2 ^ 63 \<or> x < - (2 ^ 63)) ?cum"
  proof -
    have "0 \<le> x \<and> x \<le> keyCount" if x: "x \<in> set ?cum" for x
    proof -
      obtain i where i: "i < length ps" "x = ?cum ! i"
        using x len by (metis in_set_conv_nth length_partial_sum)
      then have "x = upto_count s (ps ! i)" using cum_nth [OF ps(1) len i(1)] by simp
      then show ?thesis using count(1) by simp
    qed
    moreover have "keyCount < 2 ^ 63" using count(2,3) by linarith
    ultimately show ?thesis unfolding list_ex_iff by force
  qed
  have pivots: "those (map (worker_pivot ps ?cum ?pw) [1..<nat nWorkers]) = Some (map pivot [1..<nat nWorkers])"
    using wp(1) unfolding pivot_def
    by (intro those_map_Some) simp
  have "1 + int (nat nWorkers - 1) = nWorkers" using sizes(2) by simp
  then show "partition maxKey keyCount nWorkers (hist s) = Inr (map pivot [1..<nat nWorkers] @ [maxKey])"
    using sizes(1,2) count(2) len last
    unfolding partition_def loop sum.case prod.case if_not_P [OF fits]
    by (simp add: Let_def pivots [simplified])
qed

end

end
