(* ===== verification/CLib.thy ===== *)
theory CLib
  imports Prelude "HOL-Library.Char_ord"
begin

text \<open>
  The functions of the C and C++ standard libraries (and the two of boost's string algorithms)
  with which the examples read text: \<^verbatim>\<open>find\<close>, \<^verbatim>\<open>substr\<close>, \<^verbatim>\<open>getline\<close>,
  \<^verbatim>\<open>strtoll\<close>, \<^verbatim>\<open>atoi\<close>, \<^verbatim>\<open>boost::split\<close>. Positions are natural numbers, and
  \<open>None\<close> stands for \<^verbatim>\<open>npos\<close>.
\<close>

section \<open>Searching\<close>

definition str_find_char :: "char \<Rightarrow> string \<Rightarrow> nat option" where
  "str_find_char c s =
     (let i = length (takeWhile (\<lambda>x. x \<noteq> c) s) in if i < length s then Some i else None)"

lemma str_find_char_Some:
  assumes "str_find_char c s = Some i"
  shows "i < length s" "s ! i = c" "c \<notin> set (take i s)"
proof -
  have i: "i = length (takeWhile (\<lambda>x. x \<noteq> c) s)" "i < length s"
    using assms by (auto simp: str_find_char_def Let_def split: if_splits)
  then show "i < length s" by simp
  show "s ! i = c" using i nth_length_takeWhile [of "\<lambda>x. x \<noteq> c" s] by simp
  have "take i s = takeWhile (\<lambda>x. x \<noteq> c) s" using i by (simp add: takeWhile_eq_take [symmetric])
  then show "c \<notin> set (take i s)" by (auto dest: set_takeWhileD)
qed

lemma str_find_char_None: "str_find_char c s = None \<longleftrightarrow> c \<notin> set s"
proof -
  have "length (takeWhile (\<lambda>x. x \<noteq> c) s) < length s \<longleftrightarrow> c \<in> set s"
    by (induction s) auto
  then show ?thesis by (auto simp: str_find_char_def Let_def)
qed

lemma str_find_char_append:
  "c \<notin> set xs \<Longrightarrow> str_find_char c (xs @ c # ys) = Some (length xs)"
proof -
  assume "c \<notin> set xs"
  then have "takeWhile (\<lambda>x. x \<noteq> c) (xs @ c # ys) = xs" by (induction xs) auto
  then show ?thesis by (simp add: str_find_char_def)
qed

fun str_find :: "string \<Rightarrow> string \<Rightarrow> nat option" where
  "str_find pat [] = (if pat = [] then Some 0 else None)"
| "str_find pat (c # s) =
     (if take (length pat) (c # s) = pat then Some 0 else map_option Suc (str_find pat s))"

lemma str_find_Some:
  "str_find pat s = Some i \<Longrightarrow> i \<le> length s \<and> take (length pat) (drop i s) = pat"
  by (induction pat s arbitrary: i rule: str_find.induct) (auto split: if_splits)

lemma str_find_None: "str_find pat s = None \<longleftrightarrow> (\<forall>i\<le>length s. take (length pat) (drop i s) \<noteq> pat)"
proof (induction pat s rule: str_find.induct)
  case (2 pat c s)
  have "(\<forall>i\<le>length (c # s). take (length pat) (drop i (c # s)) \<noteq> pat) \<longleftrightarrow>
      take (length pat) (c # s) \<noteq> pat \<and> (\<forall>i\<le>length s. take (length pat) (drop i s) \<noteq> pat)"
    by (metis (no_types, lifting) drop0 drop_Suc_Cons le0 length_Cons not_less_eq_eq old.nat.exhaust)
  with 2 show ?case by auto
qed auto

text \<open>A string as C reads it, up to the first NUL.\<close>

definition c_str :: "string \<Rightarrow> string" where
  "c_str s = takeWhile (\<lambda>c. c \<noteq> CHR 0x00) s"

lemma c_str_id: "CHR 0x00 \<notin> set s \<Longrightarrow> c_str s = s"
  by (simp add: c_str_def takeWhile_eq_all_conv) blast

section \<open>Splitting\<close>

text \<open>\<^verbatim>\<open>boost::split\<close> at every occurrence of a character, keeping empty pieces.\<close>

fun split_at :: "char \<Rightarrow> string \<Rightarrow> string list" where
  "split_at c [] = [[]]"
| "split_at c (x # s) =
     (if x = c then [] # split_at c s
      else (case split_at c s of [] \<Rightarrow> [[x]] | p # ps \<Rightarrow> (x # p) # ps))"

lemma split_at_not_Nil: "split_at c s \<noteq> []"
  by (induction c s rule: split_at.induct) (auto split: list.split)

lemma split_at_no_sep: "c \<notin> set s \<Longrightarrow> split_at c s = [s]"
  by (induction c s rule: split_at.induct) auto

lemma split_at_append: "c \<notin> set s \<Longrightarrow> split_at c (s @ c # t) = s # split_at c t"
  by (induction s) auto

text \<open>The pieces, joined with the separator between them, give the string back.\<close>

fun join_with :: "char \<Rightarrow> string list \<Rightarrow> string" where
  "join_with c [] = []"
| "join_with c [p] = p"
| "join_with c (p # ps) = p @ c # join_with c ps"

lemma join_split_at: "join_with c (split_at c s) = s"
proof (induction c s rule: split_at.induct)
  case (2 c x s)
  obtain p ps where p: "split_at c s = p # ps" using split_at_not_Nil by (meson neq_Nil_conv)
  with 2 show ?case by (cases ps) auto
qed simp

lemma split_at_join:
  "ps \<noteq> [] \<Longrightarrow> \<forall>p\<in>set ps. c \<notin> set p \<Longrightarrow> split_at c (join_with c ps) = ps"
  by (induction c ps rule: join_with.induct) (simp_all add: split_at_no_sep split_at_append)

text \<open>The lines that \<^verbatim>\<open>getline\<close> returns one after the other.\<close>

definition newline :: char where
  "newline = CHR 0x0A"

definition tab :: char where
  "tab = CHR 0x09"

definition get_lines :: "string \<Rightarrow> string list" where
  "get_lines s =
     (let ls = split_at newline s in if last ls = [] then butlast ls else ls)"

definition unlines :: "string list \<Rightarrow> string" where
  "unlines ls = concat (map (\<lambda>l. l @ [newline]) ls)"

lemma unlines_simps [simp]: "unlines [] = []" "unlines (l # ls) = l @ newline # unlines ls"
  by (simp_all add: unlines_def)

section \<open>Numbers\<close>

definition isspace :: "char \<Rightarrow> bool" where
  "isspace c \<longleftrightarrow> c = CHR '' '' \<or> ((9 :: nat) \<le> of_char c \<and> of_char c \<le> (13 :: nat))"

definition isdigit :: "char \<Rightarrow> bool" where
  "isdigit c \<longleftrightarrow> (48 :: nat) \<le> of_char c \<and> of_char c \<le> (57 :: nat)"

definition digits_value :: "string \<Rightarrow> int" where
  "digits_value ds = foldl (\<lambda>v d. 10 * v + (of_char d - 48)) 0 ds"

definition saturate64 :: "int \<Rightarrow> int" where
  "saturate64 v = max (- (2 ^ 63)) (min (2 ^ 63 - 1) v)"

text \<open>\<^verbatim>\<open>strtoll(s, &end, 10)\<close>, which is also \<^verbatim>\<open>strtol\<close> here: the value, and the text
  from \<^verbatim>\<open>end\<close> on, which is all of it if there are no digits.\<close>

definition strtoll_end :: "string \<Rightarrow> int \<times> string" where
  "strtoll_end s =
     (let t = dropWhile isspace s;
          (neg, u) = (if t \<noteq> [] \<and> hd t = CHR ''-'' then (True, tl t)
                      else if t \<noteq> [] \<and> hd t = CHR ''+'' then (False, tl t) else (False, t));
          ds = takeWhile isdigit u
      in if ds = [] then (0, s)
         else (saturate64 (if neg then - digits_value ds else digits_value ds), dropWhile isdigit u))"

definition strtoll :: "string \<Rightarrow> int" where
  "strtoll s = fst (strtoll_end s)"

lemma takeWhile_stop: "\<not> P c \<Longrightarrow> takeWhile P (xs @ c # ys) = takeWhile P xs"
  by (induction xs) auto

lemma dropWhile_stop: "\<not> P c \<Longrightarrow> dropWhile P (xs @ c # ys) = dropWhile P xs @ c # ys"
  by (induction xs) auto

lemma dropWhile_nonspace: "\<exists>c\<in>set v. \<not> P c \<Longrightarrow> dropWhile P (v @ w) = dropWhile P v @ w"
  by (induction v) auto

text \<open>A number ends at the first character that is not a digit.\<close>

lemma strtoll_append:
  assumes "\<exists>c\<in>set v. \<not> isspace c" "\<not> isdigit d"
  shows "strtoll (v @ d # rest) = strtoll v"
proof -
  obtain x u where u: "dropWhile isspace v = x # u"
    using assms(1) by (metis dropWhile_eq_Nil_conv neq_Nil_conv)
  have "dropWhile isspace (v @ d # rest) = x # u @ d # rest"
    using dropWhile_nonspace [OF assms(1), of "d # rest"] u by simp
  then show ?thesis
    using takeWhile_stop [of isdigit d, OF assms(2)] takeWhile_stop [of isdigit d "x # u", OF assms(2)] u
    by (auto simp: strtoll_def strtoll_end_def Let_def split: prod.split)
qed

text \<open>\<^verbatim>\<open>atoi\<close>: the low 32 bits of \<^verbatim>\<open>strtol\<close>, as in glibc.\<close>

definition atoi :: "string \<Rightarrow> int" where
  "atoi s = sint (word_of_int (strtoll s) :: 32 word)"

definition port_of :: "string \<Rightarrow> int" where
  "port_of s = atoi s mod 2 ^ 16"

text \<open>\<^verbatim>\<open>ip:port\<close> as all the example programs take it; \<open>None\<close> without a colon. The text is
  read from after the colon.\<close>

definition parse_address :: "string \<Rightarrow> (string \<times> int) option" where
  "parse_address addr =
     (case str_find_char CHR '':'' addr of
        None \<Rightarrow> None
      | Some colon \<Rightarrow> Some (take colon addr, port_of (drop (colon + 1) addr)))"

lemma parse_address_append:
  "CHR '':'' \<notin> set ip \<Longrightarrow> parse_address (ip @ '':'' @ port) = Some (ip, port_of port)"
  by (simp add: parse_address_def str_find_char_append)

lemma parse_address_None: "parse_address addr = None \<longleftrightarrow> CHR '':'' \<notin> set addr"
  by (auto simp: parse_address_def str_find_char_None [symmetric] split: option.split)

section \<open>Printing\<close>

text \<open>\<^verbatim>\<open>%d\<close> of \<^verbatim>\<open>printf\<close>.\<close>

fun show_nat :: "nat \<Rightarrow> string" where
  "show_nat n = (if n < 10 then [char_of (48 + n)] else show_nat (n div 10) @ [char_of (48 + n mod 10)])"

declare show_nat.simps [simp del]

definition show_int :: "int \<Rightarrow> string" where
  "show_int x = (if x < 0 then CHR ''-'' # show_nat (nat (- x)) else show_nat (nat x))"

lemma digit_char: "n < 10 \<Longrightarrow> isdigit (char_of (48 + n)) \<and> \<not> isspace (char_of (48 + n)) \<and>
    of_char (char_of (48 + n) :: char) = (48 + int n)"
proof -
  assume n: "n < 10"
  then have nat: "of_char (char_of (48 + n) :: char) = 48 + n" by simp
  then have "of_char (char_of (48 + n) :: char) = int (48 + n)" by (metis of_nat_of_char)
  moreover have "char_of (48 + n) \<noteq> CHR '' ''"
  proof
    assume "char_of (48 + n) = CHR '' ''"
    with nat have "of_char CHR '' '' = 48 + n" by simp
    then show False by simp
  qed
  ultimately show ?thesis using n nat by (simp add: isdigit_def isspace_def)
qed

lemma show_nat_digits: "show_nat n \<noteq> [] \<and> (\<forall>c\<in>set (show_nat n). isdigit c)"
proof (induction n rule: show_nat.induct)
  case (1 n)
  then show ?case
    using digit_char [of n] digit_char [of "n mod 10"] by (subst (1 2) show_nat.simps) auto
qed

lemma digits_value_snoc: "digits_value (ds @ [d]) = 10 * digits_value ds + (of_char d - 48)"
  by (simp add: digits_value_def)

lemma digits_value_show: "digits_value (show_nat n) = int n"
proof (induction n rule: show_nat.induct)
  case (1 n)
  show ?case
  proof (cases "n < 10")
    case True
    then show ?thesis
      using digit_char [of n] by (simp add: show_nat.simps [of n] digits_value_def)
  next
    case False
    then have "digits_value (show_nat n) = 10 * int (n div 10) + int (n mod 10)"
      using 1 digit_char [of "n mod 10"] by (simp add: show_nat.simps [of n] digits_value_snoc)
    also have "\<dots> = int n" by presburger
    finally show ?thesis .
  qed
qed

lemma digit_not_special:
  assumes "isdigit c"
  shows "\<not> isspace c" "c \<noteq> CHR ''-''" "c \<noteq> CHR ''+''" "c \<noteq> CHR '' ''" "c \<noteq> CHR '')''" "c \<noteq> newline"
  using assms by (auto simp: isdigit_def isspace_def newline_def)

lemma takeWhile_digits:
  "\<forall>c\<in>set ds. isdigit c \<Longrightarrow> \<not> isdigit d \<Longrightarrow>
     takeWhile isdigit (ds @ d # rest) = ds \<and> dropWhile isdigit (ds @ d # rest) = d # rest"
  by (induction ds) auto

lemma saturate64_id: "- (2 ^ 63) \<le> x \<Longrightarrow> x < 2 ^ 63 \<Longrightarrow> saturate64 x = x"
  by (simp add: saturate64_def)

text \<open>\<^verbatim>\<open>strtoll\<close> reads back what \<^verbatim>\<open>%d\<close> printed.\<close>

lemma strtoll_end_show:
  assumes "\<not> isdigit d"
  shows "strtoll_end (show_int x @ d # rest) = (saturate64 x, d # rest)"
proof -
  let ?ds = "show_nat (nat \<bar>x\<bar>)"
  obtain c ds where ds: "?ds = c # ds" using show_nat_digits by (meson neq_Nil_conv)
  have dig: "\<forall>c\<in>set ?ds. isdigit c" using show_nat_digits by blast
  then have c: "isdigit c" by (simp add: ds)
  have val: "digits_value ?ds = \<bar>x\<bar>" by (simp add: digits_value_show)
  have tw: "takeWhile isdigit (?ds @ d # rest) = ?ds" "dropWhile isdigit (?ds @ d # rest) = d # rest"
    using takeWhile_digits [OF dig assms] by simp_all
  show ?thesis
  proof (cases "x < 0")
    case True
    then have t: "dropWhile isspace (show_int x @ d # rest) = CHR ''-'' # ?ds @ d # rest"
      by (simp add: show_int_def isspace_def)
    show ?thesis
      unfolding strtoll_end_def Let_def t using tw val True ds by simp
  next
    case False
    then have t: "dropWhile isspace (show_int x @ d # rest) = ?ds @ d # rest"
      using digit_not_special(1) [OF c] ds by (simp add: show_int_def)
    have "hd (?ds @ d # rest) = c" by (simp add: ds)
    then show ?thesis
      unfolding strtoll_end_def Let_def t using tw val False ds digit_not_special(2,3) [OF c] by simp
  qed
qed

lemma show_int_chars:
  assumes "c \<in> set (show_int x)"
  shows "c \<noteq> CHR '' ''" "c \<noteq> CHR '')''" "c \<noteq> newline"
proof -
  have "isdigit c \<or> c = CHR ''-''" using assms show_nat_digits by (auto simp: show_int_def split: if_splits)
  then show "c \<noteq> CHR '' ''" "c \<noteq> CHR '')''" "c \<noteq> newline"
    using digit_not_special(4,5,6) [of c] by (auto simp: newline_def)
qed

lemma show_int_not_Nil: "show_int x \<noteq> []"
  using show_nat_digits by (simp add: show_int_def)

end
