(* ===== verification/WordFreq.thy ===== *)
theory WordFreq
  imports Partition CLib "HOL-Library.Multiset"
begin

text \<open>
  A worker of the word-frequency example (examples/wordfreq/wordfreq.cc, class \<^verbatim>\<open>Impl\<close>):
  it reads keys, answers histogram requests, sends each key to the worker of its partition
  in batches, and collects and sorts the keys of its own partition.

  The shuffle runs in a thread of its own while responses arrive: it is a step relation
  whose steps are the iterations of its loops and the callbacks \<^verbatim>\<open>doneShardKey\<close>. The
  blocking queue \<^verbatim>\<open>freeShards_\<close> holds request objects that are all alike once cleared, so
  it is a number; \<^verbatim>\<open>take\<close> blocks while it is 0.
\<close>

section \<open>State\<close>

record peer =
  pr_address :: "string \<times> int"
  pr_connected :: bool

record impl =
  maxKey :: int
  keys :: "int list"
  peers :: "peer list"
  shuffling :: bool
  concurrentRequests :: nat
  partition_id :: int
  partitionKeys :: "int list"

definition kConcurrency :: nat where
  "kConcurrency = 4"

definition kBatch :: nat where
  "kBatch = 8192"

section \<open>Start-up\<close>

text \<open>The key of one line of the shard file, and the loop of \<^verbatim>\<open>readKeys\<close>.\<close>

definition line_key :: "string \<Rightarrow> int option" where
  "line_key line =
     (case str_find_char tab line of
        None \<Rightarrow> None
      | Some t \<Rightarrow> (let key = strtoll (drop t line) in if 0 < key then Some key else None))"

definition readKeys :: "string \<Rightarrow> impl \<Rightarrow> impl" where
  "readKeys file s =
     fold (\<lambda>line s. case line_key line of
         None \<Rightarrow> s
       | Some key \<Rightarrow> s\<lparr>keys := keys s @ [key], maxKey := (if maxKey s < key then key else maxKey s)\<rparr>)
       (get_lines file) s"

definition createPeers :: "string \<Rightarrow> impl \<Rightarrow> impl" where
  "createPeers ps s =
     fold (\<lambda>addr s. case parse_address addr of
         None \<Rightarrow> s
       | Some a \<Rightarrow> s\<lparr>peers := peers s @ [\<lparr>pr_address = a, pr_connected = False\<rparr>]\<rparr>)
       (split_at CHR '','' ps) s"

definition new_impl :: "string \<Rightarrow> string \<Rightarrow> impl" where
  "new_impl shardFile ps =
     (let s = \<lparr>maxKey = 0, keys = [], peers = [], shuffling = False, concurrentRequests = 0,
               partition_id = -1, partitionKeys = []\<rparr>;
          s = createPeers ps (readKeys shardFile s)
      in s\<lparr>concurrentRequests := length (peers s) * kConcurrency\<rparr>)"

text \<open>\<^verbatim>\<open>RpcClient::onConnection\<close> of the \<open>i\<close>-th peer.\<close>

definition peer_onConnection :: "nat \<Rightarrow> bool \<Rightarrow> impl \<Rightarrow> impl" where
  "peer_onConnection i connected s =
     s\<lparr>peers := (peers s)[i := (peers s ! i)\<lparr>pr_connected := connected\<rparr>]\<rparr>"

definition isReady :: "impl \<Rightarrow> bool" where
  "isReady s = fold (\<lambda>p allConnected. allConnected \<and> pr_connected p) (peers s) True"

section \<open>The handlers\<close>

record get_info_response =
  gi_ready :: bool
  gi_maxKey :: int
  gi_keyCount :: int
  gi_peers :: "(string \<times> int) list"

definition GetInfo :: "impl \<Rightarrow> get_info_response" where
  "GetInfo s = \<lparr>gi_ready = isReady s, gi_maxKey = maxKey s, gi_keyCount = int (length (keys s)),
     gi_peers = map pr_address (peers s)\<rparr>"

definition isSorted :: "int list \<Rightarrow> bool" where
  "isSorted xs = (adjacent_find (\<ge>) xs = None)"

text \<open>The counts that \<^verbatim>\<open>GetHistogram\<close> answers with; \<open>None\<close> is the failing assertion.\<close>

definition histogram_counts :: "impl \<Rightarrow> int list \<Rightarrow> int list" where
  "histogram_counts s pivots =
     fold (\<lambda>key counts. let idx = lower_bound (<) pivots key in counts[idx := counts ! idx + 1])
       (keys s) (replicate (length pivots + 1) 0)"

definition GetHistogram :: "impl \<Rightarrow> int list \<Rightarrow> int list option" where
  "GetHistogram s pivots = (if isSorted pivots then Some (histogram_counts s pivots) else None)"

text \<open>\<^verbatim>\<open>ShuffleKey\<close> starts the thread or answers with an error. It reads the last pivot
  even if there is none, which \<open>None\<close> stands for.\<close>

datatype shuffle_reply = Shuffle_started | Shuffle_error string

definition ShuffleKey :: "int list \<Rightarrow> impl \<Rightarrow> (impl \<times> shuffle_reply) option" where
  "ShuffleKey pivots s =
     (if length pivots = length (peers s) \<and> pivots = [] then None
      else if length pivots = length (peers s) \<and> maxKey s \<le> last pivots \<and> isSorted pivots \<and> \<not> shuffling s
      then Some (s\<lparr>shuffling := True\<rparr>, Shuffle_started)
      else Some (s, Shuffle_error (if shuffling s then ''Shuffling'' else ''Invalid pivots.'')))"

definition ShardKey :: "int \<Rightarrow> int list \<Rightarrow> impl \<Rightarrow> impl option" where
  "ShardKey part ks s =
     (if partition_id s = -1 then
        (if partitionKeys s = [] then
           Some (s\<lparr>partition_id := part, partitionKeys := partitionKeys s @ ks\<rparr>)
         else None)
      else Some (s\<lparr>partitionKeys := partitionKeys s @ ks\<rparr>))"

record sort_key_response =
  sk_partition :: int
  sk_count :: int
  sk_minKey :: "int option"
  sk_maxKey :: "int option"

definition SortKey :: "impl \<Rightarrow> impl \<times> sort_key_response" where
  "SortKey s =
     (let s = s\<lparr>partitionKeys := sort (partitionKeys s)\<rparr>;
          ks = partitionKeys s;
          response = \<lparr>sk_partition = partition_id s, sk_count = int (length ks),
            sk_minKey = None, sk_maxKey = None\<rparr>
      in (s, if ks \<noteq> [] then response\<lparr>sk_minKey := Some (hd ks), sk_maxKey := Some (last ks)\<rparr>
             else response))"

text \<open>\<^verbatim>\<open>Quit\<close>: the state, which it does not change, whether it answers, and whether it ends the loop.\<close>

definition Quit :: "impl \<Rightarrow> impl \<times> bool \<times> bool" where
  "Quit s = (s, True, True)"

section \<open>The histogram keeps the contract of the pivot search\<close>

lemma isSorted_iff: "isSorted xs \<longleftrightarrow> sorted_wrt (<) xs"
proof
  assume "isSorted xs"
  then have "\<forall>i. Suc i < length xs \<longrightarrow> xs ! i < xs ! Suc i"
    by (auto simp: isSorted_def adjacent_find_None not_le)
  then show "sorted_wrt (<) xs"
    by (simp add: sorted_wrt_iff_nth_Suc_transp)
next
  assume "sorted_wrt (<) xs"
  then show "isSorted xs"
    by (auto simp: isSorted_def adjacent_find_None sorted_wrt_iff_nth_less not_le)
qed

lemma histogram_fold:
  "length counts = n \<Longrightarrow> \<forall>k\<in>set ks. f k < n \<Longrightarrow> i < n \<Longrightarrow>
    fold (\<lambda>k counts. counts[f k := counts ! f k + 1]) ks counts ! i =
      counts ! i + int (length (filter (\<lambda>k. f k = i) ks))"
  by (induction ks arbitrary: counts) (auto simp: nth_list_update)

lemma histogram_length: "length (histogram_counts s pivots) = length pivots + 1"
proof -
  have "length (fold (\<lambda>k counts. counts[f k := counts ! f k + 1]) ks counts) = length counts"
    for ks and f :: "int \<Rightarrow> nat" and counts :: "int list"
    by (induction ks arbitrary: counts) simp_all
  then show ?thesis by (simp add: histogram_counts_def Let_def)
qed

lemma histogram_nth:
  assumes "i \<le> length pivots"
  shows "histogram_counts s pivots ! i =
    int (length (filter (\<lambda>k. lower_bound (<) pivots k = i) (keys s)))"
  unfolding histogram_counts_def Let_def
  by (subst histogram_fold [where n = "length pivots + 1"])
     (use assms in \<open>auto simp: le_imp_less_Suc nth_Cons'\<close>)

lemma sum_filter_lengths:
  "(\<Sum>j\<leftarrow>[0..<n]. int (length (filter (\<lambda>k. f k = j) ks))) = int (length (filter (\<lambda>k. f k < n) ks))"
proof (induction n)
  case (Suc n)
  have "length (filter (\<lambda>k. f k < Suc n) ks) = length (filter (\<lambda>k. f k < n \<or> f k = n) ks)"
    by (rule arg_cong [where f = length], rule filter_cong) auto
  also have "\<dots> = length (filter (\<lambda>k. f k < n) ks) + length (filter (\<lambda>k. f k = n) ks)"
    by (rule length_filter_disj) auto
  finally show ?case using Suc by simp
qed simp

text \<open>The slot of a key: the first pivot that is not smaller.\<close>

lemma lower_bound_le_iff:
  assumes "sorted_wrt (<) ps" "i < length ps"
  shows "lower_bound (<) ps (k :: int) \<le> i \<longleftrightarrow> k \<le> ps ! i"
proof
  assume le: "lower_bound (<) ps k \<le> i"
  then have "k \<le> ps ! lower_bound (<) ps k"
    using lower_bound_at [of "(<)" ps k] assms(2) by simp
  also have "\<dots> \<le> ps ! i"
    using assms le by (cases "lower_bound (<) ps k = i") (auto simp: sorted_wrt_iff_nth_less less_imp_le)
  finally show "k \<le> ps ! i" .
next
  assume "k \<le> ps ! i"
  then show "lower_bound (<) ps k \<le> i"
    using lower_bound_before [of i "(<)" ps k] by (meson leD leI)
qed

lemma sum_slots_upto:
  assumes ps: "sorted_wrt (<) ps" "i < length ps"
  shows "(\<Sum>j\<leftarrow>[0..<Suc i]. int (length (filter (\<lambda>k :: int. lower_bound (<) ps k = j) ks))) =
    int (length (filter (\<lambda>k. k \<le> ps ! i) ks))"
proof -
  have "filter (\<lambda>k. lower_bound (<) ps k < Suc i) ks = filter (\<lambda>k. k \<le> ps ! i) ks"
    using lower_bound_le_iff [OF ps] by (intro filter_cong) (auto simp: less_Suc_eq_le)
  then show ?thesis using sum_filter_lengths [where f = "lower_bound (<) ps"] by metis
qed

lemma histogram_upto:
  assumes ps: "sorted_wrt (<) ps" "i < length ps"
  shows "sum_list (take (Suc i) (histogram_counts s ps)) =
    int (length (filter (\<lambda>k. k \<le> ps ! i) (keys s)))"
proof -
  have "take (Suc i) (histogram_counts s ps) =
      map (\<lambda>j. int (length (filter (\<lambda>k. lower_bound (<) ps k = j) (keys s)))) [0..<Suc i]"
    by (rule nth_equalityI) (use ps histogram_length [of s ps] histogram_nth [of _ ps s] in \<open>auto simp del: upt_Suc\<close>)
  then show ?thesis by (simp only: sum_slots_upto [OF ps])
qed

interpretation worker_histogram: histogram_source histogram_counts keys
  by unfold_locales (rule histogram_upto)

section \<open>The handler and the pivot search\<close>

definition example_worker :: impl where
  "example_worker = \<lparr>maxKey = 5, keys = [4, 1, 3, 5, 2],
     peers = [\<lparr>pr_address = (''a'', 1), pr_connected = True\<rparr>, \<lparr>pr_address = (''b'', 2), pr_connected = True\<rparr>],
     shuffling = False, concurrentRequests = 8, partition_id = -1, partitionKeys = []\<rparr>"

text \<open>The retry of the pivot search cannot succeed: the vector of pivots is not cleared
  between rounds, so whenever the first histogram has a slot that is too dense the search ends
  in the failing assertion on the number of pivots (or an overflow), for every histogram
  callback.\<close>

theorem partition_retry_fails:
  assumes "list_ex (\<lambda>c. 2 * keyCount div int (length (first_pivots mk n)) < c) (getHist (first_pivots mk n))"
  shows "\<exists>e. partition mk keyCount n getHist = Inl e"
  using assms by (rule partition_retry)

theorem partition_retry_fails_witness:
  "\<exists>e. partition 100 10 1 (\<lambda>ps. 10 # replicate (length ps - 1) 0) = Inl e"
  by (rule partition_retry_fails) (simp add: first_pivots_def slot_size_def)

text \<open>C40: The answer of the workers' own histogram handler does not fit the pivot search, which
  fails on it for all keys and parameters: the handler sends one count more than there are
  pivots, and the search writes the sums of all counts into a vector with one entry per
  pivot.\<close>

theorem partition_of_worker_histogram_fails:
  "\<exists>e. partition mk keyCount n (histogram_counts s) = Inl e"
proof (cases "0 < mk \<and> 0 < keyCount \<and> 0 < n")
  case pos: True
  let ?ps = "first_pivots mk n"
  show ?thesis
  proof (cases "list_ex (\<lambda>c. 2 * keyCount div int (length ?ps) < c) (histogram_counts s ?ps)")
    case False
    show ?thesis
    proof (cases "32 * n < 2 ^ 31 \<and> 2 * keyCount < 2 ^ 63")
      case True
      with pos False partition_loop_first have
        "partition_loop (histogram_counts s) mk keyCount n 32 [] =
          Inr (int (length ?ps), ?ps, histogram_counts s ?ps)" by blast
      then show ?thesis by (simp add: partition_def histogram_length)
    next
      case over: False
      have "histogram_counts s ps \<noteq> []" for ps using histogram_length [of s ps] by auto
      with over have "\<exists>e. partition_loop (histogram_counts s) mk keyCount n 32 [] = Inl e"
        by (subst partition_loop.simps) (auto simp: Let_def case_prod_beta)
      with pos show ?thesis by (auto simp: partition_def)
    qed
  next
    case True
    then show ?thesis by (rule partition_retry)
  qed
qed (auto simp: partition_def)

end
