(* ===== verification/UnitTests.thy ===== *)
theory UnitTests
  imports Sorter WordFreq
begin

text \<open>
  The unit tests of the two algorithms: examples/median/kth_unittest.cc, which runs \<^verbatim>\<open>getKth\<close> on
  all lists of up to four of eleven values, and examples/wordfreq/partition_unittest.cc, whose histogram
  of sorted keys is another provider of the contract of the pivot search. The properties say that these
  tests pass, and why: for every input and not only those they try.
\<close>

section \<open>The tests of the k-th search\<close>

definition setVec :: "int64 list \<Rightarrow> int64 list" where
  "setVec arr = sort_key sint arr"

definition test_search :: "int64 list \<Rightarrow> int64 \<Rightarrow> int64 \<times> int64" where
  "test_search g_data guess =
     (let it = lower_bound (<s) g_data guess
      in (of_nat it, of_nat (upper_bound (<s) g_data guess - it)))"

definition check :: "int64 list \<Rightarrow> bool" where
  "check g_data = list_all (\<lambda>i. case getKth (test_search g_data) (of_nat (i + 1)) (of_nat (length g_data)) (hd g_data) (last g_data) of
       Kth_Result v found \<Rightarrow> found \<and> v = g_data ! i
     | Kth_Assert_Failed \<Rightarrow> False) [0..<length g_data]"

definition test_values :: "int64 list" where
  "test_values = [- (2 ^ 63), - (2 ^ 63) + 1, - (2 ^ 63) + 2, -2, -1, 0, 1, 2, 2 ^ 63 - 1 - 2, 2 ^ 63 - 1 - 1, 2 ^ 63 - 1]"

definition n_values :: nat where
  "n_values = length test_values"

definition testOneElement :: "bool list" where
  "testOneElement = map (\<lambda>i. check (setVec [test_values ! i])) [0..<n_values]"

definition testTwoElements :: "bool list" where
  "testTwoElements =
     concat (map (\<lambda>i. map (\<lambda>j. check (setVec [test_values ! i, test_values ! j])) [0..<n_values]) [0..<n_values])"

text \<open>The loop over three indices.\<close>

function testThreeElements :: "nat \<Rightarrow> nat \<Rightarrow> nat \<Rightarrow> bool list" where
  "testThreeElements i0 i1 i2 =
     (if i0 < n_values then
        check (setVec [test_values ! i0, test_values ! i1, test_values ! i2]) #
          (let i2 = i2 + 1
           in if n_values \<le> i2 then
                (let i1 = i1 + 1
                 in if n_values \<le> i1 then testThreeElements (i0 + 1) 0 0 else testThreeElements i0 i1 0)
              else testThreeElements i0 i1 i2)
      else [])"
  by pat_completeness auto
termination
  by (relation "measures [\<lambda>(i0, i1, i2). n_values - i0, \<lambda>(i0, i1, i2). n_values - i1, \<lambda>(i0, i1, i2). n_values - i2]") auto

declare testThreeElements.simps [simp del]

text \<open>The inner loop of the last test, from the index \<open>d - 1\<close> down: the indices, and
  \<^verbatim>\<open>running\<close>.\<close>

fun next_indices :: "nat \<Rightarrow> nat list \<Rightarrow> nat list \<times> bool" where
  "next_indices 0 indices = (indices, True)"
| "next_indices (Suc d) indices =
     (let indices = indices[d := indices ! d + 1]
      in if n_values \<le> indices ! d then
           (let (indices, running) = next_indices d (indices[d := 0]) in (indices, d \<noteq> 0 \<and> running))
         else (indices, True))"

text \<open>The outer loop, which gives the indices it tried with the result; it might not end.\<close>

partial_function (option) testFourElements :: "nat list \<Rightarrow> (nat list \<times> bool) list option" where
  "testFourElements indices =
     (let passed = check (setVec (map (\<lambda>d. test_values ! (indices ! d)) [0..<4]));
          (indices', running) = next_indices 4 indices
      in if running
         then Option.bind (testFourElements indices') (\<lambda>rest. Some ((indices, passed) # rest))
         else Some [(indices, passed)])"

declare testFourElements.simps [code]

section \<open>The histogram of sorted keys\<close>

text \<open>The body of the loop over the keys: the \<^verbatim>\<open>while\<close> loop moves \<open>j\<close> on; \<open>None\<close> is the
  jump to \<^verbatim>\<open>end\<close>.\<close>

function slot_from :: "int list \<Rightarrow> int \<Rightarrow> nat \<Rightarrow> nat option" where
  "slot_from pivots key j =
     (if pivots ! j < key then
        (let j = j + 1 in if length pivots \<le> j then None else slot_from pivots key j)
      else Some j)"
  by pat_completeness auto
termination by (relation "measure (\<lambda>(pivots, key, j). length pivots - j)") auto

declare slot_from.simps [simp del]

fun histogram_loop :: "int list \<Rightarrow> int list \<Rightarrow> nat \<Rightarrow> int list \<Rightarrow> int list" where
  "histogram_loop pivots [] j result = result"
| "histogram_loop pivots (key # ks) j result =
     (case slot_from pivots key j of
        None \<Rightarrow> result
      | Some j \<Rightarrow> histogram_loop pivots ks j (result[j := result ! j + 1]))"

definition getHistogramFromKey :: "int list \<Rightarrow> int list \<Rightarrow> int list" where
  "getHistogramFromKey ks pivots = histogram_loop pivots ks 0 (replicate (length pivots) 0)"

section \<open>The search in sorted data keeps the contract\<close>

lemma upper_bound_ge_lower_bound:
  assumes "sorter_ok s"
  shows "lower_bound (<s) (sorter_data s) g \<le> upper_bound (<s) (sorter_data s) g"
  using assms sorted_sless_wrt
  by (auto simp: lower_bound_def upper_bound_def sorter_ok_def takeWhile_sorted_filter sless_iff
      intro!: length_filter_mono)

lemma test_search_Search:
  assumes "sorter_ok s"
  shows "test_search (sorter_data s) g = Search s g"
  using upper_bound_ge_lower_bound [OF assms, of g] by (simp add: test_search_def Search_def Let_def of_nat_diff)

interpretation test_data: kth_search test_search "\<lambda>xs. xs"
    "\<lambda>xs. sorter_ok \<lparr>sorter_data = xs, sorter_xsubi = ()\<rparr>"
proof
  fix xs :: "int64 list" and g :: int64
  let ?s = "\<lparr>sorter_data = xs, sorter_xsubi = ()\<rparr>"
  assume ok: "sorter_ok ?s"
  note eq = test_search_Search [OF ok, unfolded sorter.simps, of g]
  show "length xs < 2 ^ 63" using ok by (simp add: sorter_ok_def)
  show "sint (fst (test_search xs g)) = int (length (filter (\<lambda>x. x <s g) xs))"
    using Search_fst [OF ok, of g] by (simp add: eq)
  show "sint (snd (test_search xs g)) = int (length (filter (\<lambda>x. x = g) xs))"
    using Search_snd [OF ok, of g] by (simp add: eq)
qed

text \<open>The test passes on every vector that fits a 64-bit size, so on all those that are tried.\<close>

lemma check_passes:
  assumes "length xs < 2 ^ 63"
  shows "check (setVec xs)"
  unfolding check_def list_all_iff
proof (intro ballI)
  let ?ys = "setVec xs"
  have sorted: "sorted (map sint ?ys)" by (simp add: setVec_def)
  have len: "length ?ys = length xs" by (simp add: setVec_def)
  fix i assume "i \<in> set [0..<length ?ys]"
  then have i: "0 < i + 1" "i + 1 \<le> length ?ys" by auto
  have ok: "sorter_ok \<lparr>sorter_data = ?ys, sorter_xsubi = ()\<rparr>"
    using sorted assms len by (simp add: sorter_ok_def)
  have "hd ?ys \<le>s x \<and> x \<le>s last ?ys" if "x \<in> set ?ys" for x
  proof -
    obtain j where j: "j < length ?ys" "x = ?ys ! j" using \<open>x \<in> set ?ys\<close> by (metis in_set_conv_nth)
    have "sint (?ys ! 0) \<le> sint (?ys ! j)" "sint (?ys ! j) \<le> sint (?ys ! (length ?ys - 1))"
      using sorted_nth_mono [OF sorted, of 0 j] sorted_nth_mono [OF sorted, of j "length ?ys - 1"] j(1)
      by (simp_all add: nth_map [OF order_le_less_trans [OF le0 j(1)]])
    moreover have "?ys \<noteq> []" using j by auto
    ultimately show ?thesis using j by (simp add: sle_iff hd_conv_nth last_conv_nth)
  qed
  then have "getKth (test_search ?ys) (of_nat (i + 1)) (of_nat (length ?ys)) (hd ?ys) (last ?ys) =
      Kth_Result (kth_smallest (i + 1) ?ys) True"
    by (intro test_data.getKth_correct [OF ok i]) blast
  moreover have "kth_smallest (i + 1) ?ys = ?ys ! i"
    using sorted by (simp add: kth_smallest_def sort_key_id_if_sorted)
  ultimately show "case getKth (test_search ?ys) (of_nat (i + 1)) (of_nat (length ?ys)) (hd ?ys) (last ?ys) of
      Kth_Result v found \<Rightarrow> found \<and> v = ?ys ! i | Kth_Assert_Failed \<Rightarrow> False"
    by simp
qed

section \<open>The loops of the tests\<close>

lemma testThreeElements_pass: "list_all (\<lambda>passed. passed) (testThreeElements i0 i1 i2)"
proof (induction i0 i1 i2 rule: testThreeElements.induct)
  case (1 i0 i1 i2)
  then show ?case
    by (subst testThreeElements.simps) (auto simp: Let_def check_passes)
qed

text \<open>The \<open>n\<close>-th list of four indices: the digits of \<open>n\<close> to the base \<open>11\<close>.\<close>

definition nth_indices :: "nat \<Rightarrow> nat list" where
  "nth_indices n = [n div 1331, n div 121 mod 11, n div 11 mod 11, n mod 11]"

lemma n_values_11: "n_values = 11"
  by (simp add: n_values_def test_values_def)

lemma next_indices_4:
  "next_indices 4 [a, b, c, d] =
     (if d + 1 < 11 then ([a, b, c, d + 1], True)
      else if c + 1 < 11 then ([a, b, c + 1, 0], True)
      else if b + 1 < 11 then ([a, b + 1, 0, 0], True)
      else if a + 1 < 11 then ([a + 1, 0, 0, 0], True)
      else ([0, 0, 0, 0], False))"
proof -
  have four: "(4 :: nat) = Suc (Suc (Suc (Suc 0)))" by simp
  show ?thesis unfolding four by (simp add: Let_def n_values_11)
qed

lemma nth_indices_Suc:
  "nth_indices (n + 1) =
     (if n mod 11 + 1 < 11 then [n div 1331, n div 121 mod 11, n div 11 mod 11, n mod 11 + 1]
      else if n div 11 mod 11 + 1 < 11 then [n div 1331, n div 121 mod 11, n div 11 mod 11 + 1, 0]
      else if n div 121 mod 11 + 1 < 11 then [n div 1331, n div 121 mod 11 + 1, 0, 0]
      else [n div 1331 + 1, 0, 0, 0])"
proof -
  have *: "n div 121 = n div 11 div 11" "n div 1331 = n div 11 div 11 div 11"
    "(n + 1) div 121 = (n + 1) div 11 div 11" "(n + 1) div 1331 = (n + 1) div 11 div 11 div 11"
    by (simp_all flip: div_mult2_eq)
  have step: "(m + 1) mod 11 = (if m mod 11 + 1 < 11 then m mod 11 + 1 else 0)"
    "(m + 1) div 11 = (if m mod 11 + 1 < 11 then m div 11 else m div 11 + 1)" for m :: nat
    using mod_less_divisor [of 11 m] by (simp_all add: mod_Suc div_Suc del: mod_less_divisor)
  show ?thesis
  proof (cases "n mod 11 + 1 < 11")
    case True
    then show ?thesis unfolding nth_indices_def * by (simp only: step if_True)
  next
    case carry: False
    show ?thesis
    proof (cases "n div 11 mod 11 + 1 < 11")
      case True
      with carry show ?thesis unfolding nth_indices_def * by (simp only: step if_True if_False)
    next
      case False
      with carry show ?thesis
        unfolding nth_indices_def * by (cases "n div 11 div 11 mod 11 + 1 < 11") (simp_all only: step if_True if_False)
    qed
  qed
qed

lemma nth_indices_value:
  "nth_indices n = [a, b, c, d] \<Longrightarrow> n = 1331 * a + 121 * b + 11 * c + d"
proof -
  assume "nth_indices n = [a, b, c, d]"
  then have e: "a = n div 1331" "b = n div 121 mod 11" "c = n div 11 mod 11" "d = n mod 11"
    by (simp_all add: nth_indices_def)
  have *: "n div 121 = n div 11 div 11" "n div 1331 = n div 11 div 11 div 11"
    by (simp_all flip: div_mult2_eq)
  show ?thesis
    unfolding e unfolding * using div_mult_mod_eq [of n 11] div_mult_mod_eq [of "n div 11" 11]
      div_mult_mod_eq [of "n div 11 div 11" 11] by linarith
qed

lemma next_nth_indices:
  assumes "n < 14641"
  shows "n + 1 < 14641 \<Longrightarrow> next_indices 4 (nth_indices n) = (nth_indices (n + 1), True)"
    and "\<not> n + 1 < 14641 \<Longrightarrow> snd (next_indices 4 (nth_indices n)) = False"
proof -
  show "next_indices 4 (nth_indices n) = (nth_indices (n + 1), True)" if "n + 1 < 14641"
  proof (cases "n mod 11 + 1 < 11 \<or> n div 11 mod 11 + 1 < 11 \<or> n div 121 mod 11 + 1 < 11")
    case True
    then show ?thesis unfolding nth_indices_Suc by (auto simp: nth_indices_def next_indices_4)
  next
    case False
    have "n div 1331 \<noteq> 10"
    proof
      assume "n div 1331 = 10"
      moreover have "m mod 11 = 10" if "\<not> m mod 11 + 1 < 11" for m :: nat
        using that mod_less_divisor [of 11 m] by linarith
      ultimately have "nth_indices n = [10, 10, 10, 10]" using False unfolding nth_indices_def by blast
      with that show False using nth_indices_value [of n 10 10 10 10] by simp
    qed
    moreover have "n div 1331 < 11" using assms by (simp add: div_less_iff_less_mult)
    ultimately have "n div 1331 + 1 < 11" by simp
    with False show ?thesis unfolding nth_indices_Suc by (auto simp: nth_indices_def next_indices_4)
  qed
  show "snd (next_indices 4 (nth_indices n)) = False" if "\<not> n + 1 < 14641"
  proof -
    have "n = 14640" using that assms by simp
    then show ?thesis by (simp add: nth_indices_def next_indices_4)
  qed
qed

lemma testFourElements_from:
  assumes "n < 14641"
  shows "testFourElements (nth_indices n) = Some (map (\<lambda>m. (nth_indices m, True)) [n..<14641])"
  using assms
proof (induction "14641 - n" arbitrary: n)
  case (Suc k)
  have passed: "check (setVec (map (\<lambda>d. test_values ! (nth_indices n ! d)) [0..<4]))"
    by (rule check_passes) simp
  show ?case
  proof (cases "n + 1 < 14641")
    case True
    then have "testFourElements (nth_indices (n + 1)) = Some (map (\<lambda>m. (nth_indices m, True)) [n + 1..<14641])"
      using Suc by (intro Suc.hyps(1)) auto
    then show ?thesis
      using passed next_nth_indices(1) [OF Suc.prems True] Suc.prems
      by (subst testFourElements.simps) (simp add: upt_conv_Cons del: upt_Suc)
  next
    case False
    then have "n = 14640" using Suc.prems by simp
    then show ?thesis
      using passed next_nth_indices(2) [OF Suc.prems False]
      by (subst testFourElements.simps) (auto simp: Let_def case_prod_beta)
  qed
qed simp

lemma nth_indices_inj: "inj nth_indices"
proof (rule injI)
  fix m n assume "nth_indices m = nth_indices n"
  moreover obtain a b c d where "nth_indices m = [a, b, c, d]" by (simp add: nth_indices_def)
  ultimately show "m = n" using nth_indices_value [of m a b c d] nth_indices_value [of n a b c d] by simp
qed

lemma nth_indices_all:
  "nth_indices ` {..<14641} = {is. length is = 4 \<and> set is \<subseteq> {..<11}}"
proof (intro set_eqI iffI)
  fix xs assume "xs \<in> nth_indices ` {..<14641}"
  then obtain n where n: "n < 14641" "xs = nth_indices n" by auto
  have "n div 1331 < 11" using n(1) by (simp add: div_less_iff_less_mult)
  with n(2) show "xs \<in> {is. length is = 4 \<and> set is \<subseteq> {..<11}}" by (simp add: nth_indices_def)
next
  fix xs :: "nat list" assume "xs \<in> {is. length is = 4 \<and> set is \<subseteq> {..<11}}"
  then obtain a b c d where xs: "xs = [a, b, c, d]" "a < 11" "b < 11" "c < 11" "d < 11"
    by (auto simp: length_Suc_conv numeral_eq_Suc)
  let ?n = "d + 11 * (c + 11 * (b + 11 * a))"
  have *: "?n div 121 = ?n div 11 div 11" "?n div 1331 = ?n div 11 div 11 div 11"
    by (simp_all flip: div_mult2_eq)
  have digit: "(e + 11 * m) div 11 = m" "(e + 11 * m) mod 11 = e" if "e < 11" for e m :: nat
    using that by simp_all
  have d: "?n div 11 = c + 11 * (b + 11 * a)" "?n div 121 = b + 11 * a" "?n div 1331 = a" "?n mod 11 = d"
    unfolding * by (simp_all only: digit [OF xs(2)] digit [OF xs(3)] digit [OF xs(4)] digit [OF xs(5)])
  have "nth_indices ?n = xs" unfolding nth_indices_def d by (simp only: digit [OF xs(3)] digit [OF xs(4)] xs(1))
  moreover have "a \<le> 10" "b \<le> 10" "c \<le> 10" "d \<le> 10" using xs(2-5) by simp_all
  then have "?n \<le> 10 + 11 * (10 + 11 * (10 + 11 * 10))" by (intro add_mono mult_le_mono2)
  then have "?n < 14641" by simp
  ultimately show "xs \<in> nth_indices ` {..<14641}" by (metis imageI lessThan_iff)
qed

text \<open>The unit tests of the k-th search pass and end: every check of one, two and three elements
  succeeds, and the last test, whose loop decides itself when to stop, returns after it has tried each of the
  \<open>11 ^ 4\<close> lists of indices exactly once, with success.\<close>

theorem kth_unit_tests_pass:
  "list_all (\<lambda>passed. passed) (testOneElement @ testTwoElements @ testThreeElements 0 0 0) \<and>
   (\<exists>runs. testFourElements [0, 0, 0, 0] = Some runs \<and> list_all snd runs \<and> distinct (map fst runs) \<and>
      set (map fst runs) = {is. length is = 4 \<and> set is \<subseteq> {..<n_values}})"
proof
  have "list_all (\<lambda>passed. passed) testOneElement" "list_all (\<lambda>passed. passed) testTwoElements"
    unfolding testOneElement_def testTwoElements_def by (auto simp: list_all_iff check_passes)
  then show "list_all (\<lambda>passed. passed) (testOneElement @ testTwoElements @ testThreeElements 0 0 0)"
    by (simp add: testThreeElements_pass)
  let ?runs = "map (\<lambda>m. (nth_indices m, True)) [0..<14641]"
  have "testFourElements [0, 0, 0, 0] = Some ?runs"
    using testFourElements_from [of 0] by (simp add: nth_indices_def)
  moreover have "list_all snd ?runs" by (simp add: list_all_iff)
  moreover have "map fst ?runs = map nth_indices [0..<14641]" by simp
  moreover have "distinct (map nth_indices [0..<14641])"
    by (simp add: distinct_map inj_on_subset [OF nth_indices_inj])
  moreover have "set (map nth_indices [0..<14641]) = {is. length is = 4 \<and> set is \<subseteq> {..<n_values}}"
    unfolding n_values_11 nth_indices_all [symmetric] by (simp add: lessThan_atLeast0)
  ultimately show "\<exists>runs. testFourElements [0, 0, 0, 0] = Some runs \<and> list_all snd runs \<and> distinct (map fst runs) \<and>
      set (map fst runs) = {is. length is = 4 \<and> set is \<subseteq> {..<n_values}}"
    by metis
qed

section \<open>The histogram of sorted keys keeps the contract of the pivot search\<close>

lemma slot_from_eq:
  assumes "j < length ps" "\<forall>i<j. ps ! i < key"
  shows "slot_from ps key j =
    (let b = lower_bound (<) ps key in if b = length ps then None else Some b)"
  using assms
proof (induction ps key j rule: slot_from.induct)
  case (1 ps key j)
  have stop: "lower_bound (<) ps key = j" if "\<not> ps ! j < key"
  proof (rule antisym)
    show "lower_bound (<) ps key \<le> j" using that lower_bound_before [of j "(<)" ps key] by (meson leI)
    show "j \<le> lower_bound (<) ps key"
      using 1(2,3) lower_bound_at [of "(<)" ps key] by (metis leI order_less_trans)
  qed
  have go: "\<forall>i<j + 1. ps ! i < key" if "ps ! j < key"
    using 1(3) that by (auto simp: less_Suc_eq)
  show ?case
  proof (cases "ps ! j < key")
    case True
    show ?thesis
    proof (cases "length ps \<le> j + 1")
      case last: True
      then have "\<forall>x\<in>set ps. x < key" using go [OF True] by (auto simp: in_set_conv_nth)
      then have "lower_bound (<) ps key = length ps" by (simp add: lower_bound_eq_length_iff)
      with True last show ?thesis by (subst slot_from.simps) simp
    next
      case False
      with True 1(1) [OF True refl False] go [OF True] show ?thesis by (subst slot_from.simps) simp
    qed
  next
    case False
    with stop 1(2) show ?thesis by (subst slot_from.simps) simp
  qed
qed

lemma lower_bound_mono:
  assumes "k \<le> k'" shows "lower_bound (<) ps (k :: int) \<le> lower_bound (<) ps k'"
  unfolding lower_bound_def by (induction ps) (use assms in auto)

lemma histogram_loop_nth:
  assumes "sorted ks" "j < length ps" "\<forall>k\<in>set ks. \<forall>i<j. ps ! i < k" "length result = length ps" "i < length ps"
  shows "histogram_loop ps ks j result ! i =
    result ! i + int (length (filter (\<lambda>k. lower_bound (<) ps k = i) ks))"
  using assms
proof (induction ks arbitrary: j result)
  case (Cons key ks)
  let ?b = "lower_bound (<) ps key"
  have slot: "slot_from ps key j = (if ?b = length ps then None else Some ?b)"
    using slot_from_eq [of j ps key] Cons.prems by (simp add: Let_def)
  show ?case
  proof (cases "?b = length ps")
    case True
    have "lower_bound (<) ps k \<noteq> i" if "k \<in> set (key # ks)" for k
      using that Cons.prems(1,5) True lower_bound_mono [of key k ps] by auto
    then have "filter (\<lambda>k. lower_bound (<) ps k = i) (key # ks) = []" by (auto simp: filter_empty_conv)
    with slot True show ?thesis by simp
  next
    case False
    then have b: "?b < length ps" using lower_bound_le_length [of "(<)" ps key] by linarith
    have "\<forall>k\<in>set ks. \<forall>i<?b. ps ! i < k"
      using Cons.prems(1) lower_bound_before [of _ "(<)" ps key] by fastforce
    then have "histogram_loop ps ks ?b (result[?b := result ! ?b + 1]) ! i =
        result[?b := result ! ?b + 1] ! i + int (length (filter (\<lambda>k. lower_bound (<) ps k = i) ks))"
      using Cons.prems b by (intro Cons.IH) auto
    with slot False b Cons.prems(4) show ?thesis by (simp add: nth_list_update)
  qed
qed simp

lemma histogram_loop_length: "length (histogram_loop ps ks j result) = length result"
  by (induction ps ks j result rule: histogram_loop.induct) (auto split: option.split)

lemma length_getHistogramFromKey: "length (getHistogramFromKey ks ps) = length ps"
  by (simp add: getHistogramFromKey_def histogram_loop_length)

lemma getHistogramFromKey_upto:
  assumes "sorted ks" "sorted_wrt (<) ps" "i < length ps"
  shows "sum_list (take (Suc i) (getHistogramFromKey ks ps)) = int (length (filter (\<lambda>k. k \<le> ps ! i) ks))"
proof -
  have "getHistogramFromKey ks ps ! j = int (length (filter (\<lambda>k. lower_bound (<) ps k = j) ks))" if "j < length ps" for j
    unfolding getHistogramFromKey_def using assms that by (subst histogram_loop_nth) auto
  then have "take (Suc i) (getHistogramFromKey ks ps) =
      map (\<lambda>j. int (length (filter (\<lambda>k. lower_bound (<) ps k = j) ks))) [0..<Suc i]"
    by (intro nth_equalityI) (use assms(3) length_getHistogramFromKey [of ks ps] in \<open>auto simp del: upt_Suc\<close>)
  then show ?thesis by (simp only: sum_slots_upto [OF assms(2,3)])
qed

text \<open>The tests sort the keys first.\<close>

interpretation sorted_keys: histogram_source "\<lambda>ks. getHistogramFromKey (sort ks)" sort
  by unfold_locales (simp add: getHistogramFromKey_upto)

section \<open>Pivots from sorted keys\<close>

text \<open>The calls of the pivot search in the tests, with the keys sorted.\<close>

definition test_partition :: "int list \<Rightarrow> int \<Rightarrow> partition_error + int list" where
  "test_partition ks nWorkers = partition (last ks) (int (length ks)) nWorkers (getHistogramFromKey ks)"

text \<open>C15: The pivots are balanced: for sorted keys, if no slot of the first histogram is too dense, the pivot
  search with the histogram of the tests returns one pivot per worker, the last one the largest key, and the
  number of keys up to the pivot of worker \<open>i\<close> exceeds its share \<open>i * (keyCount / nWorkers)\<close> by at most
  the number of keys of one slot, with no failing assertion and no overflow.\<close>

theorem partition_balanced_pivots:
  assumes "sorted ks" "ks \<noteq> []" "0 < last ks" "0 < n" "32 * n < 2 ^ 31" "2 * int (length ks) < 2 ^ 63"
    and "bound = 2 * int (length ks) div int (length (first_pivots (last ks) n))"
    and "\<forall>c\<in>set (getHistogramFromKey ks (first_pivots (last ks) n)). c \<le> bound"
  shows "\<exists>r. test_partition ks n = Inr (r @ [last ks]) \<and> int (length r) = n - 1 \<and>
    (\<forall>i<length r. r ! i \<le> last ks \<and>
      (let share = int (i + 1) * (int (length ks) div n);
           upto = int (length (filter (\<lambda>k. k \<le> r ! i) ks))
       in share \<le> upto \<and> upto \<le> share + bound))"
proof -
  have sort: "sort ks = ks" using assms(1) by (simp add: sorted_sort_id)
  have range: "\<forall>k\<in>set ks. k \<le> last ks"
    using assms(1) sorted_last_max by blast
  have pos: "0 < int (length ks)" using assms(2) by simp
  have len: "length (getHistogramFromKey ks ps) = length ps" for ps by (rule length_getHistogramFromKey)
  note balanced = sorted_keys.partition_balanced [of "last ks" n "int (length ks)" ks, unfolded sort,
      OF assms(3-5) refl pos assms(6) range len assms(8) [unfolded assms(7)]]
  define pivot where "pivot = (\<lambda>i. first_pivots (last ks) n ! lower_bound (<)
      (partial_sum (getHistogramFromKey ks (first_pivots (last ks) n))) (int i * (int (length ks) div n)))"
  show ?thesis
  proof (intro exI [of _ "map pivot [1..<nat n]"] conjI allI impI)
    show "test_partition ks n = Inr (map pivot [1..<nat n] @ [last ks])"
      unfolding pivot_def test_partition_def by (rule balanced(1))
    show "int (length (map pivot [1..<nat n])) = n - 1" using assms(4) by simp
  next
    fix i assume "i < length (map pivot [1..<nat n])"
    then have i: "0 < i + 1" "i + 1 < nat n" "map pivot [1..<nat n] ! i = pivot (i + 1)" by auto
    let ?share = "int (i + 1) * (int (length ks) div n)"
    let ?upto = "int (length (filter (\<lambda>k. k \<le> pivot (i + 1)) ks))"
    have "pivot (i + 1) \<le> last ks \<and> ?share \<le> ?upto \<and> ?upto \<le> ?share + bound"
      unfolding pivot_def assms(7) by (rule balanced(2) [OF i(1,2)])
    then show "map pivot [1..<nat n] ! i \<le> last ks"
      and "let share = int (i + 1) * (int (length ks) div n);
          upto = int (length (filter (\<lambda>k. k \<le> map pivot [1..<nat n] ! i) ks))
        in share \<le> upto \<and> upto \<le> share + bound"
      unfolding Let_def i(3) by blast+
  qed
qed

theorem partition_balanced_pivots_witness:
  "\<exists>r. test_partition [1, 2, 3, 4, 5] 2 = Inr (r @ [5]) \<and> length r = 1"
proof -
  have "list_all (\<lambda>c. c \<le> 2 * 5 div int (length (first_pivots 5 2)))
      (getHistogramFromKey [1, 2, 3, 4, 5] (first_pivots 5 2))"
    by code_simp
  then have "\<forall>c\<in>set (getHistogramFromKey [1, 2, 3, 4, 5] (first_pivots 5 2)). c \<le> 2 * 5 div int (length (first_pivots 5 2))"
    by (simp only: list_all_iff)
  with partition_balanced_pivots [of "[1, 2, 3, 4, 5]" 2 "2 * 5 div int (length (first_pivots 5 2))"]
  show ?thesis by auto
qed

end
