(* ===== verification/PartitionTests.thy ===== *)
theory PartitionTests
  imports UnitTests
begin

text \<open>
  The tests of examples/wordfreq/partition_unittest.cc as the code runs them: the histograms of sorted keys
  with the counts that are expected, and the pivots of ten thousand random keys. The random numbers are a
  parameter, and so is the test of the skew, which is in floating point: \<open>close a b\<close> stands for
  \<^verbatim>\<open>fabs(double(a) / double(b) - 1.0) < 0.05\<close>.
\<close>

section \<open>Histograms\<close>

definition testGetHistogramFromKey :: "bool list" where
  "testGetHistogramFromKey =
     (let keys = [1, 2, 3, 4, 5];
          c1 = (getHistogramFromKey keys [1, 2, 3, 4, 5] = [1, 1, 1, 1, 1]);
          c2 = (getHistogramFromKey keys [3] = [3]);
          c3 = (getHistogramFromKey keys [6] = [5]);
          c4 = (getHistogramFromKey keys [1, 3, 5] = [1, 2, 2]);
          keys = [1, 1, 2, 2, 3, 3, 4, 4, 5, 5, 7];
          c5 = (getHistogramFromKey keys [1, 3, 5] = [2, 4, 4]);
          c6 = (getHistogramFromKey keys [1, 3, 5, 6] = [2, 4, 4, 0])
      in [c1, c2, c3, c4, c5, c6])"

text \<open>\<^verbatim>\<open>test1\<close>; \<open>None\<close> is a failure inside the pivot search.\<close>

definition pivots_are :: "int list \<Rightarrow> int \<Rightarrow> int list \<Rightarrow> bool" where
  "pivots_are ks nWorkers expected = (case test_partition ks nWorkers of Inl e \<Rightarrow> False | Inr pivots \<Rightarrow> pivots = expected)"

definition test1 :: "bool list" where
  "test1 =
     (let keys = [1, 2, 3, 4, 5];
          c1 = pivots_are keys 1 [5];
          c2 = pivots_are keys 2 [2, 5];
          keys = keys @ [6]
      in [c1, c2, pivots_are keys 2 [3, 6]])"

lemma partition_tests_pass: "list_all (\<lambda>passed. passed) testGetHistogramFromKey" "list_all (\<lambda>passed. passed) test1"
  by code_simp+

section \<open>Random keys\<close>

definition uniform_keys :: "int list \<Rightarrow> int list" where
  "uniform_keys rand = (let maxKey = 1000 * 1000; count = 10000 in sort (map (\<lambda>r. r mod maxKey) (take count rand)))"

text \<open>The number of keys of each worker, in the order of the pivots.\<close>

fun skew_checks :: "(int \<Rightarrow> int \<Rightarrow> bool) \<Rightarrow> int list \<Rightarrow> int \<Rightarrow> int \<Rightarrow> int list \<Rightarrow> bool list" where
  "skew_checks close ks perWorker prev [] = []"
| "skew_checks close ks perWorker prev (p # ps) =
     (let less_equal = int (upper_bound (<) ks p);
          thiscount = less_equal - prev
      in close thiscount perWorker # skew_checks close ks perWorker less_equal ps)"

text \<open>The checks of one number of workers; \<open>None\<close> is a failure of the pivot search or a pivot that is missing.\<close>

definition uniform_checks :: "(int \<Rightarrow> int \<Rightarrow> bool) \<Rightarrow> int list \<Rightarrow> int \<Rightarrow> bool list option" where
  "uniform_checks close ks nWorkers =
     (case test_partition ks nWorkers of
        Inl e \<Rightarrow> None
      | Inr pivots \<Rightarrow>
          if int (length pivots) < nWorkers then None
          else Some ((int (length pivots) = nWorkers) #
            skew_checks close ks (int (length ks) div int (length pivots)) 0 (take (nat nWorkers) pivots)))"

definition testUniform :: "(int \<Rightarrow> int \<Rightarrow> bool) \<Rightarrow> int list \<Rightarrow> bool list option" where
  "testUniform close rand =
     (let keys = uniform_keys rand
      in case (test_partition keys 1, test_partition keys 2, those (map (\<lambda>n. uniform_checks close keys (int n)) [1..<11])) of
           (Inr [p], Inr [q0, q1], Some checks) \<Rightarrow>
             (let p0 = int (length (filter (\<lambda>k. k \<le> q0) keys));
                  perWorker = int (length keys) div 2
              in Some ([p = last keys, close p0 perWorker, q1 = last keys] @ concat checks))
         | _ \<Rightarrow> None)"

section \<open>The checks of the skew\<close>

text \<open>The number of keys up to a pivot exceeds the worker's share by no more than the keys of one slot.\<close>

lemma pivots_near_shares:
  assumes "sorted ks" "ks \<noteq> []" "0 < last ks" "0 < n" "32 * n < 2 ^ 31" "2 * int (length ks) < 2 ^ 63"
    and slots: "\<forall>c\<in>set (getHistogramFromKey ks (first_pivots (last ks) n)). c \<le> d"
    and d: "d \<le> 2 * int (length ks) div int (length (first_pivots (last ks) n))"
  shows "\<exists>r. test_partition ks n = Inr (r @ [last ks]) \<and> int (length r) = n - 1 \<and>
    (\<forall>i<length r. int (i + 1) * (int (length ks) div n) \<le> int (length (filter (\<lambda>k. k \<le> r ! i) ks)) \<and>
       int (length (filter (\<lambda>k. k \<le> r ! i) ks)) \<le> int (i + 1) * (int (length ks) div n) + d)"
proof -
  let ?ps = "first_pivots (last ks) n" and ?pw = "int (length ks) div n"
  have sort: "sort ks = ks" using assms(1) by (simp add: sorted_sort_id)
  have ps: "sorted_wrt (<) ?ps" "?ps \<noteq> []" "last ?ps = last ks"
    using first_pivots_sorted [OF assms(3,4)] last_first_pivots by auto
  have range: "\<forall>k\<in>set ks. k \<le> last ks" using assms(1) sorted_last_max by blast
  have pos: "0 < int (length ks)" using assms(2) by simp
  have len: "length (getHistogramFromKey ks ps) = length ps" for ps by (rule length_getHistogramFromKey)
  have bal: "\<forall>c\<in>set (getHistogramFromKey ks ?ps). c \<le> 2 * int (length ks) div int (length ?ps)"
    using slots d by fastforce
  note found = sorted_keys.partition_balanced(1) [of "last ks" n "int (length ks)" ks, unfolded sort,
      OF assms(3-5) refl pos assms(6) range len bal]
  have total: "last (partial_sum (getHistogramFromKey ks ?ps)) = int (length ks)"
    using sorted_keys.cum_last [of ?ps ks, unfolded sort, OF ps(1) len ps(2)] ps(3) range by simp
  have pw: "0 \<le> ?pw" using assms(4) by (simp add: pos_imp_zdiv_nonneg_iff)
  define pivot where "pivot = (\<lambda>i. ?ps ! lower_bound (<) (partial_sum (getHistogramFromKey ks ?ps)) (int i * ?pw))"
  have near: "int i * ?pw \<le> int (length (filter (\<lambda>k. k \<le> pivot i) ks)) \<and>
      int (length (filter (\<lambda>k. k \<le> pivot i) ks)) \<le> int i * ?pw + d" if "i < nat n" for i
  proof -
    have "int i * ?pw \<le> n * ?pw" using that pw by (intro mult_right_mono) auto
    also have "\<dots> \<le> int (length ks)" using assms(4) by (simp add: minus_mod_eq_mult_div [symmetric])
    finally have "int i * ?pw \<le> last (partial_sum (getHistogramFromKey ks ?ps))" by (simp add: total)
    from sorted_keys.worker_pivot_ok(3,4) [of ?ps ks, unfolded sort, OF ps(1) len this ps(2) pw slots]
    show ?thesis unfolding pivot_def by blast
  qed
  show ?thesis
  proof (intro exI [of _ "map pivot [1..<nat n]"] conjI allI impI)
    show "test_partition ks n = Inr (map pivot [1..<nat n] @ [last ks])"
      unfolding pivot_def test_partition_def by (rule found)
    show "int (length (map pivot [1..<nat n])) = n - 1" using assms(4) by simp
  next
    fix i assume "i < length (map pivot [1..<nat n])"
    then have i: "i + 1 < nat n" "map pivot [1..<nat n] ! i = pivot (i + 1)" by auto
    show "int (i + 1) * ?pw \<le> int (length (filter (\<lambda>k. k \<le> map pivot [1..<nat n] ! i) ks))"
      "int (length (filter (\<lambda>k. k \<le> map pivot [1..<nat n] ! i) ks)) \<le> int (i + 1) * ?pw + d"
      unfolding i(2) using near [OF i(1)] by blast+
  qed
qed

text \<open>The counts of the workers, when the keys up to the pivots are near the shares.\<close>

lemma skew_checks_pass:
  assumes "sorted ks" "\<And>a. \<bar>a - pw\<bar> \<le> d + e \<Longrightarrow> close a pw" "0 \<le> d" "0 \<le> e"
    and "\<forall>i<length ps. share + int (i + 1) * pw \<le> int (length (filter (\<lambda>k. k \<le> ps ! i) ks)) \<and>
      int (length (filter (\<lambda>k. k \<le> ps ! i) ks)) \<le> share + int (i + 1) * pw + (if i + 1 = length ps then e else d)"
    and "share \<le> prev" "prev \<le> share + d"
  shows "list_all (\<lambda>passed. passed) (skew_checks close ks pw prev ps)"
  using assms(5-7)
proof (induction ps arbitrary: share prev)
  case (Cons p ps)
  let ?le = "int (upper_bound (<) ks p)"
  have "?le = int (length (filter (\<lambda>k. k \<le> p) ks))"
  proof -
    have "sorted_wrt (\<lambda>x y. y \<le> p \<longrightarrow> x \<le> p) ks" using assms(1) by (rule sorted_wrt_mono_rel [rotated]) auto
    then show ?thesis by (simp add: upper_bound_def not_less takeWhile_sorted_filter)
  qed
  moreover have "share + pw \<le> int (length (filter (\<lambda>k. k \<le> p) ks))"
    "int (length (filter (\<lambda>k. k \<le> p) ks)) \<le> share + pw + (if ps = [] then e else d)"
    using Cons.prems(1) [rule_format, of 0] by auto
  ultimately have le: "share + pw \<le> ?le" "?le \<le> share + pw + (if ps = [] then e else d)" by simp_all
  then have "\<bar>?le - prev - pw\<bar> \<le> d + e" using Cons.prems(2,3) assms(3,4) by (auto split: if_splits)
  then have "close (?le - prev) pw" by (rule assms(2))
  moreover have "list_all (\<lambda>passed. passed) (skew_checks close ks pw ?le ps)" if "ps \<noteq> []"
  proof (rule Cons.IH [of "share + pw"])
    show "\<forall>i<length ps. share + pw + int (i + 1) * pw \<le> int (length (filter (\<lambda>k. k \<le> ps ! i) ks)) \<and>
      int (length (filter (\<lambda>k. k \<le> ps ! i) ks)) \<le> share + pw + int (i + 1) * pw + (if i + 1 = length ps then e else d)"
    proof (intro allI impI)
      fix i assume "i < length ps"
      with Cons.prems(1) [rule_format, of "Suc i"] show "share + pw + int (i + 1) * pw \<le> int (length (filter (\<lambda>k. k \<le> ps ! i) ks)) \<and>
        int (length (filter (\<lambda>k. k \<le> ps ! i) ks)) \<le> share + pw + int (i + 1) * pw + (if i + 1 = length ps then e else d)"
        by (simp add: algebra_simps)
    qed
  qed (use le that in auto)
  ultimately show ?case by (cases ps) (simp_all add: Let_def)
qed simp

text \<open>With ten thousand keys and few enough of them in each slot, every check succeeds.\<close>

definition close_ok :: "(int \<Rightarrow> int \<Rightarrow> bool) \<Rightarrow> bool" where
  "close_ok close \<longleftrightarrow> (\<forall>a b. 0 < b \<longrightarrow> 1000 * \<bar>a - b\<bar> \<le> 49 * b \<longrightarrow> close a b)"

definition few_in_slots :: "int list \<Rightarrow> int \<Rightarrow> bool" where
  "few_in_slots ks n \<longleftrightarrow> list_all (\<lambda>c. c \<le> 450 div n) (getHistogramFromKey ks (first_pivots (last ks) n))"

lemma slots_below_bound:
  assumes "0 < n" "0 < m"
  shows "450 div n \<le> 2 * 10000 div int (length (first_pivots m n))"
proof -
  have "snd (slot_size m (32 * n)) \<le> 32 * n"
  proof -
    have "m < 32 * n" if "m div (32 * n) = 0"
      using that assms by (simp add: zdiv_eq_0_iff)
    then show ?thesis by (auto simp: slot_size_def Let_def)
  qed
  then have len: "int (length (first_pivots m n)) \<le> 32 * n" using length_first_pivots [OF assms(2,1)] by simp
  have "0 < int (length (first_pivots m n))" using last_first_pivots [of m n] by simp
  then have "20000 div (32 * n) \<le> 20000 div int (length (first_pivots m n))"
    using len by (intro zdiv_mono2) auto
  moreover have "450 div n \<le> 20000 div (32 * n)"
    using assms(1) by (simp add: div_mult2_eq zdiv_zmult2_eq zdiv_mono1)
  ultimately show ?thesis by simp
qed

lemma uniform_checks_pass:
  assumes ks: "sorted ks" "length ks = 10000" "0 < last ks" and n: "0 < n" "n \<le> 10"
    and slots: "few_in_slots ks n" and "close_ok close"
  obtains r where "test_partition ks n = Inr (r @ [last ks])" "int (length r) = n - 1"
    "uniform_checks close ks n = Some (True # skew_checks close ks (10000 div n) 0 (r @ [last ks]))"
    "list_all (\<lambda>passed. passed) (skew_checks close ks (10000 div n) 0 (r @ [last ks]))"
    "\<forall>i<length r. int (i + 1) * (10000 div n) \<le> int (length (filter (\<lambda>k. k \<le> r ! i) ks)) \<and>
       int (length (filter (\<lambda>k. k \<le> r ! i) ks)) \<le> int (i + 1) * (10000 div n) + 450 div n"
proof -
  let ?pw = "10000 div n" and ?d = "450 div n"
  have ne: "ks \<noteq> []" using ks(2) by auto
  from slots have "\<forall>c\<in>set (getHistogramFromKey ks (first_pivots (last ks) n)). c \<le> ?d"
    by (simp add: few_in_slots_def list_all_iff)
  from pivots_near_shares [OF ks(1) ne ks(3) n(1) _ _ this] ks(2) n slots_below_bound [OF n(1) ks(3)]
  obtain r where r: "test_partition ks n = Inr (r @ [last ks])" "int (length r) = n - 1"
    "\<forall>i<length r. int (i + 1) * ?pw \<le> int (length (filter (\<lambda>k. k \<le> r ! i) ks)) \<and>
       int (length (filter (\<lambda>k. k \<le> r ! i) ks)) \<le> int (i + 1) * ?pw + ?d" by auto
  have len: "int (length (r @ [last ks])) = n" using r(2) by simp
  then have whole: "take (nat n) (r @ [last ks]) = r @ [last ks]" by simp
  have "\<forall>k\<in>set ks. k \<le> last ks" using ks(1) sorted_last_max by blast
  then have all: "filter (\<lambda>k. k \<le> last ks) ks = ks" by (simp add: filter_id_conv)
  have cases: "n \<in> {1, 2, 3, 4, 5, 6, 7, 8, 9, 10}"
    unfolding insert_iff empty_iff using n by presburger
  have "list_all (\<lambda>passed. passed) (skew_checks close ks ?pw 0 (r @ [last ks]))"
  proof (rule skew_checks_pass [OF ks(1), where d = ?d and e = "10000 mod n" and share = 0])
    fix a assume "\<bar>a - ?pw\<bar> \<le> ?d + 10000 mod n"
    with cases have "1000 * \<bar>a - ?pw\<bar> \<le> 49 * ?pw \<and> 0 < ?pw" by auto
    then show "close a ?pw" using assms(7) unfolding close_ok_def by blast
  next
    show "\<forall>i<length (r @ [last ks]). 0 + int (i + 1) * ?pw \<le> int (length (filter (\<lambda>k. k \<le> (r @ [last ks]) ! i) ks)) \<and>
      int (length (filter (\<lambda>k. k \<le> (r @ [last ks]) ! i) ks)) \<le>
        0 + int (i + 1) * ?pw + (if i + 1 = length (r @ [last ks]) then 10000 mod n else ?d)"
    proof (intro allI impI)
      fix i assume i: "i < length (r @ [last ks])"
      show "0 + int (i + 1) * ?pw \<le> int (length (filter (\<lambda>k. k \<le> (r @ [last ks]) ! i) ks)) \<and>
        int (length (filter (\<lambda>k. k \<le> (r @ [last ks]) ! i) ks)) \<le>
          0 + int (i + 1) * ?pw + (if i + 1 = length (r @ [last ks]) then 10000 mod n else ?d)"
      proof (cases "i = length r")
        case True
        then have "int (i + 1) * ?pw = 10000 - 10000 mod n" using r(2) by (simp add: minus_mod_eq_mult_div)
        moreover have "0 \<le> 10000 mod n" using n(1) by simp
        ultimately show ?thesis using True ks(2) all by simp
      next
        case False
        with i r(3) show ?thesis by (simp add: nth_append)
      qed
    qed
  qed (use n in \<open>auto simp: pos_imp_zdiv_nonneg_iff\<close>)
  moreover have "uniform_checks close ks n = Some (True # skew_checks close ks ?pw 0 (r @ [last ks]))"
    using len ks(2) whole by (simp add: uniform_checks_def r(1))
  ultimately show thesis using r by (intro that)
qed

text \<open>The test of uniform keys passes if every slot of the first histogram of each number of workers has at most
  \<open>450 / n\<close> of the ten thousand keys, where about \<open>312 / n\<close> are expected.\<close>

theorem testUniform_passes:
  assumes "10000 \<le> length rand" "ks = uniform_keys rand" "0 < last ks" "close_ok close"
    and slots: "\<And>n. n \<in> {1..10} \<Longrightarrow> few_in_slots ks n"
  shows "\<exists>checks. testUniform close rand = Some checks \<and> list_all (\<lambda>passed. passed) checks"
proof -
  have ks: "sorted ks" "length ks = 10000" using assms(1,2) by (simp_all add: uniform_keys_def)
  have each: "\<exists>cs. uniform_checks close ks (int n) = Some cs \<and> list_all (\<lambda>passed. passed) cs" if "n \<in> set [1..<11]" for n
  proof -
    have n: "0 < int n" "int n \<le> 10" using that by auto
    then have "few_in_slots ks (int n)" using slots by simp
    from uniform_checks_pass [OF ks assms(3) n this assms(4)] obtain cs where
      "uniform_checks close ks (int n) = Some (True # cs)" "list_all (\<lambda>passed. passed) cs" by metis
    then show ?thesis by simp
  qed
  then obtain f where f: "\<And>n. n \<in> set [1..<11] \<Longrightarrow> uniform_checks close ks (int n) = Some (f n) \<and> list_all (\<lambda>passed. passed) (f n)"
    by metis
  then have those: "those (map (\<lambda>n. uniform_checks close ks (int n)) [1..<11]) = Some (map f [1..<11])"
    by (intro those_map_Some) blast
  have "few_in_slots ks 1" "few_in_slots ks 2" using slots by simp_all
  note passed = uniform_checks_pass [OF ks assms(3) _ _ this(1) assms(4)] uniform_checks_pass [OF ks assms(3) _ _ this(2) assms(4)]
  obtain r where "test_partition ks 1 = Inr (r @ [last ks])" "int (length r) = 1 - 1" using passed(1) by auto
  then have one: "test_partition ks 1 = Inr [last ks]" by simp
  obtain r where r: "test_partition ks 2 = Inr (r @ [last ks])" "int (length r) = 2 - 1"
    "\<forall>i<length r. int (i + 1) * (10000 div 2) \<le> int (length (filter (\<lambda>k. k \<le> r ! i) ks)) \<and>
       int (length (filter (\<lambda>k. k \<le> r ! i) ks)) \<le> int (i + 1) * (10000 div 2) + 450 div 2"
    using passed(2) by auto
  then obtain q where q: "r = [q]" by (cases r) auto
  have "close (int (length (filter (\<lambda>k. k \<le> q) ks))) 5000"
    using r(3) assms(4) unfolding close_ok_def by (simp add: q)
  moreover have "list_all (\<lambda>passed. passed) (concat (map f [1..<11]))"
    unfolding list_all_iff set_concat set_map using f unfolding list_all_iff by blast
  ultimately show ?thesis
    using ks(2) by (simp add: testUniform_def Let_def assms(2) [symmetric] one r(1) q those [unfolded One_nat_def])
qed

text \<open>Evenly spread keys are an example.\<close>

definition even_keys :: "int list" where
  "even_keys = map (\<lambda>i. 100 * int i) [0..<10000]"

lemma even_keys_uniform: "uniform_keys even_keys = even_keys" "last even_keys = 999900" "sorted even_keys" "length even_keys = 10000"
proof -
  show sorted: "sorted even_keys" by (simp add: even_keys_def sorted_iff_nth_mono)
  show length: "length even_keys = 10000" by (simp add: even_keys_def)
  have "map (\<lambda>r. r mod (1000 * 1000)) even_keys = even_keys"
    unfolding even_keys_def map_map by (intro map_cong) auto
  then show "uniform_keys even_keys = even_keys"
    by (simp add: uniform_keys_def Let_def length sorted_sort_id [OF sorted])
  have "even_keys \<noteq> []" using length by auto
  then have "last even_keys = even_keys ! 9999" by (simp add: last_conv_nth length)
  then show "last even_keys = 999900" by (simp add: even_keys_def)
qed

lemma length_filter_less: "length (filter (\<lambda>i. i < m) [0..<n]) = min n m"
  by (induction n) auto

lemma even_keys_upto:
  assumes "0 \<le> p"
  shows "int (length (filter (\<lambda>k. k \<le> p) even_keys)) = min 10000 (p div 100 + 1)"
proof -
  have "filter (\<lambda>k. k \<le> p) even_keys = map (\<lambda>i. 100 * int i) (filter (\<lambda>i. 100 * int i \<le> p) [0..<10000])"
    by (simp add: even_keys_def filter_map comp_def)
  also have "filter (\<lambda>i. 100 * int i \<le> p) [0..<10000] = filter (\<lambda>i. i < nat (p div 100 + 1)) [0..<10000]"
    using assms by (intro filter_cong) auto
  finally have "length (filter (\<lambda>k. k \<le> p) even_keys) = min 10000 (nat (p div 100 + 1))"
    by (simp only: length_map length_filter_less)
  moreover have "int (nat (p div 100 + 1)) = p div 100 + 1" using assms by (simp add: pos_imp_zdiv_nonneg_iff)
  ultimately show ?thesis by (simp only: of_nat_min) simp
qed

text \<open>The gaps between the first pivots.\<close>

lemma first_pivots_gap:
  assumes "0 < m" "0 < n" "slot_size m (32 * n) = (increment, nPivots)" "j < length (first_pivots m n)"
  shows "0 \<le> first_pivots m n ! j" "first_pivots m n ! j \<le> m"
    "first_pivots m n ! j - (if j = 0 then 0 else first_pivots m n ! (j - 1)) \<le> m - (nPivots - 1) * increment"
proof -
  note b = slot_size_bounds [OF assms(1) _ assms(3)]
  have n: "0 < 32 * n" using assms(2) by simp
  have len: "length (first_pivots m n) = nat nPivots" using length_first_pivots [OF assms(1,2)] assms(3) by simp
  have nth: "first_pivots m n ! i = (if i = nat nPivots - 1 then m else int (i + 1) * increment)" if "i < nat nPivots" for i
    using that b(2) [OF n] by (auto simp: first_pivots_def assms(3) nth_append)
  have mid: "int (i + 1) * increment \<le> m" if "i < nat nPivots" for i
  proof -
    have "int (i + 1) * increment \<le> nPivots * increment" using that b(1) [OF n] by (intro mult_right_mono) auto
    then show ?thesis using b(3) [OF n] by linarith
  qed
  have pos: "0 \<le> int (i + 1) * increment" for i using b(1) [OF n] by simp
  have j: "j < nat nPivots" using assms(4) len by simp
  show "0 \<le> first_pivots m n ! j" "first_pivots m n ! j \<le> m" using nth [OF j] mid [OF j] pos [of j] assms(1) by auto
  have one: "increment \<le> m - (nPivots - 1) * increment" using b(3) [OF n] by (simp add: algebra_simps)
  show "first_pivots m n ! j - (if j = 0 then 0 else first_pivots m n ! (j - 1)) \<le> m - (nPivots - 1) * increment"
  proof (cases "j = 0")
    case True
    show ?thesis
    proof (cases "nPivots = 1")
      case False
      then show ?thesis using True nth [OF j] one b(2) [OF n] by auto
    qed (use True nth [OF j] in simp)
  next
    case False
    then have "first_pivots m n ! (j - 1) = int j * increment" using nth [of "j - 1"] j by auto
    then show ?thesis using nth [OF j] one j False b(2) [OF n] by (auto simp: algebra_simps nat_diff_distrib of_nat_diff)
  qed
qed

lemma div_100_diff: "(a :: int) div 100 - b div 100 \<le> (a - b) div 100 + 1"
proof -
  have "a div 100 * 100 \<le> a" "b < (b div 100 + 1) * 100"
    using minus_mod_eq_div_mult [of a 100] minus_mod_eq_div_mult [of b 100] by simp_all
  then have "(a div 100 - b div 100 - 1) * 100 \<le> a - b" by (simp add: algebra_simps)
  from zdiv_mono1 [OF this, of 100] show ?thesis by simp
qed

lemma even_keys_slots:
  assumes "n \<in> {1..10 :: int}"
  shows "few_in_slots even_keys n"
  unfolding few_in_slots_def even_keys_uniform(2) list_all_length
proof (intro allI impI)
  let ?ps = "first_pivots 999900 n" and ?m = "999900 :: int"
  let ?upto = "\<lambda>p. int (length (filter (\<lambda>k. k \<le> p) even_keys))"
  fix j assume "j < length (getHistogramFromKey even_keys ?ps)"
  then have j: "j < length ?ps" by (simp add: length_getHistogramFromKey)
  have n: "n \<in> {1, 2, 3, 4, 5, 6, 7, 8, 9, 10}"
    unfolding insert_iff empty_iff using assms unfolding atLeastAtMost_iff by presburger
  then have size: "slot_size ?m (32 * n) = (?m div (32 * n), 32 * n)" by (auto simp: slot_size_def)
  have pos: "0 < ?m" "0 < n" using n by auto
  note gap = first_pivots_gap [OF pos size]
  have sorted: "sorted_wrt (<) ?ps" using first_pivots_sorted [OF pos] .
  note upto = getHistogramFromKey_upto [OF even_keys_uniform(3) sorted]
  let ?before = "if j = 0 then 0 else ?upto (?ps ! (j - 1))"
  have "sum_list (take j (getHistogramFromKey even_keys ?ps)) = ?before"
    using upto [of "j - 1"] j by (cases j) auto
  then have "getHistogramFromKey even_keys ?ps ! j = ?upto (?ps ! j) - ?before"
    using upto [OF j] j by (simp add: take_Suc_conv_app_nth length_getHistogramFromKey)
  also have "\<dots> \<le> (?ps ! j - (if j = 0 then 0 else ?ps ! (j - 1))) div 100 + 1"
  proof (cases "j = 0")
    case False
    let ?a = "?ps ! j" and ?b = "?ps ! (j - 1)"
    have ab: "0 \<le> ?a" "?a \<le> ?m" "0 \<le> ?b" "?b \<le> ?m" using gap(1,2) [of j] gap(1,2) [of "j - 1"] j by simp_all
    have "?b div 100 \<le> 999900 div 100" by (rule zdiv_mono1 [OF ab(4)]) simp
    then have "min 10000 (?a div 100 + 1) - min 10000 (?b div 100 + 1) \<le> (?a - ?b) div 100 + 1"
      using div_100_diff [of ?a ?b] by (simp add: min_def)
    then show ?thesis using False even_keys_upto [OF ab(1)] even_keys_upto [OF ab(3)] by simp
  qed (use even_keys_upto [OF gap(1) [OF j]] in simp)
  also have "\<dots> \<le> (?m - (32 * n - 1) * (?m div (32 * n))) div 100 + 1"
    using gap(3) [OF j] by (simp add: zdiv_mono1)
  also have "\<dots> \<le> 450 div n" using n by auto
  finally show "getHistogramFromKey even_keys ?ps ! j \<le> 450 div n" .
qed

lemma testUniform_even_keys:
  "close_ok close \<Longrightarrow> \<exists>checks. testUniform close even_keys = Some checks \<and> list_all (\<lambda>passed. passed) checks"
  by (rule testUniform_passes [of even_keys even_keys]) (simp_all add: even_keys_uniform even_keys_slots)

end
