(* ===== verification/StdMap.thy ===== *)
theory StdMap
  imports Prelude "HOL-Library.Char_ord" "HOL-Library.List_Lexorder"
begin

text \<open>
  The ordered map \<^verbatim>\<open>std::map\<close> as the code uses it: \<open>find\<close>, \<open>operator[]\<close> followed by
  an assignment, \<open>erase\<close> and iteration in key order. The interface is a locale; it is
  provided by key-ordered association lists, which the components that iterate use, and by
  HOL maps, which the components that only look up use.
\<close>

section \<open>The interface\<close>

locale std_map =
  fixes find :: "'m \<Rightarrow> 'k \<Rightarrow> 'v option"
    and store :: "'k \<Rightarrow> 'v \<Rightarrow> 'm \<Rightarrow> 'm"
    and erase :: "'k \<Rightarrow> 'm \<Rightarrow> 'm"
    and empty :: 'm
    and ok :: "'m \<Rightarrow> bool"
  assumes find_empty: "find empty k = None"
    and find_store: "ok m \<Longrightarrow> find (store k v m) k' = (if k' = k then Some v else find m k')"
    and find_erase: "ok m \<Longrightarrow> find (erase k m) k' = (if k' = k then None else find m k')"
    and ok_empty: "ok empty"
    and ok_store: "ok m \<Longrightarrow> ok (store k v m)"
    and ok_erase: "ok m \<Longrightarrow> ok (erase k m)"
begin

text \<open>Storing a list of entries one after the other: the last entry of a key wins.\<close>

lemma ok_store_all: "ok m \<Longrightarrow> ok (fold (\<lambda>(k, v). store k v) kvs m)"
  by (induction kvs arbitrary: m) (auto simp: ok_store)

lemma find_store_all:
  "ok m \<Longrightarrow> find (fold (\<lambda>(k, v). store k v) kvs m) k =
    (case map_of (rev kvs) k of None \<Rightarrow> find m k | Some v \<Rightarrow> Some v)"
proof (induction kvs arbitrary: m)
  case (Cons kv kvs)
  obtain k' v where kv: "kv = (k', v)" by (cases kv)
  from Cons.IH [OF ok_store [OF Cons.prems]] show ?case
    by (simp add: kv find_store [OF Cons.prems] map_add_def split: option.split)
qed simp

lemma find_store_all_distinct:
  assumes "ok m" "distinct (map fst kvs)" "(k, v) \<in> set kvs"
  shows "find (fold (\<lambda>(k, v). store k v) kvs m) k = Some v"
proof -
  have "map_of (rev kvs) k = Some v"
    using assms(2,3) by (intro map_of_is_SomeI) (simp_all flip: rev_map)
  with assms(1) show ?thesis by (simp add: find_store_all)
qed

lemma erase_after_store: "ok m \<Longrightarrow> find m k = None \<Longrightarrow> find (erase k (store k v m)) k' = find m k'"
  by (simp add: find_erase ok_store find_store)

end

section \<open>Key-ordered association lists\<close>

type_synonym ('k, 'v) omap = "('k \<times> 'v) list"

fun om_store :: "'k :: linorder \<Rightarrow> 'v \<Rightarrow> ('k, 'v) omap \<Rightarrow> ('k, 'v) omap" where
  "om_store k v [] = [(k, v)]"
| "om_store k v ((k', v') # m) =
     (if k < k' then (k, v) # (k', v') # m
      else if k = k' then (k, v) # m
      else (k', v') # om_store k v m)"

definition om_erase :: "'k :: linorder \<Rightarrow> ('k, 'v) omap \<Rightarrow> ('k, 'v) omap" where
  "om_erase k m = filter (\<lambda>(k', _). k' \<noteq> k) m"

abbreviation om_find :: "('k, 'v) omap \<Rightarrow> 'k \<Rightarrow> 'v option" where
  "om_find \<equiv> map_of"

definition om_ok :: "('k :: linorder, 'v) omap \<Rightarrow> bool" where
  "om_ok m \<longleftrightarrow> sorted_wrt (<) (map fst m)"

lemma om_store_keys: "set (map fst (om_store k v m)) = insert k (set (map fst m))"
  by (induction k v m rule: om_store.induct) auto

lemma om_find_store: "om_ok m \<Longrightarrow> om_find (om_store k v m) k' = (if k' = k then Some v else om_find m k')"
  by (induction k v m rule: om_store.induct) (auto simp: om_ok_def)

lemma om_ok_store: "om_ok m \<Longrightarrow> om_ok (om_store k v m)"
proof (induction k v m rule: om_store.induct)
  case (2 k v k' v' m)
  then show ?case
    using om_store_keys [of k v m] by (fastforce simp: om_ok_def)
qed (simp add: om_ok_def)

lemma om_find_erase: "om_find (om_erase k m) k' = (if k' = k then None else om_find m k')"
  by (induction m) (auto simp: om_erase_def)

lemma om_ok_erase: "om_ok m \<Longrightarrow> om_ok (om_erase k m)"
  by (induction m) (auto simp: om_ok_def om_erase_def)

interpretation om: std_map om_find om_store om_erase "[]" om_ok
proof unfold_locales
  show "om_ok []" by (simp add: om_ok_def)
qed (simp_all add: om_find_store om_find_erase om_ok_store om_ok_erase)

lemma om_ok_distinct: "om_ok m \<Longrightarrow> distinct (map fst m)"
  by (simp add: om_ok_def strict_sorted_iff)

lemma om_find_in_keys: "k \<in> fst ` set m \<longleftrightarrow> om_find m k \<noteq> None"
  by (simp add: map_of_eq_None_iff)

section \<open>HOL maps\<close>

definition hm_store :: "'k \<Rightarrow> 'v \<Rightarrow> ('k \<rightharpoonup> 'v) \<Rightarrow> ('k \<rightharpoonup> 'v)" where
  "hm_store k v m = m(k \<mapsto> v)"

definition hm_erase :: "'k \<Rightarrow> ('k \<rightharpoonup> 'v) \<Rightarrow> ('k \<rightharpoonup> 'v)" where
  "hm_erase k m = m(k := None)"

interpretation hm: std_map "\<lambda>m. m" hm_store hm_erase Map.empty "\<lambda>_. True"
  by unfold_locales (auto simp: hm_store_def hm_erase_def)

end
