(* ===== verification/RpcChannel.thy ===== *)
theory RpcChannel
  imports StdMap
begin

text \<open>
  The RPC channel (muduo/protorpc2/RpcChannel.h and RpcChannel.cc) and the service interface
  it dispatches to (service.h). A channel is both ends at once: it numbers and stores the
  outgoing calls, matches responses with them, and hands requests to a service. Every
  operation returns the new channel and the list of its effects in order.

  Protocol buffers are not part of the repository: a message is a value of a type \<open>'m\<close>,
  \<open>serialize\<close> stands for \<^verbatim>\<open>SerializeAsString\<close>, \<open>parse proto bytes\<close> for
  \<^verbatim>\<open>proto->New()\<close> followed by \<^verbatim>\<open>ParseFromString(bytes)\<close> (the code ignores its
  result), and \<open>descr\<close> for \<^verbatim>\<open>GetDescriptor()\<close>. The codec sends whole messages; sending is
  an effect.
\<close>

section \<open>Messages, services and effects\<close>

datatype message_type = REQUEST | RESPONSE | ERROR

text \<open>\<^verbatim>\<open>RpcMessage\<close>: the fields the code sets or reads; reading an unset string gives "".\<close>

record rpc_message =
  rm_type :: message_type
  rm_id :: int64
  rm_service :: "string option"
  rm_method :: "string option"
  rm_request :: "string option"
  rm_response :: "string option"

definition bytes_of :: "string option \<Rightarrow> string" where
  "bytes_of f = (case f of None \<Rightarrow> [] | Some s \<Rightarrow> s)"

text \<open>\<^verbatim>\<open>MethodDescriptor\<close>, with the names it gives of itself, its service and its types, and
  the two prototypes its service returns for it.\<close>

record 'm method_desc =
  md_name :: string
  md_full_name :: string
  md_service :: string
  md_input :: string
  md_output :: string
  md_request :: 'm
  md_response :: 'm

text \<open>\<^verbatim>\<open>FileDescriptor\<close>: its name, its \<^verbatim>\<open>DebugString()\<close>, and those of its direct
  dependencies.\<close>

record file_desc =
  fd_name :: string
  fd_text :: string
  fd_dependencies :: "(string \<times> string) list"

text \<open>A registered \<^verbatim>\<open>Service\<close>: its descriptor.\<close>

record 'm service =
  sv_full_name :: string
  sv_methods :: "'m method_desc list"
  sv_file :: file_desc

definition FindMethodByName :: "'m service \<Rightarrow> string \<Rightarrow> 'm method_desc option" where
  "FindMethodByName sv name = List.find (\<lambda>m. md_name m = name) (sv_methods sv)"

text \<open>\<open>Call_service\<close> is \<^verbatim>\<open>service->CallMethod\<close> with the bound \<^verbatim>\<open>doneCallback\<close>, which
  is known by its response prototype and call id.\<close>

datatype ('m, 'cb) effect =
    Send rpc_message
  | Run_done 'cb 'm
  | Call_service "'m method_desc" 'm 'm int64
  | Log_error string

datatype failure = Assert_failed | Null_dereference

section \<open>The channel\<close>

record ('m, 'cb) outstanding_call =
  oc_response :: "'m option"
  oc_done :: "'cb option"

record ('m, 'cb, 'conn) channel =
  ch_conn :: "'conn option"
  ch_id :: int64
  ch_outstandings :: "int64 \<rightharpoonup> ('m, 'cb) outstanding_call"
  ch_services :: "(string, 'm service) omap option"

definition RpcChannel_new :: "('m, 'cb, 'conn) channel" where
  "RpcChannel_new = \<lparr>ch_conn = None, ch_id = 0, ch_outstandings = Map.empty, ch_services = None\<rparr>"

definition RpcChannel_conn :: "'conn \<Rightarrow> ('m, 'cb, 'conn) channel" where
  "RpcChannel_conn conn =
     \<lparr>ch_conn = Some conn, ch_id = 0, ch_outstandings = Map.empty, ch_services = None\<rparr>"

definition setConnection :: "'conn option \<Rightarrow> ('m, 'cb, 'conn) channel \<Rightarrow> ('m, 'cb, 'conn) channel" where
  "setConnection conn ch = ch\<lparr>ch_conn := conn\<rparr>"

definition getServices :: "('m, 'cb, 'conn) channel \<Rightarrow> (string, 'm service) omap option" where
  "getServices ch = ch_services ch"

definition setServices ::
  "(string, 'm service) omap \<Rightarrow> ('m, 'cb, 'conn) channel \<Rightarrow> ('m, 'cb, 'conn) channel" where
  "setServices services ch = ch\<lparr>ch_services := Some services\<rparr>"

text \<open>A call as the generated stub makes it.\<close>

record ('m, 'cb) rpc_call =
  rc_method :: "'m method_desc"
  rc_request :: 'm
  rc_response :: "'m option"
  rc_done :: "'cb option"

text \<open>
  \<^verbatim>\<open>CallMethod\<close> has three steps that other threads can see: the atomic increment of the
  counter, the insertion under the mutex, and the send.
\<close>

definition call_next_id :: "('m, 'cb, 'conn) channel \<Rightarrow> int64 \<times> ('m, 'cb, 'conn) channel" where
  "call_next_id ch = (ch_id ch + 1, ch\<lparr>ch_id := ch_id ch + 1\<rparr>)"

definition request_message :: "('m \<Rightarrow> string) \<Rightarrow> int64 \<Rightarrow> ('m, 'cb) rpc_call \<Rightarrow> rpc_message" where
  "request_message serialize cid c =
     \<lparr>rm_type = REQUEST, rm_id = cid, rm_service = Some (md_service (rc_method c)),
      rm_method = Some (md_name (rc_method c)), rm_request = Some (serialize (rc_request c)),
      rm_response = None\<rparr>"

definition call_store ::
  "int64 \<Rightarrow> ('m, 'cb) rpc_call \<Rightarrow> ('m, 'cb, 'conn) channel \<Rightarrow> ('m, 'cb, 'conn) channel" where
  "call_store cid c ch =
     ch\<lparr>ch_outstandings :=
       hm_store cid \<lparr>oc_response = rc_response c, oc_done = rc_done c\<rparr> (ch_outstandings ch)\<rparr>"

definition CallMethod ::
  "('m \<Rightarrow> string) \<Rightarrow> ('m, 'cb) rpc_call \<Rightarrow> ('m, 'cb, 'conn) channel \<Rightarrow>
     ('m, 'cb, 'conn) channel \<times> ('m, 'cb) effect list" where
  "CallMethod serialize c ch =
     (let (cid, ch) = call_next_id ch;
          message = request_message serialize cid c;
          ch = call_store cid c ch
      in (ch, [Send message]))"

text \<open>\<^verbatim>\<open>onDisconnect\<close> is empty in the source.\<close>

definition onDisconnect :: "('m, 'cb, 'conn) channel \<Rightarrow> ('m, 'cb, 'conn) channel" where
  "onDisconnect ch = ch"

section \<open>Incoming messages\<close>

definition callServiceMethod ::
  "('m \<Rightarrow> string \<Rightarrow> 'm) \<Rightarrow> ('m, 'cb, 'conn) channel \<Rightarrow> rpc_message \<Rightarrow> ('m, 'cb) effect list" where
  "callServiceMethod parse ch message =
     (case ch_services ch of
        None \<Rightarrow> []
      | Some services \<Rightarrow>
          (case om_find services (bytes_of (rm_service message)) of
             None \<Rightarrow> []
           | Some service \<Rightarrow>
               (case FindMethodByName service (bytes_of (rm_method message)) of
                  None \<Rightarrow> []
                | Some md \<Rightarrow>
                    [Call_service md (parse (md_request md) (bytes_of (rm_request message)))
                       (md_response md) (rm_id message)])))"

text \<open>The handler's \<^verbatim>\<open>done\<close>; the message pointer it passes may be null.\<close>

definition doneCallback ::
  "('m \<Rightarrow> string) \<Rightarrow> ('m \<Rightarrow> 't) \<Rightarrow> 'm \<Rightarrow> 'm option \<Rightarrow> int64 \<Rightarrow> failure + ('m, 'cb) effect list" where
  "doneCallback serialize descr responsePrototype response cid =
     (case response of
        None \<Rightarrow> Inl Null_dereference
      | Some r \<Rightarrow>
          if descr r = descr responsePrototype then
            Inr [Send \<lparr>rm_type = RESPONSE, rm_id = cid, rm_service = None, rm_method = None,
                       rm_request = None, rm_response = Some (serialize r)\<rparr>]
          else Inl Assert_failed)"

definition onRpcMessage ::
  "('m \<Rightarrow> string \<Rightarrow> 'm) \<Rightarrow> 'conn option \<Rightarrow> rpc_message \<Rightarrow> ('m, 'cb, 'conn) channel \<Rightarrow>
     failure + ('m, 'cb, 'conn) channel \<times> ('m, 'cb) effect list" where
  "onRpcMessage parse conn message ch =
     (if conn \<noteq> ch_conn ch then Inl Assert_failed
      else case rm_type message of
        RESPONSE \<Rightarrow>
          (case rm_response message of
             None \<Rightarrow> Inl Assert_failed
           | Some bytes \<Rightarrow>
               (let cid = rm_id message;
                    (out, ch', errs) =
                      (case ch_outstandings ch cid of
                         Some out \<Rightarrow>
                           (out, ch\<lparr>ch_outstandings := hm_erase cid (ch_outstandings ch)\<rparr>, [])
                       | None \<Rightarrow>
                           (\<lparr>oc_response = None, oc_done = None\<rparr>, ch, [Log_error ''Unknown RESPONSE'']))
                in case oc_response out of
                     Some proto \<Rightarrow>
                       (let response = parse proto bytes in
                        Inr (ch', errs @ (case oc_done out of None \<Rightarrow> [] | Some cb \<Rightarrow> [Run_done cb response])))
                   | None \<Rightarrow> Inr (ch', errs @ [Log_error ''No Response prototype''])))
      | REQUEST \<Rightarrow> Inr (ch, callServiceMethod parse ch message)
      | ERROR \<Rightarrow> Inr (ch, []))"

section \<open>One call from end to end\<close>

lemma CallMethod_eq:
  "CallMethod serialize c ch =
     (call_store (ch_id ch + 1) c (ch\<lparr>ch_id := ch_id ch + 1\<rparr>),
      [Send (request_message serialize (ch_id ch + 1) c)])"
  by (simp add: CallMethod_def call_next_id_def)

lemma onRpcMessage_request:
  "conn = ch_conn ch \<Longrightarrow> rm_type message = REQUEST \<Longrightarrow>
     onRpcMessage parse conn message ch = Inr (ch, callServiceMethod parse ch message)"
  by (simp add: onRpcMessage_def)

lemma onRpcMessage_known:
  assumes "conn = ch_conn ch" "rm_type message = RESPONSE" "rm_response message = Some bytes"
    and "ch_outstandings ch (rm_id message) = Some out"
  shows "onRpcMessage parse conn message ch =
    Inr (ch\<lparr>ch_outstandings := hm_erase (rm_id message) (ch_outstandings ch)\<rparr>,
      (case oc_response out of None \<Rightarrow> [Log_error ''No Response prototype'']
       | Some proto \<Rightarrow> (case oc_done out of None \<Rightarrow> [] | Some cb \<Rightarrow> [Run_done cb (parse proto bytes)])))"
  using assms by (simp add: onRpcMessage_def split: option.split)

lemma onRpcMessage_unknown:
  assumes "conn = ch_conn ch" "rm_type message = RESPONSE" "rm_response message = Some bytes"
    and "ch_outstandings ch (rm_id message) = None"
  shows "onRpcMessage parse conn message ch =
    Inr (ch, [Log_error ''Unknown RESPONSE'', Log_error ''No Response prototype''])"
  using assms by (simp add: onRpcMessage_def)

text \<open>The message's destination on a channel with services.\<close>

definition resolve_method ::
  "(string, 'm service) omap \<Rightarrow> string \<Rightarrow> string \<Rightarrow> 'm method_desc option" where
  "resolve_method services sname mname =
     (case om_find services sname of None \<Rightarrow> None | Some sv \<Rightarrow> FindMethodByName sv mname)"

lemma callServiceMethod_eq:
  "ch_services ch = Some services \<Longrightarrow>
     callServiceMethod parse ch message =
       (case resolve_method services (bytes_of (rm_service message)) (bytes_of (rm_method message)) of
          None \<Rightarrow> []
        | Some md \<Rightarrow> [Call_service md (parse (md_request md) (bytes_of (rm_request message)))
                        (md_response md) (rm_id message)])"
  by (simp add: callServiceMethod_def resolve_method_def split: option.split)

text \<open>What the code relies on of the protocol buffer library: parsing into a new message of
  the same type gives back a serialized message.\<close>

definition protobuf_ok :: "('m \<Rightarrow> string) \<Rightarrow> ('m \<Rightarrow> string \<Rightarrow> 'm) \<Rightarrow> ('m \<Rightarrow> 't) \<Rightarrow> bool" where
  "protobuf_ok serialize parse descr \<longleftrightarrow>
     (\<forall>proto m. descr proto = descr m \<longrightarrow> parse proto (serialize m) = m)"

lemma parse_serialize:
  "protobuf_ok serialize parse descr \<Longrightarrow> descr proto = descr m \<Longrightarrow> parse proto (serialize m) = m"
  by (simp add: protobuf_ok_def)

text \<open>
  A call to a method that the other side has, whose handler answers with a message of the
  declared type: the handler sees the request, the callback gets the answer, the client's
  table of calls is as before.
\<close>

lemma call_round_trip:
  assumes pb: "protobuf_ok serialize parse descr"
    and fresh: "ch_outstandings cl (ch_id cl + 1) = None"
    and cl: "ch_conn cl = Some conn" and sv: "ch_conn sv = Some conn'" "ch_services sv = Some services"
    and call: "rc_response c = Some proto" "rc_done c = Some cb"
    and meth: "resolve_method services (md_service (rc_method c)) (md_name (rc_method c)) = Some md"
    and typs: "descr (md_request md) = descr (rc_request c)" "descr (md_response md) = descr proto"
    and answer: "descr answer = descr proto"
  obtains cl' cl'' req resp where
    "CallMethod serialize c cl = (cl', [Send req])"
    "onRpcMessage parse (Some conn') req sv =
       Inr (sv, [Call_service md (rc_request c) (md_response md) (rm_id req)])"
    "doneCallback serialize descr (md_response md) (Some answer) (rm_id req) =
       (Inr [Send resp] :: failure + ('m, 'cb) effect list)"
    "onRpcMessage parse (Some conn) resp cl' = Inr (cl'', [Run_done cb answer])"
    "ch_outstandings cl'' = ch_outstandings cl"
proof -
  let ?id = "ch_id cl + 1"
  let ?cl' = "call_store ?id c (cl\<lparr>ch_id := ?id\<rparr>)"
  let ?req = "request_message serialize ?id c"
  let ?resp = "\<lparr>rm_type = RESPONSE, rm_id = ?id, rm_service = None, rm_method = None,
    rm_request = None, rm_response = Some (serialize answer)\<rparr>"
  let ?cl'' = "?cl'\<lparr>ch_outstandings := hm_erase ?id (ch_outstandings ?cl')\<rparr>"
  show thesis
  proof (rule that)
    show "CallMethod serialize c cl = (?cl', [Send ?req])" by (rule CallMethod_eq)
    show "onRpcMessage parse (Some conn') ?req sv =
        Inr (sv, [Call_service md (rc_request c) (md_response md) (rm_id ?req)])"
      using sv meth typs parse_serialize [OF pb]
      by (simp add: onRpcMessage_request callServiceMethod_eq request_message_def bytes_of_def)
    show "doneCallback serialize descr (md_response md) (Some answer) (rm_id ?req) =
        (Inr [Send ?resp] :: failure + ('m, 'cb) effect list)"
      using typs answer by (simp add: doneCallback_def request_message_def)
    have "ch_outstandings ?cl' ?id = Some \<lparr>oc_response = Some proto, oc_done = Some cb\<rparr>"
      using call by (simp add: call_store_def hm_store_def)
    then show "onRpcMessage parse (Some conn) ?resp ?cl' = Inr (?cl'', [Run_done cb answer])"
      using cl answer parse_serialize [OF pb, of proto answer]
      by (subst onRpcMessage_known) (auto simp: call_store_def)
    show "ch_outstandings ?cl'' = ch_outstandings cl"
      using fresh by (auto simp: call_store_def hm_store_def hm_erase_def)
  qed
qed

end
