(* ===== verification/Connections.thy ===== *)
theory Connections
  imports CLib RpcChannel
begin

text \<open>
  How the clients of the examples wait for their connections: each client has a pointer to a latch, which
  it counts down at its first connection only. The locale \<open>latch_client\<close> states what such a client
  promises, and proves when a latch for several clients goes down to zero. It is interpreted for the
  clients of the median collector (examples/median/collector.cc) and of the word-frequency controller
  (examples/wordfreq/control.cc), whose connection and start are modelled here. \<^verbatim>\<open>TcpClient\<close>
  makes the connections and calls \<^verbatim>\<open>onConnection\<close>; a latch is the number it has left.
\<close>

section \<open>Clients that count down a latch once\<close>

text \<open>Connection events: which client, on which connection, and whether it is up; the second result of
  \<open>onConn\<close> tells whether the latch was counted down.\<close>

fun connection_events :: "('conn \<Rightarrow> bool \<Rightarrow> 's \<Rightarrow> 's \<times> bool) \<Rightarrow> (nat \<times> 'conn \<times> bool) list \<Rightarrow>
    's list \<times> int \<Rightarrow> 's list \<times> int" where
  "connection_events onConn [] s = s"
| "connection_events onConn ((i, conn, up) # es) (cs, latch) =
     (let (c, down) = onConn conn up (cs ! i)
      in connection_events onConn es (cs[i := c], if down then latch - 1 else latch))"

definition came_up :: "nat \<Rightarrow> (nat \<times> 'conn \<times> bool) list \<Rightarrow> bool" where
  "came_up i es \<longleftrightarrow> (\<exists>conn. (i, conn, True) \<in> set es)"

locale latch_client =
  fixes onConn :: "'conn \<Rightarrow> bool \<Rightarrow> 's \<Rightarrow> 's \<times> bool"
    and connect :: "'s \<Rightarrow> 's"
    and armed :: "'s \<Rightarrow> bool"
    and conn_of :: "'s \<Rightarrow> 'conn option"
  assumes connect_arms: "armed (connect s)"
    and up_disarms: "armed (fst (onConn conn True s)) \<longleftrightarrow> False" "snd (onConn conn True s) \<longleftrightarrow> armed s"
    and up_connects: "conn_of (fst (onConn conn True s)) = Some conn"
    and down_keeps: "armed (fst (onConn conn False s)) \<longleftrightarrow> armed s" "snd (onConn conn False s) \<longleftrightarrow> False"
      "conn_of (fst (onConn conn False s)) = conn_of s"
begin

definition waiting_clients :: "'s list \<Rightarrow> nat" where
  "waiting_clients cs = length (filter armed cs)"

lemma waiting_update:
  assumes "i < length cs"
  shows "int (waiting_clients (cs[i := c])) =
    int (waiting_clients cs) - (if armed (cs ! i) then 1 else 0) + (if armed c then 1 else 0)"
  unfolding waiting_clients_def using assms by (rule filter_update)

text \<open>The latch is the number of the clients that still wait, and these are those that never came up.\<close>

lemma events_latch:
  assumes "\<forall>(i, conn, up)\<in>set es. i < length cs" "latch = int (waiting_clients cs)"
    "connection_events onConn es (cs, latch) = (cs', latch')"
  shows "latch' = int (waiting_clients cs') \<and> length cs' = length cs \<and>
    (\<forall>i<length cs. (armed (cs' ! i) \<longleftrightarrow> armed (cs ! i) \<and> \<not> came_up i es) \<and>
       (came_up i es \<longrightarrow> conn_of (cs' ! i) \<noteq> None) \<and> (conn_of (cs ! i) \<noteq> None \<longrightarrow> conn_of (cs' ! i) \<noteq> None))"
  using assms
proof (induction es arbitrary: cs latch)
  case Nil
  then show ?case by (auto simp: came_up_def)
next
  case (Cons e es)
  obtain i conn up where e: "e = (i, conn, up)" by (cases e)
  obtain c down where c: "onConn conn up (cs ! i) = (c, down)" by (cases "onConn conn up (cs ! i)")
  have i: "i < length cs" using Cons.prems(1) e by auto
  have c': "armed c \<longleftrightarrow> armed (cs ! i) \<and> \<not> up" "down \<longleftrightarrow> up \<and> armed (cs ! i)"
    "up \<longrightarrow> conn_of c \<noteq> None" "conn_of (cs ! i) \<noteq> None \<longrightarrow> conn_of c \<noteq> None"
    using c up_disarms [of conn "cs ! i"] up_connects [of conn "cs ! i"] down_keeps [of conn "cs ! i"]
    by (cases up; simp)+
  have IH: "latch' = int (waiting_clients cs') \<and> length cs' = length (cs[i := c]) \<and>
    (\<forall>j<length (cs[i := c]). (armed (cs' ! j) \<longleftrightarrow> armed (cs[i := c] ! j) \<and> \<not> came_up j es) \<and>
       (came_up j es \<longrightarrow> conn_of (cs' ! j) \<noteq> None) \<and> (conn_of (cs[i := c] ! j) \<noteq> None \<longrightarrow> conn_of (cs' ! j) \<noteq> None))"
  proof (rule Cons.IH)
    show "\<forall>(i', conn, up)\<in>set es. i' < length (cs[i := c])" using Cons.prems(1) by auto
    show "(if down then latch - 1 else latch) = int (waiting_clients (cs[i := c]))"
      using Cons.prems(2) c' i by (auto simp: waiting_update)
    show "connection_events onConn es (cs[i := c], if down then latch - 1 else latch) = (cs', latch')"
      using Cons.prems(3) e c by simp
  qed
  have cu: "came_up j (e # es) \<longleftrightarrow> came_up j es \<or> j = i \<and> up" for j by (auto simp: came_up_def e)
  have "(armed (cs' ! j) \<longleftrightarrow> armed (cs ! j) \<and> \<not> came_up j (e # es)) \<and>
       (came_up j (e # es) \<longrightarrow> conn_of (cs' ! j) \<noteq> None) \<and> (conn_of (cs ! j) \<noteq> None \<longrightarrow> conn_of (cs' ! j) \<noteq> None)"
    if j: "j < length cs" for j
  proof (cases "j = i")
    case True
    with IH i have "(armed (cs' ! i) \<longleftrightarrow> armed c \<and> \<not> came_up i es) \<and> (came_up i es \<longrightarrow> conn_of (cs' ! i) \<noteq> None) \<and>
        (conn_of c \<noteq> None \<longrightarrow> conn_of (cs' ! i) \<noteq> None)" by simp
    with c' True show ?thesis unfolding cu by blast
  next
    case False
    with IH j show ?thesis unfolding cu by simp
  qed
  with IH show ?case by simp
qed

lemma all_connected:
  assumes "\<forall>(i, conn, up)\<in>set es. i < length cs"
    "connection_events onConn es (map connect cs, int (length cs)) = (cs', latch)"
  shows "0 \<le> latch \<and> latch = int (card {i. i < length cs \<and> \<not> came_up i es}) \<and>
    (latch = 0 \<longrightarrow> list_all (\<lambda>c. conn_of c \<noteq> None) cs')"
proof -
  have "filter armed (map connect cs) = map connect cs" using connect_arms by (simp add: filter_id_conv)
  then have start: "int (length cs) = int (waiting_clients (map connect cs))" by (simp add: waiting_clients_def)
  have idx: "\<forall>(i, conn, up)\<in>set es. i < length (map connect cs)" using assms(1) by simp
  note r = events_latch [OF idx start assms(2)]
  then have len: "length cs' = length cs" and arm: "\<And>i. i < length cs \<Longrightarrow> armed (cs' ! i) \<longleftrightarrow> \<not> came_up i es"
    and con: "\<And>i. i < length cs \<Longrightarrow> came_up i es \<Longrightarrow> conn_of (cs' ! i) \<noteq> None"
    using connect_arms by simp_all
  have latch: "latch = int (card {i. i < length cs \<and> \<not> came_up i es})"
  proof -
    have "waiting_clients cs' = card {i. i < length cs' \<and> armed (cs' ! i)}"
      by (simp add: waiting_clients_def length_filter_conv_card)
    also have "{i. i < length cs' \<and> armed (cs' ! i)} = {i. i < length cs \<and> \<not> came_up i es}" using len arm by auto
    finally show ?thesis using r by simp
  qed
  moreover have "list_all (\<lambda>c. conn_of c \<noteq> None) cs'" if "latch = 0"
  proof -
    have "{i. i < length cs \<and> \<not> came_up i es} = {}" using that latch by simp
    then have "\<forall>i<length cs. came_up i es" by auto
    with con len show ?thesis by (simp add: list_all_length)
  qed
  ultimately show ?thesis by simp
qed

end

section \<open>The median collector\<close>

record 'conn median_client =
  me_address :: "string \<times> int"
  me_latch :: bool
  me_channel :: "(unit, unit, 'conn) channel"

definition new_median_client :: "string \<times> int \<Rightarrow> 'conn median_client" where
  "new_median_client serverAddr = \<lparr>me_address = serverAddr, me_latch = False, me_channel = RpcChannel_new\<rparr>"

definition median_client_connect :: "'conn median_client \<Rightarrow> 'conn median_client" where
  "median_client_connect c = c\<lparr>me_latch := True\<rparr>"

definition median_onConnection :: "'conn \<Rightarrow> bool \<Rightarrow> 'conn median_client \<Rightarrow> 'conn median_client \<times> bool" where
  "median_onConnection conn connected c =
     (if connected then
        (let c = c\<lparr>me_channel := setConnection (Some conn) (me_channel c)\<rparr>
         in if me_latch c then (c\<lparr>me_latch := False\<rparr>, True) else (c, False))
      else (c, False))"

definition new_median_collector :: "(string \<times> int) list \<Rightarrow> 'conn median_client list" where
  "new_median_collector addresses = map new_median_client addresses"

text \<open>\<^verbatim>\<open>connect\<close>: the clients and the latch; it waits until the latch is down.\<close>

definition median_connect :: "'conn median_client list \<Rightarrow> 'conn median_client list \<times> int" where
  "median_connect sorters = (map median_client_connect sorters, int (length sorters))"

text \<open>The addresses, with those that are invalid reported and left out.\<close>

fun getAddresses :: "string list \<Rightarrow> (string \<times> int) list \<times> string list" where
  "getAddresses [] = ([], [])"
| "getAddresses (addr # args) =
     (let (result, errors) = getAddresses args
      in case parse_address addr of Some a \<Rightarrow> (a # result, errors) | None \<Rightarrow> (result, addr # errors))"

text \<open>\<^verbatim>\<open>main\<close> up to the end of the wait, with the connection events in between: the connected
  collector, on which \<^verbatim>\<open>run\<close> is called.\<close>

definition median_main :: "string list \<Rightarrow> (nat \<times> 'conn \<times> bool) list \<Rightarrow> 'conn median_client list option" where
  "median_main args es =
     (if args = [] then None
      else
        (let (cs, latch) = connection_events median_onConnection es
               (median_connect (new_median_collector (fst (getAddresses args))))
         in if latch = 0 then Some cs else None))"

interpretation median_clients: latch_client median_onConnection median_client_connect me_latch "\<lambda>c. ch_conn (me_channel c)"
  by unfold_locales (simp_all add: median_client_connect_def median_onConnection_def setConnection_def Let_def)

section \<open>The word-frequency controller\<close>

record 'conn control_client =
  co_name :: "string \<times> int"
  co_latch :: bool
  co_channel :: "(unit, unit, 'conn) channel"

definition new_control_client :: "string \<times> int \<Rightarrow> 'conn control_client" where
  "new_control_client serverAddr = \<lparr>co_name = serverAddr, co_latch = False, co_channel = RpcChannel_new\<rparr>"

definition control_client_connect :: "'conn control_client \<Rightarrow> 'conn control_client" where
  "control_client_connect c = c\<lparr>co_latch := True\<rparr>"

definition control_onConnection :: "'conn \<Rightarrow> bool \<Rightarrow> 'conn control_client \<Rightarrow> 'conn control_client \<times> bool" where
  "control_onConnection conn connected c =
     (if connected then
        (let c = c\<lparr>co_channel := setConnection (Some conn) (co_channel c)\<rparr>
         in if co_latch c then (c\<lparr>co_latch := False\<rparr>, True) else (c, False))
      else (c, False))"

interpretation control_clients: latch_client control_onConnection control_client_connect co_latch "\<lambda>c. ch_conn (co_channel c)"
  by unfold_locales (simp_all add: control_client_connect_def control_onConnection_def setConnection_def Let_def)

section \<open>Properties\<close>

lemma getAddresses_eq:
  "getAddresses args = (map (\<lambda>a. the (parse_address a)) (filter (\<lambda>a. CHR '':'' \<in> set a) args),
     filter (\<lambda>a. CHR '':'' \<notin> set a) args)"
proof (induction args)
  case (Cons a args)
  then show ?case using parse_address_None [of a] by (auto split: option.split)
qed simp


definition example_connections :: "(nat \<times> nat \<times> bool) list" where
  "example_connections = [(1, 10, True), (1, 10, False), (1, 11, True), (0, 12, True)]"


end
