(* ===== verification/NQueens.thy ===== *)
theory NQueens
  imports Prelude
begin

text \<open>
  The solver of the N-queens example (examples/nqueens/server.cc): backtracking over three
  arrays of 32-bit masks, one entry per row. A mask has a 1 for an attacked column; the
  diagonal masks are shifted by one when the search goes down a row. Array accesses outside
  the \<^verbatim>\<open>kMaxQueens\<close> entries, shifts by a negative or too large amount and failing
  assertions give \<open>None\<close>.
\<close>

section \<open>The code\<close>

definition kMaxQueens :: nat where
  "kMaxQueens = 20"

record BackTracking =
  bt_N :: nat
  bt_count :: int
  columns :: "uint32 list"
  diagnoal :: "uint32 list"
  antidiagnoal :: "uint32 list"

text \<open>The constructor: \<^verbatim>\<open>assert(0 < N && N <= kMaxQueens)\<close>, all masks 0.\<close>

definition newBackTracking :: "int \<Rightarrow> BackTracking option" where
  "newBackTracking nqueens =
     (if 0 < nqueens \<and> nqueens \<le> int kMaxQueens then
        Some \<lparr>bt_N = nat nqueens, bt_count = 0, columns = replicate kMaxQueens 0,
              diagnoal = replicate kMaxQueens 0, antidiagnoal = replicate kMaxQueens 0\<rparr>
      else None)"

text \<open>\<^verbatim>\<open>__builtin_ctz\<close>: the index of the lowest set bit.\<close>

definition builtin_ctz :: "uint32 \<Rightarrow> nat" where
  "builtin_ctz x = length (takeWhile (\<lambda>i. \<not> bit x i) [0..<32])"

definition place :: "nat \<Rightarrow> uint32 \<Rightarrow> BackTracking \<Rightarrow> BackTracking" where
  "place row m bt =
     bt\<lparr>columns := (columns bt)[row + 1 := columns bt ! row OR m],
        diagnoal := (diagnoal bt)[row + 1 := drop_bit 1 (diagnoal bt ! row OR m)],
        antidiagnoal := (antidiagnoal bt)[row + 1 := push_bit 1 (antidiagnoal bt ! row OR m)]\<rparr>"

text \<open>The bit tricks of the loop: \<^verbatim>\<open>avail & (avail - 1)\<close> drops the lowest set bit.\<close>

lemma builtin_ctz:
  assumes "x \<noteq> 0"
  shows "bit x (builtin_ctz x)" "\<forall>i < builtin_ctz x. \<not> bit x i" "builtin_ctz x < 32"
proof -
  have "\<exists>i < 32. bit x i"
  proof (rule ccontr)
    assume "\<not> ?thesis"
    then have "x = 0" by (intro bit_word_eqI) auto
    with assms show False by simp
  qed
  then have "takeWhile (\<lambda>i. \<not> bit x i) [0..<32] \<noteq> [0..<32]"
    by (auto simp: takeWhile_eq_all_conv)
  then have lt: "length (takeWhile (\<lambda>i. \<not> bit x i) [0..<32]) < length [0..<32]"
    by (metis length_takeWhile_le nat_less_le takeWhile_eq_take take_all_iff)
  then show "builtin_ctz x < 32" by (simp add: builtin_ctz_def)
  show "bit x (builtin_ctz x)"
    using nth_length_takeWhile [OF lt] lt by (simp add: builtin_ctz_def)
  show "\<forall>i < builtin_ctz x. \<not> bit x i"
  proof (intro allI impI)
    fix i assume "i < builtin_ctz x"
    then have i: "i < length (takeWhile (\<lambda>i. \<not> bit x i) [0..<32])"
      by (simp add: builtin_ctz_def)
    from nth_mem [OF i] takeWhile_nth [OF i] lt i show "\<not> bit x i"
      by (auto dest!: set_takeWhileD)
  qed
qed

lemma clear_lowest_bit:
  assumes "x \<noteq> (0 :: uint32)"
  shows "bit (x AND (x - 1)) i \<longleftrightarrow> bit x i \<and> i \<noteq> builtin_ctz x"
proof -
  let ?k = "builtin_ctz x"
  define y where "y = x AND NOT (mask (Suc ?k))"
  have bit_y: "bit y j \<longleftrightarrow> bit x j \<and> ?k < j" for j
    by (auto simp: y_def bit_simps dest: bit_imp_le_length)
  have "y OR push_bit ?k 1 = x"
    using builtin_ctz [OF assms]
    by (intro bit_word_eqI) (auto simp: bit_y bit_simps nat_neq_iff)
  moreover have "y + push_bit ?k 1 = y OR push_bit ?k 1"
    by (intro disjunctive_add) (auto simp: bit_y bit_simps)
  ultimately have x: "x = y + push_bit ?k 1" by simp
  have "x - 1 = y + mask ?k"
    by (subst x) (simp add: mask_eq_exp_minus_1 push_bit_eq_mult)
  also have "\<dots> = y OR mask ?k"
    by (intro disjunctive_add) (auto simp: bit_y bit_simps)
  finally have x1: "x - 1 = y OR mask ?k" .
  show ?thesis
    unfolding x1 using builtin_ctz [OF assms]
    by (auto simp: bit_y bit_simps)
qed

lemma clear_lowest_less:
  assumes "x \<noteq> (0 :: uint32)"
  shows "x AND (x - 1) < x"
proof -
  have "x AND (x - 1) \<le> x" by (rule word_and_le2)
  moreover have "x AND (x - 1) \<noteq> x"
    using clear_lowest_bit [OF assms, of "builtin_ctz x"] builtin_ctz(1) [OF assms] by metis
  ultimately show ?thesis by simp
qed


text \<open>
  \<open>search row\<close> computes \<open>avail\<close> and enters the \<^verbatim>\<open>while\<close> loop; \<open>search_while\<close> is one
  evaluation of its condition. A queen in the last row counts, in any other row the masks of
  the next row are written and the search recurses.
\<close>

function search :: "nat \<Rightarrow> BackTracking \<Rightarrow> BackTracking option"
  and search_while :: "nat \<Rightarrow> uint32 \<Rightarrow> BackTracking \<Rightarrow> BackTracking option" where
  "search row bt =
     (if row < kMaxQueens then
        search_while row (NOT (columns bt ! row OR diagnoal bt ! row OR antidiagnoal bt ! row)) bt
      else None)"
| "search_while row avail bt =
     (if avail \<noteq> 0 then
        (let i = builtin_ctz avail in
         if bt_N bt \<le> i then Some bt
         else if row = bt_N bt - 1 then
           search_while row (avail AND (avail - 1)) (bt\<lparr>bt_count := bt_count bt + 1\<rparr>)
         else if row + 1 < kMaxQueens then
           (case search (row + 1) (place row (push_bit i 1) bt) of
              None \<Rightarrow> None
            | Some bt' \<Rightarrow> search_while row (avail AND (avail - 1)) bt')
         else None)
      else Some bt)"
  by pat_completeness auto
termination
proof (relation "measures [\<lambda>x. case x of Inl (row, bt) \<Rightarrow> kMaxQueens - row
      | Inr (row, avail, bt) \<Rightarrow> kMaxQueens - row,
    \<lambda>x. case x of Inl (row, bt) \<Rightarrow> 2 ^ 32 | Inr (row, avail, bt) \<Rightarrow> unat avail]", goal_cases)
  case (2 row bt)
  have "unat (w :: uint32) < 2 ^ LENGTH(32)" for w by (rule unsigned_less)
  with 2 show ?case by simp
next
  case (3 row avail bt i)
  then show ?case using clear_lowest_less [of avail] by (simp add: word_less_nat_alt)
next
  case (4 row avail bt i)
  then have "kMaxQueens - (row + 1) < kMaxQueens - row" by linarith
  then show ?case by simp
next
  case (5 row avail bt i bt')
  then show ?case using clear_lowest_less [of avail] by (simp add: word_less_nat_alt)
qed simp

declare search.simps [simp del] search_while.simps [simp del]

text \<open>\<^verbatim>\<open>1 << n\<close>, undefined outside \<open>[0, 32)\<close>.\<close>

definition shift_one :: "int \<Rightarrow> uint32 option" where
  "shift_one n = (if 0 \<le> n \<and> n < 32 then Some (push_bit (nat n) 1) else None)"

text \<open>The first row is fixed, and the second one too unless \<open>second_row\<close> is negative.\<close>

definition backtrackingsub :: "int \<Rightarrow> int \<Rightarrow> int \<Rightarrow> int option" where
  "backtrackingsub n first_row second_row =
     (case shift_one first_row of None \<Rightarrow> None | Some m0 \<Rightarrow>
      (case newBackTracking n of None \<Rightarrow> None | Some bt0 \<Rightarrow>
       (let bt = bt0\<lparr>columns := (columns bt0)[1 := m0],
                     diagnoal := (diagnoal bt0)[1 := drop_bit 1 m0],
                     antidiagnoal := (antidiagnoal bt0)[1 := push_bit 1 m0]\<rparr>
        in if 0 \<le> second_row then
             (case shift_one second_row of None \<Rightarrow> None | Some m1 \<Rightarrow>
              (let avail = NOT (columns bt ! 1 OR diagnoal bt ! 1 OR antidiagnoal bt ! 1)
               in if avail AND m1 \<noteq> 0
                  then map_option bt_count (search 2 (place 1 m1 bt))
                  else Some 0))
           else map_option bt_count (search 1 bt))))"

section \<open>Specification\<close>

text \<open>
  A placement lists the column of the queen of each row, from row 0. \<open>attacked qs c\<close> says
  that a queen of \<open>qs\<close> attacks column \<open>c\<close> of the next row.
\<close>

definition attacked :: "nat list \<Rightarrow> nat \<Rightarrow> bool" where
  "attacked qs c \<longleftrightarrow> (\<exists>j < length qs. qs ! j = c \<or> qs ! j = c + (length qs - j)
     \<or> c = qs ! j + (length qs - j))"

text \<open>The number of ways to place queens in \<open>m\<close> further rows.\<close>

fun completions :: "nat \<Rightarrow> nat \<Rightarrow> nat list \<Rightarrow> nat" where
  "completions n 0 qs = 1"
| "completions n (Suc m) qs =
     (\<Sum>c | c < n \<and> \<not> attacked qs c. completions n m (qs @ [c]))"


section \<open>The masks represent the attacks\<close>

definition represents :: "nat list \<Rightarrow> BackTracking \<Rightarrow> bool" where
  "represents qs bt \<longleftrightarrow>
     length (columns bt) = kMaxQueens \<and> length (diagnoal bt) = kMaxQueens \<and>
     length (antidiagnoal bt) = kMaxQueens \<and> bt_N bt \<le> kMaxQueens \<and>
     length qs < bt_N bt \<and> (\<forall>q\<in>set qs. q < bt_N bt) \<and>
     (\<forall>i<32. bit (columns bt ! length qs) i \<longleftrightarrow> (\<exists>j<length qs. qs ! j = i)) \<and>
     (\<forall>i<32. bit (diagnoal bt ! length qs) i \<longleftrightarrow> (\<exists>j<length qs. qs ! j = i + (length qs - j))) \<and>
     (\<forall>i<32. bit (antidiagnoal bt ! length qs) i \<longleftrightarrow> (\<exists>j<length qs. i = qs ! j + (length qs - j)))"

lemma represents_avail:
  assumes "represents qs bt" "c < bt_N bt"
  shows "bit (NOT (columns bt ! length qs OR diagnoal bt ! length qs OR antidiagnoal bt ! length qs)) c
    \<longleftrightarrow> \<not> attacked qs c"
proof -
  have "c < 32" using assms by (simp add: represents_def kMaxQueens_def)
  with assms(1) show ?thesis
    by (auto simp: represents_def attacked_def bit_simps)
qed

lemma bit_push_bit1: "i < 32 \<Longrightarrow> bit (push_bit 1 (w :: uint32)) i \<longleftrightarrow> 0 < i \<and> bit w (i - 1)"
  by (simp only: bit_push_bit_iff) auto

lemma bit_one_bit: "c < 32 \<Longrightarrow> bit (push_bit c (1 :: uint32)) i \<longleftrightarrow> i = c"
  by (auto simp: bit_simps)

lemma ex_less_Suc: "(\<exists>j < Suc n. P j) \<longleftrightarrow> (\<exists>j < n. P j) \<or> P n"
  by (auto simp: less_Suc_eq)

lemma represents_place:
  assumes "represents qs bt" "c < bt_N bt" "length qs + 1 < bt_N bt"
  shows "represents (qs @ [c]) (place (length qs) (push_bit c 1) bt)"
proof -
  let ?r = "length qs" and ?bt = "place (length qs) (push_bit c 1) bt"
  have r: "Suc ?r < kMaxQueens" "c < 32" "\<forall>q\<in>set qs. q < 32"
    using assms by (auto simp: represents_def kMaxQueens_def)
  have ex: "(\<exists>j<Suc ?r. P ((qs @ [c]) ! j) (Suc ?r - j)) \<longleftrightarrow> (\<exists>j<?r. P (qs ! j) (Suc (?r - j))) \<or> P c 1"
    for P
    by (auto simp: ex_less_Suc nth_append Suc_diff_le)
  have "\<forall>i<32. bit (columns ?bt ! Suc ?r) i \<longleftrightarrow> (\<exists>j<Suc ?r. (qs @ [c]) ! j = i)"
    using assms(1) r ex [of "\<lambda>q _. q = _"]
    by (auto simp: represents_def place_def bit_simps)
  moreover have "\<forall>i<32. bit (diagnoal ?bt ! Suc ?r) i \<longleftrightarrow>
      (\<exists>j<Suc ?r. (qs @ [c]) ! j = i + (Suc ?r - j))"
  proof (intro allI impI)
    fix i :: nat assume i: "i < 32"
    have "bit (diagnoal ?bt ! Suc ?r) i \<longleftrightarrow> Suc i < 32 \<and> bit (diagnoal bt ! ?r) (Suc i) \<or> c = Suc i"
      using assms(1) r by (auto simp: represents_def place_def bit_simps dest: bit_imp_le_length)
    also have "\<dots> \<longleftrightarrow> (\<exists>j<?r. qs ! j = Suc i + (?r - j)) \<or> c = Suc i"
    proof (cases "Suc i < 32")
      case True
      with assms(1) show ?thesis by (simp add: represents_def)
    next
      case False
      then have "qs ! j \<noteq> Suc i + (?r - j)" if "j < ?r" for j
        using r(3) nth_mem [OF that] by fastforce
      with False show ?thesis by auto
    qed
    finally show "bit (diagnoal ?bt ! Suc ?r) i \<longleftrightarrow> (\<exists>j<Suc ?r. (qs @ [c]) ! j = i + (Suc ?r - j))"
      using ex [of "\<lambda>q d. q = i + d"] by simp
  qed
  moreover have "\<forall>i<32. bit (antidiagnoal ?bt ! Suc ?r) i \<longleftrightarrow>
      (\<exists>j<Suc ?r. i = (qs @ [c]) ! j + (Suc ?r - j))"
  proof (intro allI impI)
    fix i :: nat assume i: "i < 32"
    have "antidiagnoal ?bt ! Suc ?r = push_bit 1 (antidiagnoal bt ! ?r OR push_bit c 1)"
      using assms(1) r(1) by (simp add: represents_def place_def)
    then have "bit (antidiagnoal ?bt ! Suc ?r) i \<longleftrightarrow>
        0 < i \<and> bit (antidiagnoal bt ! ?r OR push_bit c 1) (i - 1)"
      using i by (simp only: bit_push_bit1)
    also have "\<dots> \<longleftrightarrow> 0 < i \<and> (bit (antidiagnoal bt ! ?r) (i - 1) \<or> i - 1 = c)"
      using r(2) by (simp only: bit_or_iff bit_one_bit)
    also have "\<dots> \<longleftrightarrow> (\<exists>j<?r. i = qs ! j + Suc (?r - j)) \<or> i = c + 1"
      using assms(1) i by (cases i) (auto simp: represents_def)
    finally show "bit (antidiagnoal ?bt ! Suc ?r) i \<longleftrightarrow> (\<exists>j<Suc ?r. i = (qs @ [c]) ! j + (Suc ?r - j))"
      using ex [of "\<lambda>q d. i = q + d"] by simp
  qed
  ultimately show ?thesis
    using assms by (simp add: represents_def place_def)
qed

text \<open>What a search from a row leaves alone: the size, and the masks of the rows up to it.\<close>

definition same_upto :: "nat \<Rightarrow> BackTracking \<Rightarrow> BackTracking \<Rightarrow> bool" where
  "same_upto r bt bt' \<longleftrightarrow> bt_N bt' = bt_N bt \<and>
     length (columns bt') = length (columns bt) \<and> length (diagnoal bt') = length (diagnoal bt) \<and>
     length (antidiagnoal bt') = length (antidiagnoal bt) \<and>
     (\<forall>j\<le>r. columns bt' ! j = columns bt ! j \<and> diagnoal bt' ! j = diagnoal bt ! j \<and>
        antidiagnoal bt' ! j = antidiagnoal bt ! j)"

lemma same_upto_refl: "same_upto r bt bt"
  by (simp add: same_upto_def)

lemma same_upto_trans: "same_upto r a b \<Longrightarrow> same_upto r b c \<Longrightarrow> same_upto r a c"
  by (auto simp: same_upto_def)

lemma same_upto_mono: "same_upto r a b \<Longrightarrow> r' \<le> r \<Longrightarrow> same_upto r' a b"
  by (auto simp: same_upto_def)

lemma same_upto_place: "same_upto r bt (place r m bt)"
  by (auto simp: same_upto_def place_def)

lemma represents_same: "represents qs bt \<Longrightarrow> same_upto (length qs) bt bt' \<Longrightarrow> represents qs bt'"
  by (simp add: represents_def same_upto_def)

lemma represents_count: "represents qs (bt\<lparr>bt_count := x\<rparr>) \<longleftrightarrow> represents qs bt"
  by (simp add: represents_def)

section \<open>The search counts the completions\<close>

definition search_ok :: "nat \<Rightarrow> BackTracking \<Rightarrow> BackTracking option \<Rightarrow> nat \<Rightarrow> bool" where
  "search_ok r bt res k \<longleftrightarrow>
     (\<exists>bt'. res = Some bt' \<and> bt_count bt' = bt_count bt + int k \<and> same_upto r bt bt')"

lemma sum_lowest:
  assumes "avail \<noteq> 0" "builtin_ctz avail < n"
  shows "(\<Sum>c | c < n \<and> bit avail c. f c) =
    f (builtin_ctz avail) + (\<Sum>c | c < n \<and> bit (avail AND (avail - 1)) c. f c :: nat)"
proof -
  have "{c. c < n \<and> bit avail c} =
      insert (builtin_ctz avail) {c. c < n \<and> bit (avail AND (avail - 1)) c}"
    using assms builtin_ctz(1) [OF assms(1)] clear_lowest_bit [OF assms(1)] by auto
  moreover have "builtin_ctz avail \<notin> {c. c < n \<and> bit (avail AND (avail - 1)) c}"
    using clear_lowest_bit [OF assms(1)] by simp
  ultimately show ?thesis by simp
qed

lemma sum_none:
  assumes "avail = 0 \<or> n \<le> builtin_ctz avail"
  shows "(\<Sum>c | c < n \<and> bit avail c. f c) = (0 :: nat)"
proof -
  have "{c. c < n \<and> bit avail c} = {}"
    using assms builtin_ctz(2) [of avail] by (cases "avail = 0") auto
  then show ?thesis by (simp only: sum.empty)
qed

lemma search_correct:
  "represents qs bt \<Longrightarrow> length qs = row \<Longrightarrow>
     search_ok row bt (search row bt) (completions (bt_N bt) (bt_N bt - row) qs)"
  and search_while_correct:
  "represents qs bt \<Longrightarrow> length qs = row \<Longrightarrow>
     search_ok row bt (search_while row avail bt)
       (\<Sum>c | c < bt_N bt \<and> bit avail c. completions (bt_N bt) (bt_N bt - Suc row) (qs @ [c]))"
proof (induction row bt and row avail bt arbitrary: qs and qs rule: search_search_while.induct)
  case (1 row bt)
  let ?avail = "NOT (columns bt ! row OR diagnoal bt ! row OR antidiagnoal bt ! row)"
  have row: "row < kMaxQueens" "bt_N bt - row = Suc (bt_N bt - Suc row)"
    using "1.prems" by (auto simp: represents_def)
  have "{c. c < bt_N bt \<and> bit ?avail c} = {c. c < bt_N bt \<and> \<not> attacked qs c}"
    using represents_avail [OF "1.prems"(1)] "1.prems"(2) by auto
  with "1.IH" [OF row(1) "1.prems"] row show ?case
    by (simp add: search.simps [of row bt])
next
  case (2 row avail bt)
  let ?i = "builtin_ctz avail" and ?n = "bt_N bt" and ?avail = "avail AND (avail - 1)"
  let ?f = "\<lambda>c. completions ?n (?n - Suc row) (qs @ [c])"
  note rep = "2.prems"
  show ?case
  proof (cases "avail = 0 \<or> ?n \<le> ?i")
    case True
    then show ?thesis
      using sum_none [OF True, of ?f]
      by (auto simp: search_while.simps [of row avail bt] search_ok_def same_upto_refl Let_def)
  next
    case False
    then have av: "avail \<noteq> 0" "?i < ?n" "\<not> ?n \<le> ?i" by auto
    note sum = sum_lowest [OF av(1,2), of ?f]
    show ?thesis
    proof (cases "row = ?n - 1")
      case True
      let ?bt = "bt\<lparr>bt_count := bt_count bt + 1\<rparr>"
      have last: "?f ?i = 1" using True by simp
      have "search_ok row ?bt (search_while row ?avail ?bt) (\<Sum>c | c < ?n \<and> bit ?avail c. ?f c)"
        using "2.IH"(1) [OF av(1) refl av(3) True, of qs] rep by (simp add: represents_count)
      then have "search_ok row bt (search_while row ?avail ?bt) (\<Sum>c | c < ?n \<and> bit avail c. ?f c)"
        unfolding sum last by (auto simp: search_ok_def same_upto_def)
      with av True show ?thesis by (subst search_while.simps) (simp add: Let_def)
    next
      case rowN: False
      then have row: "row + 1 < ?n" "row + 1 < kMaxQueens"
        using rep by (auto simp: represents_def)
      let ?p = "place row (push_bit ?i 1) bt"
      have p: "represents (qs @ [?i]) ?p" "length (qs @ [?i]) = row + 1" "bt_N ?p = ?n"
        "bt_count ?p = bt_count bt"
        using represents_place [OF rep(1) av(2)] rep(2) row by (auto simp: place_def)
      obtain bt' where bt': "search (row + 1) ?p = Some bt'"
        "bt_count bt' = bt_count bt + int (?f ?i)" "same_upto (row + 1) ?p bt'"
        using "2.IH"(2) [OF av(1) refl av(3) rowN row(2) p(1,2)] p by (auto simp: search_ok_def)
      have same: "same_upto row bt bt'"
        using same_upto_trans [OF same_upto_place same_upto_mono [OF bt'(3)]] by simp
      then have n: "bt_N bt' = ?n" and rep': "represents qs bt'"
        using rep represents_same by (auto simp: same_upto_def)
      have "search_ok row bt' (search_while row ?avail bt') (\<Sum>c | c < ?n \<and> bit ?avail c. ?f c)"
        using "2.IH"(3) [OF av(1) refl av(3) rowN row(2) bt'(1) rep' rep(2)] n by simp
      then have "search_ok row bt (search_while row ?avail bt') (\<Sum>c | c < ?n \<and> bit avail c. ?f c)"
        unfolding sum using bt'(2) same_upto_trans [OF same] by (auto simp: search_ok_def)
      with av rowN row bt' show ?thesis by (simp add: search_while.simps [of row avail bt] Let_def)
    qed
  qed
qed


section \<open>Sub-problems\<close>

text \<open>The constructor's board with queen \<open>f\<close> in row 0, as \<^verbatim>\<open>backtrackingsub\<close> sets it up.\<close>

lemma first_row_board:
  assumes "0 \<le> f" "f < n" "2 \<le> n" "n \<le> 20"
  obtains bt0 m0 where "shift_one f = Some m0" "newBackTracking n = Some bt0"
    "bt0\<lparr>columns := (columns bt0)[1 := m0], diagnoal := (diagnoal bt0)[1 := drop_bit 1 m0],
      antidiagnoal := (antidiagnoal bt0)[1 := push_bit 1 m0]\<rparr> = place 0 m0 bt0"
    "represents [nat f] (place 0 m0 bt0)" "bt_count (place 0 m0 bt0) = 0"
    "bt_N (place 0 m0 bt0) = nat n"
proof -
  define bt0 where "bt0 = \<lparr>bt_N = nat n, bt_count = 0, columns = replicate kMaxQueens 0,
    diagnoal = replicate kMaxQueens 0, antidiagnoal = replicate kMaxQueens 0\<rparr>"
  define m0 :: uint32 where "m0 = push_bit (nat f) 1"
  have rep: "represents [] bt0"
    using assms by (simp add: represents_def bt0_def kMaxQueens_def)
  show thesis
  proof
    show "shift_one f = Some m0" using assms by (simp add: shift_one_def m0_def)
    show "newBackTracking n = Some bt0"
      using assms by (simp add: newBackTracking_def bt0_def kMaxQueens_def)
    show "bt0\<lparr>columns := (columns bt0)[1 := m0], diagnoal := (diagnoal bt0)[1 := drop_bit 1 m0],
        antidiagnoal := (antidiagnoal bt0)[1 := push_bit 1 m0]\<rparr> = place 0 m0 bt0"
      by (simp add: place_def bt0_def kMaxQueens_def)
    show "represents [nat f] (place 0 m0 bt0)"
      using represents_place [OF rep, of "nat f"] assms by (simp add: bt0_def m0_def)
    show "bt_count (place 0 m0 bt0) = 0" "bt_N (place 0 m0 bt0) = nat n"
      by (simp_all add: place_def bt0_def)
  qed
qed

lemma backtrackingsub_one_row:
  assumes "0 \<le> f" "f < n" "2 \<le> n" "n \<le> 20" "s < 0"
  shows "backtrackingsub n f s = Some (int (completions (nat n) (nat n - 1) [nat f]))"
proof -
  from first_row_board [OF assms(1-4)] obtain bt0 m0 where
    b: "shift_one f = Some m0" "newBackTracking n = Some bt0"
    "bt0\<lparr>columns := (columns bt0)[1 := m0], diagnoal := (diagnoal bt0)[1 := drop_bit 1 m0],
      antidiagnoal := (antidiagnoal bt0)[1 := push_bit 1 m0]\<rparr> = place 0 m0 bt0"
    "represents [nat f] (place 0 m0 bt0)" "bt_count (place 0 m0 bt0) = 0"
    "bt_N (place 0 m0 bt0) = nat n" by blast
  from search_correct [OF b(4), of 1] b(5,6) assms(5) show ?thesis
    by (auto simp: backtrackingsub_def b(1,2) Let_def b(3) [simplified] search_ok_def)
qed

lemma backtrackingsub_two_rows:
  assumes "0 \<le> f" "f < n" "2 \<le> n" "n \<le> 20" "0 \<le> s" "s < n"
  shows "backtrackingsub n f s =
    Some (if attacked [nat f] (nat s) then 0 else int (completions (nat n) (nat n - 2) [nat f, nat s]))"
proof -
  from first_row_board [OF assms(1-4)] obtain bt0 m0 where
    b: "shift_one f = Some m0" "newBackTracking n = Some bt0"
    "bt0\<lparr>columns := (columns bt0)[1 := m0], diagnoal := (diagnoal bt0)[1 := drop_bit 1 m0],
      antidiagnoal := (antidiagnoal bt0)[1 := push_bit 1 m0]\<rparr> = place 0 m0 bt0"
    "represents [nat f] (place 0 m0 bt0)" "bt_count (place 0 m0 bt0) = 0"
    "bt_N (place 0 m0 bt0) = nat n" by blast
  let ?bt = "place 0 m0 bt0" and ?m1 = "push_bit (nat s) 1 :: uint32"
  let ?avail = "NOT (columns ?bt ! 1 OR diagnoal ?bt ! 1 OR antidiagnoal ?bt ! 1)"
  have m1: "shift_one s = Some ?m1" using assms by (simp add: shift_one_def)
  have "?avail AND ?m1 \<noteq> 0 \<longleftrightarrow> bit ?avail (nat s)"
  proof
    assume "?avail AND ?m1 \<noteq> 0"
    then obtain i where "bit (?avail AND ?m1) i"
      by (metis bit_0_eq bot_apply bot_bool_def bit_word_eqI)
    moreover have "nat s < 32" using assms by simp
    ultimately show "bit ?avail (nat s)"
      unfolding bit_and_iff bit_one_bit [OF \<open>nat s < 32\<close>] by blast
  next
    assume "bit ?avail (nat s)"
    moreover have "bit ?m1 (nat s)"
      using assms bit_one_bit [of "nat s" "nat s"] by (simp del: push_bit_of_1)
    ultimately have "bit (?avail AND ?m1) (nat s)" by (simp only: bit_and_iff)
    then show "?avail AND ?m1 \<noteq> 0" by (metis bit_0_eq bot_apply bot_bool_def)
  qed
  also have "\<dots> \<longleftrightarrow> \<not> attacked [nat f] (nat s)"
    using represents_avail [OF b(4), of "nat s"] b(6) assms by simp
  finally have av: "?avail AND ?m1 \<noteq> 0 \<longleftrightarrow> \<not> attacked [nat f] (nat s)" .
  show ?thesis
  proof (cases "attacked [nat f] (nat s)")
    case True
    with av m1 assms show ?thesis
      by (simp add: backtrackingsub_def b(1,2) Let_def b(3) [simplified])
  next
    case False
    have "n \<noteq> 2"
    proof
      assume "n = 2"
      then have "attacked [nat f] (nat s)" using assms by (auto simp: attacked_def) 
      with False show False by simp
    qed
    then have "represents [nat f, nat s] (place 1 ?m1 ?bt)"
      using represents_place [OF b(4), of "nat s"] b(6) assms by simp
    from search_correct [OF this, of 2] b(5,6) assms av m1 False show ?thesis
      by (auto simp: backtrackingsub_def b(1,2) Let_def b(3) [simplified] search_ok_def place_def)
  qed
qed

text \<open>A board of size 1: row 1 is already past the last row, so nothing is counted.\<close>

lemma backtrackingsub_size_one: "backtrackingsub 1 0 (-1) = Some 0"
proof -
  have "builtin_ctz (NOT 3) = 2"
    by (simp add: builtin_ctz_def upt_rec [of _ 32] bit_not_iff)
  then show ?thesis
    by (simp add: backtrackingsub_def shift_one_def newBackTracking_def kMaxQueens_def
        search.simps [of "Suc 0"] search_while.simps [of "Suc 0"])
qed

text \<open>C9: The bit-mask backtracking is right: on a board of 2 to 20 rows it returns the number
  of ways to complete the queens of the first row, or of the first two rows, to a full
  placement, with no out-of-bounds access, undefined shift or failing assertion; it returns 0
  when the two given queens attack each other.\<close>

theorem backtrackingsub_counts:
  assumes "0 \<le> f" "f < n" "2 \<le> n" "n \<le> 20" "s < n"
  shows "backtrackingsub n f s =
    Some (if s < 0 then int (completions (nat n) (nat n - 1) [nat f])
          else if attacked [nat f] (nat s) then 0
          else int (completions (nat n) (nat n - 2) [nat f, nat s]))"
proof (cases "s < 0")
  case False
  then show ?thesis using backtrackingsub_two_rows [OF assms(1-4)] assms(5) by simp
qed (simp add: backtrackingsub_one_row [OF assms(1-4)])

text \<open>On a board of four rows, the queen in column 1 can be completed in one way.\<close>

lemma completions_code [code]:
  "completions n m qs =
     (case m of 0 \<Rightarrow> 1
      | Suc m \<Rightarrow> (\<Sum>c\<leftarrow>filter (\<lambda>c. \<not> attacked qs c) [0..<n]. completions n m (qs @ [c])))"
proof (cases m)
  case (Suc m')
  have "{c. c < n \<and> \<not> attacked qs c} = set (filter (\<lambda>c. \<not> attacked qs c) [0..<n])" by auto
  with Suc show ?thesis by (simp only: completions.simps nat.case sum.distinct_set_conv_list distinct_filter distinct_upt)
qed simp

theorem backtrackingsub_counts_witness: "backtrackingsub 4 1 (-1) = Some 1"
proof -
  have "completions 4 3 [1] = 1"
    by code_simp
  then show ?thesis using backtrackingsub_counts [of 1 4 "-1"] by simp
qed

text \<open>A board of one row has one solution, but the server answers 0 for it: the search
  starts in row 1, after the last row, and never counts.\<close>

theorem backtrackingsub_one:
  "backtrackingsub 1 0 (-1) = Some 0 \<and> completions 1 0 [0] = 1"
  using backtrackingsub_size_one by simp

end
