(* ===== verification/NQueensClient.thy ===== *)
theory NQueensClient
  imports NQueens
begin

text \<open>
  The client of the N-queens example (examples/nqueens/client.cc): it asks for the left half
  of the first row only and counts every answer twice, the middle column of an odd board
  once. The answers arrive in any order.
\<close>

section \<open>The code\<close>

text \<open>The two globals of the client.\<close>

record client =
  g_got :: int
  g_total :: int

definition client_init :: client where
  "client_init = \<lparr>g_got = 0, g_total = 0\<rparr>"

text \<open>\<^verbatim>\<open>run\<close> sends one request per column below \<^verbatim>\<open>(N+1)/2\<close>, with no second row.\<close>

definition client_requests :: "nat \<Rightarrow> nat list" where
  "client_requests n = [0..<(n + 1) div 2]"

text \<open>The callback of column \<open>col\<close>; the second component is the total it logs, if it does.\<close>

definition response_cb :: "nat \<Rightarrow> nat \<times> int \<Rightarrow> client \<Rightarrow> client \<times> int option" where
  "response_cb n resp c =
     (case resp of (col, cnt) \<Rightarrow>
       (let total = (if n mod 2 = 1 \<and> col = n div 2 then g_total c + cnt
                     else g_total c + 2 * cnt);
            c' = \<lparr>g_got = g_got c + 1, g_total = total\<rparr>
        in (c', if g_got c' = (int n + 1) div 2 then Some (g_total c') else None)))"

fun client_run :: "nat \<Rightarrow> (nat \<times> int) list \<Rightarrow> client \<Rightarrow> client \<times> int list" where
  "client_run n [] c = (c, [])"
| "client_run n (r # rs) c =
     (let (c', out) = response_cb n r c; (c'', outs) = client_run n rs c'
      in (c'', (case out of None \<Rightarrow> outs | Some t \<Rightarrow> t # outs)))"

section \<open>Solutions of the problem\<close>

definition queens_solution :: "nat \<Rightarrow> nat list \<Rightarrow> bool" where
  "queens_solution n qs \<longleftrightarrow> length qs = n \<and> (\<forall>i<n. qs ! i < n) \<and>
     (\<forall>i<n. \<forall>j<i. qs ! j \<noteq> qs ! i \<and> qs ! j + (i - j) \<noteq> qs ! i \<and> qs ! i + (i - j) \<noteq> qs ! j)"

definition extensions :: "nat \<Rightarrow> nat \<Rightarrow> nat list \<Rightarrow> nat list set" where
  "extensions n m qs = {xs. length xs = m \<and>
     (\<forall>i<m. xs ! i < n \<and> \<not> attacked (qs @ take i xs) (xs ! i))}"

lemma extensions_0: "extensions n 0 qs = {[]}"
  by (auto simp: extensions_def)

lemma extensions_Suc:
  "extensions n (Suc m) qs =
    (\<Union>c\<in>{c. c < n \<and> \<not> attacked qs c}. (#) c ` extensions n m (qs @ [c]))" (is "?l = ?r")
proof
  show "?l \<subseteq> ?r"
  proof
    fix xs assume xs: "xs \<in> ?l"
    then obtain c ys where c: "xs = c # ys" by (cases xs) (auto simp: extensions_def)
    have "c < n \<and> \<not> attacked qs c"
      using xs c by (auto simp: extensions_def dest: spec [of _ 0])
    moreover have "ys \<in> extensions n m (qs @ [c])"
      using xs c by (auto simp: extensions_def dest!: spec [of _ "Suc _"])
    ultimately show "xs \<in> ?r" using c by auto
  qed
  show "?r \<subseteq> ?l"
  proof
    fix xs assume "xs \<in> ?r"
    then obtain c ys where c: "xs = c # ys" "c < n" "\<not> attacked qs c" "ys \<in> extensions n m (qs @ [c])"
      by auto
    have "xs ! i < n \<and> \<not> attacked (qs @ take i xs) (xs ! i)" if "i < Suc m" for i
      using c that by (cases i) (auto simp: extensions_def)
    with c show "xs \<in> ?l" by (auto simp: extensions_def)
  qed
qed

lemma finite_extensions: "finite (extensions n m qs)"
  by (rule finite_subset [OF _ finite_lists_length_eq [of "{..<n}" m]])
     (auto simp: extensions_def in_set_conv_nth)

lemma card_extensions: "card (extensions n m qs) = completions n m qs"
proof (induction m arbitrary: qs)
  case 0
  then show ?case by (simp add: extensions_0)
next
  case (Suc m)
  have "card (extensions n (Suc m) qs) =
      (\<Sum>c | c < n \<and> \<not> attacked qs c. card ((#) c ` extensions n m (qs @ [c])))"
    unfolding extensions_Suc by (rule card_UN_disjoint) (auto simp: finite_extensions)
  also have "\<dots> = completions n (Suc m) qs"
    by (simp add: card_image Suc)
  finally show ?case .
qed

lemma solutions_extensions: "{qs. queens_solution n qs} = extensions n n []"
proof -
  have "queens_solution n qs \<longleftrightarrow> qs \<in> extensions n n []" for qs
    by (fastforce simp: queens_solution_def extensions_def attacked_def)
  then show ?thesis by auto
qed

lemma finite_solutions: "finite {qs. queens_solution n qs \<and> P qs}"
  by (rule finite_subset [OF _ finite_extensions [of n n "[]"]])
     (use solutions_extensions [of n] in auto)

text \<open>The solutions with the first queen in a given column.\<close>

definition solutions_from :: "nat \<Rightarrow> nat \<Rightarrow> nat list set" where
  "solutions_from n c = {qs. queens_solution n qs \<and> hd qs = c}"

lemma card_solutions_from:
  assumes "c < n"
  shows "card (solutions_from n c) = completions n (n - 1) [c]"
proof -
  obtain m where m: "n = Suc m" using assms by (cases n) auto
  have "solutions_from n c = {qs \<in> extensions n n []. hd qs = c}"
    using solutions_extensions [of n] by (auto simp: solutions_from_def)
  also have "\<dots> = (#) c ` extensions n m [c]"
    unfolding m extensions_Suc using assms m by (auto simp: attacked_def)
  finally show ?thesis by (simp add: card_image card_extensions m)
qed

lemma card_solutions:
  assumes "0 < n"
  shows "card {qs. queens_solution n qs} = (\<Sum>c<n. card (solutions_from n c))"
proof -
  have "{qs. queens_solution n qs} = (\<Union>c<n. solutions_from n c)"
    using assms by (auto simp: solutions_from_def queens_solution_def hd_conv_nth)
  moreover have "card (\<Union>c<n. solutions_from n c) = (\<Sum>c<n. card (solutions_from n c))"
    by (rule card_UN_disjoint) (auto simp: solutions_from_def finite_solutions)
  ultimately show ?thesis by simp
qed

text \<open>Mirroring the board swaps the first column \<open>c\<close> with \<open>n - 1 - c\<close>.\<close>

definition mirror :: "nat \<Rightarrow> nat list \<Rightarrow> nat list" where
  "mirror n qs = map (\<lambda>c. n - 1 - c) qs"

lemma mirror_solution:
  assumes "queens_solution n qs"
  shows "queens_solution n (mirror n qs)" "mirror n (mirror n qs) = qs"
proof -
  have lt: "qs ! i < n" if "i < n" for i using assms that by (simp add: queens_solution_def)
  show "queens_solution n (mirror n qs)"
    unfolding queens_solution_def
  proof (intro conjI allI impI)
    show "length (mirror n qs) = n" using assms by (simp add: mirror_def queens_solution_def)
    fix i assume i: "i < n"
    then show "mirror n qs ! i < n" using assms by (simp add: mirror_def queens_solution_def)
    fix j assume j: "j < i"
    have "qs ! j \<noteq> qs ! i \<and> qs ! j + (i - j) \<noteq> qs ! i \<and> qs ! i + (i - j) \<noteq> qs ! j"
      using assms i j by (simp add: queens_solution_def)
    moreover have "mirror n qs ! i = n - 1 - qs ! i" "mirror n qs ! j = n - 1 - qs ! j"
      using assms i j by (simp_all add: mirror_def queens_solution_def)
    ultimately show "mirror n qs ! j \<noteq> mirror n qs ! i"
      "mirror n qs ! j + (i - j) \<noteq> mirror n qs ! i"
      "mirror n qs ! i + (i - j) \<noteq> mirror n qs ! j"
      using lt [OF i] lt [of j] i j by linarith+
  qed
  show "mirror n (mirror n qs) = qs"
  proof (rule nth_equalityI)
    show "length (mirror n (mirror n qs)) = length qs" by (simp add: mirror_def)
    fix i assume "i < length (mirror n (mirror n qs))"
    then have i: "i < length qs" by (simp add: mirror_def)
    with assms have "qs ! i < n" by (intro lt) (simp add: queens_solution_def)
    with i show "mirror n (mirror n qs) ! i = qs ! i" by (simp add: mirror_def)
  qed
qed

lemma card_solutions_mirror:
  assumes "c < n"
  shows "card (solutions_from n (n - 1 - c)) = card (solutions_from n c)"
proof (rule bij_betw_same_card [of "mirror n"])
  have hd: "hd (mirror n qs) = n - 1 - hd qs" if "queens_solution n qs" for qs
    using that assms by (cases qs) (auto simp: mirror_def queens_solution_def)
  have hlt: "hd qs < n" if "queens_solution n qs" for qs
    using that assms by (cases qs) (auto simp: queens_solution_def dest: spec [of _ 0])
  show "bij_betw (mirror n) (solutions_from n (n - 1 - c)) (solutions_from n c)"
    by (rule bij_betw_byWitness [of _ "mirror n"])
       (use assms in \<open>auto simp: solutions_from_def mirror_solution hd\<close>)
qed


section \<open>The total\<close>

definition weight :: "nat \<Rightarrow> nat \<Rightarrow> nat" where
  "weight n c = (if n mod 2 = 1 \<and> c = n div 2 then 1 else 2)"

lemma sum_upper_half:
  fixes f :: "nat \<Rightarrow> nat"
  assumes "\<And>c. c < n \<Longrightarrow> f (n - 1 - c) = f c" "h = n div 2"
  shows "(\<Sum>c\<in>{n - h..<n}. f c) = (\<Sum>c<h. f c)"
  by (rule sum.reindex_bij_witness [where i = "\<lambda>c. n - 1 - c" and j = "\<lambda>c. n - 1 - c"])
     (use assms in auto)

lemma sum_symmetric:
  fixes f :: "nat \<Rightarrow> nat"
  assumes sym: "\<And>c. c < n \<Longrightarrow> f (n - 1 - c) = f c"
  shows "(\<Sum>c<n. f c) = (\<Sum>c<(n + 1) div 2. weight n c * f c)"
proof -
  let ?h = "n div 2"
  have "(\<Sum>c<n. f c) = (\<Sum>c<n - ?h. f c) + (\<Sum>c\<in>{n - ?h..<n}. f c)"
    by (subst sum.union_disjoint [symmetric]) (auto intro!: sum.cong)
  then have total: "(\<Sum>c<n. f c) = (\<Sum>c<n - ?h. f c) + (\<Sum>c<?h. f c)"
    using sum_upper_half [of n f ?h] sym by simp
  have low: "(\<Sum>c<?h. weight n c * f c) = 2 * (\<Sum>c<?h. f c)"
    by (simp add: weight_def sum_distrib_left)
  show ?thesis
  proof (cases "even n")
    case True
    then have "n - ?h = ?h" "(n + 1) div 2 = ?h" by presburger+
    with total low show ?thesis by simp
  next
    case False
    then have eqs: "n - ?h = Suc ?h" "(n + 1) div 2 = Suc ?h" "n mod 2 = 1" by presburger+
    with total low show ?thesis by (simp add: weight_def)
  qed
qed

text \<open>The callbacks add up the weighted counts; the total is logged with the last answer.\<close>

lemma response_cb_total:
  "fst (response_cb n (col, k) c) =
     \<lparr>g_got = g_got c + 1, g_total = g_total c + int (weight n col) * k\<rparr>"
  by (simp add: response_cb_def Let_def weight_def)

lemma client_run_state:
  "fst (client_run n rs c) =
     \<lparr>g_got = g_got c + int (length rs),
      g_total = g_total c + (\<Sum>(col, k)\<leftarrow>rs. int (weight n col) * k)\<rparr>"
proof (induction rs arbitrary: c)
  case (Cons r rs)
  obtain col k where r: "r = (col, k)" by (cases r)
  show ?case
    using Cons [of "fst (response_cb n r c)"]
    by (simp add: case_prod_beta Let_def r response_cb_total algebra_simps)
qed simp

lemma client_run_logs:
  assumes "rs \<noteq> []" "g_got c + int (length rs) = (int n + 1) div 2"
  shows "snd (client_run n rs c) = [g_total (fst (client_run n rs c))]"
  using assms
proof (induction rs arbitrary: c)
  case (Cons r rs)
  obtain col k where r: "r = (col, k)" by (cases r)
  let ?c = "fst (response_cb n r c)"
  have got: "g_got ?c = g_got c + 1" by (simp add: r response_cb_total)
  show ?case
  proof (cases rs)
    case Nil
    with Cons.prems got show ?thesis by (simp add: response_cb_def r Let_def)
  next
    case (Cons r' rs')
    then have "snd (response_cb n r c) = None"
      using Cons.prems(2) by (simp add: response_cb_def r Let_def)
    moreover have "snd (client_run n rs ?c) = [g_total (fst (client_run n rs ?c))]"
      using Cons.IH [of ?c] Cons.prems(2) Cons got by simp
    ultimately show ?thesis by (simp add: case_prod_beta Let_def)
  qed
qed simp

text \<open>The client of the N-queens example logs the number of solutions of the whole board,
  once, in whatever order the servers' answers arrive: it asks only for the left half of the
  first row and makes up for the mirrored placements, counting the middle column of an odd
  board once.\<close>

lemma client_counts:
  assumes n: "2 \<le> n" "n \<le> 20"
    and order: "mset cols = mset (client_requests n)"
    and answers: "map fst rs = cols"
      "\<forall>(col, k)\<in>set rs. backtrackingsub (int n) (int col) (-1) = Some k"
  shows "snd (client_run n rs client_init) = [int (card {qs. queens_solution n qs})]"
proof -
  let ?S = "\<lambda>c. card (solutions_from n c)"
  have cols: "set cols = {..<(n + 1) div 2}" "distinct cols" "length cols = (n + 1) div 2"
    using mset_eq_setD [OF order] mset_eq_imp_distinct_iff [OF order] mset_eq_length [OF order]
    by (simp_all add: client_requests_def atLeast0LessThan)
  have k: "k = int (?S col) \<and> col \<in> set cols" if "(col, k) \<in> set rs" for col k
  proof -
    from that answers have "col \<in> set cols" by force
    moreover from this have "col < n" using cols n by auto
    moreover from that answers have "backtrackingsub (int n) (int col) (-1) = Some k" by auto
    ultimately show ?thesis
      using backtrackingsub_one_row [of "int col" "int n" "-1"] n by (simp add: card_solutions_from)
  qed
  have "(\<Sum>(col, k)\<leftarrow>rs. int (weight n col) * k) = (\<Sum>r\<leftarrow>rs. int (weight n (fst r) * ?S (fst r)))"
  proof (rule arg_cong [where f = sum_list], rule map_cong [OF refl])
    fix r assume "r \<in> set rs"
    then show "(case r of (col, k) \<Rightarrow> int (weight n col) * k) = int (weight n (fst r) * ?S (fst r))"
      using k [of "fst r" "snd r"] by (simp add: case_prod_beta)
  qed
  also have "\<dots> = (\<Sum>c\<leftarrow>cols. int (weight n c * ?S c))"
    unfolding answers(1) [symmetric] by (simp add: o_def)
  also have "\<dots> = int (\<Sum>c<(n + 1) div 2. weight n c * ?S c)"
    by (simp add: sum_list_distinct_conv_sum_set [OF cols(2)] cols(1))
  also have "(\<Sum>c<(n + 1) div 2. weight n c * ?S c) = (\<Sum>c<n. ?S c)"
    by (rule sum_symmetric [symmetric]) (rule card_solutions_mirror)
  also have "\<dots> = card {qs. queens_solution n qs}"
    using card_solutions [of n] n by simp
  finally have total: "g_total (fst (client_run n rs client_init)) = int (card {qs. queens_solution n qs})"
    by (simp add: client_run_state client_init_def)
  have "length rs = (n + 1) div 2" using answers(1) cols(3) by auto
  then have "rs \<noteq> []" "g_got client_init + int (length rs) = (int n + 1) div 2"
    using n by (auto simp: client_init_def zdiv_int)
  from client_run_logs [OF this] total show ?thesis by simp
qed

end
