(* ===== verification/RpcSystem.thy ===== *)
theory RpcSystem
  imports RpcChannel
begin

text \<open>
  A client channel and a server channel joined by a connection, as a step relation. Any
  number of threads are inside \<^verbatim>\<open>CallMethod\<close>: between the atomic increment and the
  insertion (\<open>sy_got\<close>), or between the insertion and the send (\<open>sy_stored\<close>). The connection
  keeps the order of messages in each direction. A handler that was given a request may call
  its \<^verbatim>\<open>done\<close> at any later time, once. Messages are processed by \<open>onRpcMessage\<close>, responses
  are made by \<open>doneCallback\<close>.

  The fields \<open>sy_issued\<close>, \<open>sy_answered\<close>, \<open>sy_calls\<close>, \<open>sy_log\<close> and \<open>sy_dropped\<close> record
  what happened; no step reads them.
\<close>

section \<open>States and steps\<close>

record ('m, 'cb, 'conn) system =
  sy_client :: "('m, 'cb, 'conn) channel"
  sy_server :: "('m, 'cb, 'conn) channel"
  sy_got :: "(int64 \<times> ('m, 'cb) rpc_call) list"
  sy_stored :: "(int64 \<times> ('m, 'cb) rpc_call) list"
  sy_c2s :: "rpc_message list"
  sy_pending :: "(int64 \<times> 'm method_desc \<times> 'm) list"
  sy_s2c :: "rpc_message list"
  sy_log :: "(int64 \<times> ('m, 'cb) effect list) list"
  sy_dropped :: "int64 list"
  sy_issued :: "int64 \<rightharpoonup> ('m, 'cb) rpc_call"
  sy_answered :: "int64 \<rightharpoonup> 'm"
  sy_calls :: nat

definition system_init ::
  "'conn \<Rightarrow> 'conn \<Rightarrow> (string, 'm service) omap \<Rightarrow> ('m, 'cb, 'conn) system" where
  "system_init c_conn s_conn services =
     \<lparr>sy_client = setConnection (Some c_conn) RpcChannel_new,
      sy_server = setServices services (RpcChannel_conn s_conn),
      sy_got = [], sy_stored = [], sy_c2s = [], sy_pending = [], sy_s2c = [],
      sy_log = [], sy_dropped = [], sy_issued = Map.empty, sy_answered = Map.empty, sy_calls = 0\<rparr>"

inductive system_step ::
  "('m \<Rightarrow> string) \<Rightarrow> ('m \<Rightarrow> string \<Rightarrow> 'm) \<Rightarrow> ('m \<Rightarrow> 't) \<Rightarrow>
     ('m, 'cb, 'conn) system \<Rightarrow> ('m, 'cb, 'conn) system \<Rightarrow> bool"
  for serialize parse descr where
  call_begin:
    "call_next_id (sy_client s) = (i, cl) \<Longrightarrow>
     system_step serialize parse descr s
       (s\<lparr>sy_client := cl, sy_got := sy_got s @ [(i, c)],
          sy_issued := (sy_issued s)(i \<mapsto> c), sy_calls := Suc (sy_calls s)\<rparr>)"
| call_insert:
    "sy_got s = us @ (i, c) # vs \<Longrightarrow>
     system_step serialize parse descr s
       (s\<lparr>sy_client := call_store i c (sy_client s), sy_got := us @ vs,
          sy_stored := sy_stored s @ [(i, c)]\<rparr>)"
| call_send:
    "sy_stored s = us @ (i, c) # vs \<Longrightarrow>
     system_step serialize parse descr s
       (s\<lparr>sy_stored := us @ vs, sy_c2s := sy_c2s s @ [request_message serialize i c]\<rparr>)"
| serve:
    "sy_c2s s = msg # rest \<Longrightarrow>
     onRpcMessage parse (ch_conn (sy_server s)) msg (sy_server s) =
       Inr (sv, [Call_service md req proto i]) \<Longrightarrow>
     system_step serialize parse descr s
       (s\<lparr>sy_server := sv, sy_c2s := rest, sy_pending := sy_pending s @ [(i, md, req)]\<rparr>)"
| ignore:
    "sy_c2s s = msg # rest \<Longrightarrow>
     onRpcMessage parse (ch_conn (sy_server s)) msg (sy_server s) = Inr (sv, []) \<Longrightarrow>
     system_step serialize parse descr s
       (s\<lparr>sy_server := sv, sy_c2s := rest, sy_dropped := sy_dropped s @ [rm_id msg]\<rparr>)"
| answer:
    "sy_pending s = us @ (i, md, req) # vs \<Longrightarrow>
     doneCallback serialize descr (md_response md) (Some r) i =
       (Inr [Send resp] :: failure + ('m, 'cb) effect list) \<Longrightarrow>
     system_step serialize parse descr s
       (s\<lparr>sy_pending := us @ vs, sy_s2c := sy_s2c s @ [resp],
          sy_answered := (sy_answered s)(i \<mapsto> r)\<rparr>)"
| deliver:
    "sy_s2c s = msg # rest \<Longrightarrow>
     onRpcMessage parse (ch_conn (sy_client s)) msg (sy_client s) = Inr (cl, effs) \<Longrightarrow>
     system_step serialize parse descr s
       (s\<lparr>sy_client := cl, sy_s2c := rest, sy_log := sy_log s @ [(rm_id msg, effs)]\<rparr>)"

inductive system_reachable ::
  "('m \<Rightarrow> string) \<Rightarrow> ('m \<Rightarrow> string \<Rightarrow> 'm) \<Rightarrow> ('m \<Rightarrow> 't) \<Rightarrow> (string, 'm service) omap \<Rightarrow>
     ('m, 'cb, 'conn) system \<Rightarrow> bool"
  for serialize parse descr services where
  reach_init: "system_reachable serialize parse descr services (system_init c_conn s_conn services)"
| reach_step: "system_reachable serialize parse descr services s \<Longrightarrow>
     system_step serialize parse descr s t \<Longrightarrow>
     system_reachable serialize parse descr services t"

section \<open>Every id is at one place\<close>

definition all_ids :: "('m, 'cb, 'conn) system \<Rightarrow> int64 list" where
  "all_ids s = map fst (sy_got s) @ map fst (sy_stored s) @ map rm_id (sy_c2s s) @
     map fst (sy_pending s) @ map rm_id (sy_s2c s) @ map fst (sy_log s) @ sy_dropped s"

definition ids_ok :: "('m, 'cb, 'conn) system \<Rightarrow> bool" where
  "ids_ok s \<longleftrightarrow> mset (all_ids s) = mset (map of_nat [1..<Suc (sy_calls s)]) \<and>
     ch_id (sy_client s) = of_nat (sy_calls s)"

text \<open>What the server does with a request that the client sent.\<close>

definition channel_method ::
  "('m, 'cb, 'conn) channel \<Rightarrow> 'm method_desc \<Rightarrow> 'm method_desc option" where
  "channel_method ch md =
     (case ch_services ch of None \<Rightarrow> None
      | Some services \<Rightarrow> resolve_method services (md_service md) (md_name md))"

lemma onRpcMessage_request_message:
  "onRpcMessage parse (ch_conn sv) (request_message serialize i c) sv =
    Inr (sv, case channel_method sv (rc_method c) of
       None \<Rightarrow> []
     | Some md \<Rightarrow> [Call_service md (parse (md_request md) (serialize (rc_request c))) (md_response md) i])"
  by (simp add: onRpcMessage_def request_message_def callServiceMethod_def channel_method_def
      resolve_method_def bytes_of_def split: option.split)

lemma doneCallback_Inr:
  assumes "doneCallback serialize descr proto (Some r) i = Inr [Send resp]"
  shows "resp = \<lparr>rm_type = RESPONSE, rm_id = i, rm_service = None, rm_method = None,
    rm_request = None, rm_response = Some (serialize r)\<rparr>" "descr r = descr proto"
  using assms by (auto simp: doneCallback_def split: if_splits)

definition completion ::
  "('m \<Rightarrow> string \<Rightarrow> 'm) \<Rightarrow> ('m, 'cb) rpc_call \<Rightarrow> string \<Rightarrow> ('m, 'cb) effect list" where
  "completion parse c bytes =
     (case rc_response c of
        None \<Rightarrow> [Log_error ''No Response prototype'']
      | Some proto \<Rightarrow> (case rc_done c of None \<Rightarrow> [] | Some cb \<Rightarrow> [Run_done cb (parse proto bytes)]))"

lemma onRpcMessage_outstanding:
  assumes "rm_type msg = RESPONSE" "rm_response msg = Some bytes"
    and "ch_outstandings cl (rm_id msg) = Some \<lparr>oc_response = rc_response c, oc_done = rc_done c\<rparr>"
  shows "onRpcMessage parse (ch_conn cl) msg cl =
    Inr (cl\<lparr>ch_outstandings := hm_erase (rm_id msg) (ch_outstandings cl)\<rparr>, completion parse c bytes)"
  using onRpcMessage_known [OF refl assms, of parse] by (simp add: completion_def split: option.split)

section \<open>What is known at each place\<close>

definition in_flight :: "('m, 'cb, 'conn) system \<Rightarrow> int64 list" where
  "in_flight s = map fst (sy_stored s) @ map rm_id (sy_c2s s) @ map fst (sy_pending s) @
     map rm_id (sy_s2c s) @ sy_dropped s"

definition client_ok :: "('m, 'cb, 'conn) system \<Rightarrow> bool" where
  "client_ok s \<longleftrightarrow>
     (\<forall>i\<in>set (in_flight s). \<exists>c. sy_issued s i = Some c \<and>
        ch_outstandings (sy_client s) i = Some \<lparr>oc_response = rc_response c, oc_done = rc_done c\<rparr>) \<and>
     (\<forall>i. ch_outstandings (sy_client s) i \<noteq> None \<longrightarrow> i \<in> set (in_flight s)) \<and>
     (\<forall>i c. (i, c) \<in> set (sy_got s) \<or> (i, c) \<in> set (sy_stored s) \<longrightarrow> sy_issued s i = Some c)"

definition requests_ok :: "('m \<Rightarrow> string) \<Rightarrow> ('m \<Rightarrow> string \<Rightarrow> 'm) \<Rightarrow> ('m, 'cb, 'conn) system \<Rightarrow> bool" where
  "requests_ok serialize parse s \<longleftrightarrow>
     (\<forall>m\<in>set (sy_c2s s). \<exists>c. sy_issued s (rm_id m) = Some c \<and> request_message serialize (rm_id m) c = m) \<and>
     (\<forall>(i, md, req)\<in>set (sy_pending s). \<exists>c. sy_issued s i = Some c \<and>
        channel_method (sy_server s) (rc_method c) = Some md \<and>
        req = parse (md_request md) (serialize (rc_request c))) \<and>
     (\<forall>i\<in>set (sy_dropped s). \<exists>c. sy_issued s i = Some c \<and> channel_method (sy_server s) (rc_method c) = None)"

definition responses_ok :: "('m \<Rightarrow> string) \<Rightarrow> ('m \<Rightarrow> string \<Rightarrow> 'm) \<Rightarrow> ('m, 'cb, 'conn) system \<Rightarrow> bool" where
  "responses_ok serialize parse s \<longleftrightarrow>
     (\<forall>m\<in>set (sy_s2c s). \<exists>c r. sy_issued s (rm_id m) = Some c \<and>
        channel_method (sy_server s) (rc_method c) \<noteq> None \<and> sy_answered s (rm_id m) = Some r \<and>
        rm_type m = RESPONSE \<and> rm_response m = Some (serialize r)) \<and>
     (\<forall>(i, effs)\<in>set (sy_log s). \<exists>c r. sy_issued s i = Some c \<and>
        channel_method (sy_server s) (rc_method c) \<noteq> None \<and> sy_answered s i = Some r \<and>
        effs = completion parse c (serialize r))"

section \<open>The invariants\<close>

lemma call_next_id_eq: "call_next_id ch = (i, ch') \<longleftrightarrow> i = ch_id ch + 1 \<and> ch' = ch\<lparr>ch_id := ch_id ch + 1\<rparr>"
  by (auto simp: call_next_id_def)

lemma doneCallback_id:
  "doneCallback serialize descr proto (Some r) i = Inr [Send resp] \<Longrightarrow> rm_id resp = i"
  by (auto dest: doneCallback_Inr)

lemma onRpcMessage_id:
  "onRpcMessage parse (ch_conn ch) msg ch = Inr (ch', effs) \<Longrightarrow> ch_id ch' = ch_id ch"
  by (auto simp: onRpcMessage_def Let_def split: message_type.splits option.splits)

lemma onRpcMessage_served_id:
  "onRpcMessage parse (ch_conn ch) msg ch = Inr (ch', [Call_service md req proto i]) \<Longrightarrow> i = rm_id msg"
  by (auto simp: onRpcMessage_def Let_def callServiceMethod_def
      split: message_type.splits option.splits)

lemma ids_ok_step:
  assumes "system_step serialize parse descr s t" "ids_ok s"
  shows "ids_ok t"
  using assms
proof cases
  case (serve msg rest sv md req proto i)
  then show ?thesis using assms(2) onRpcMessage_served_id [OF serve(3)]
    by (simp add: ids_ok_def all_ids_def)
next
  case (deliver msg rest cl effs)
  then show ?thesis using assms(2) onRpcMessage_id [OF deliver(3)]
    by (simp add: ids_ok_def all_ids_def)
next
  case (answer us i md req vs r resp)
  then show ?thesis using assms(2) doneCallback_id [OF answer(3)]
    by (simp add: ids_ok_def all_ids_def)
qed (simp_all add: ids_ok_def all_ids_def call_next_id_eq call_store_def request_message_def)

lemma ids_ok_reachable: "system_reachable serialize parse descr services s \<Longrightarrow> ids_ok s"
proof (induction rule: system_reachable.induct)
  case reach_init
  show ?case by (simp add: ids_ok_def all_ids_def system_init_def setConnection_def RpcChannel_new_def)
next
  case reach_step
  then show ?case by (blast intro: ids_ok_step)
qed

text \<open>The counter is 64 bits wide: the ids are distinct as long as it has not wrapped.\<close>

lemma of_nat_64_eq_iff:
  "m < 2 ^ 64 \<Longrightarrow> n < 2 ^ 64 \<Longrightarrow> (of_nat m :: int64) = of_nat n \<longleftrightarrow> m = n"
  by (simp add: word_of_nat_eq_iff take_bit_nat_eq_self_iff take_bit_nat_eq_self)

lemma all_ids_distinct:
  assumes "ids_ok s" "sy_calls s < 2 ^ 64"
  shows "distinct (all_ids s)"
proof -
  have "inj_on (of_nat :: nat \<Rightarrow> int64) (set [1..<Suc (sy_calls s)])"
    proof (rule inj_onI)
    fix x y :: nat
    assume "x \<in> set [1..<Suc (sy_calls s)]" "y \<in> set [1..<Suc (sy_calls s)]"
      and eq: "(of_nat x :: int64) = of_nat y"
    then have "x < 2 ^ 64" "y < 2 ^ 64" using assms(2) by auto
    with eq show "x = y" by (simp only: of_nat_64_eq_iff)
  qed
  then have "distinct (map (of_nat :: nat \<Rightarrow> int64) [1..<Suc (sy_calls s)])"
    by (simp only: distinct_map distinct_upt)
  with assms(1) show ?thesis
    unfolding ids_ok_def by (metis distinct_count_atmost_1 mset_eq_imp_distinct_iff)
qed

lemma next_id_fresh:
  assumes "ids_ok s" "Suc (sy_calls s) < 2 ^ 64"
  shows "ch_id (sy_client s) + 1 \<notin> set (all_ids s)"
proof
  assume "ch_id (sy_client s) + 1 \<in> set (all_ids s)"
  moreover have "set (all_ids s) = set (map of_nat [1..<Suc (sy_calls s)])"
    using assms(1) unfolding ids_ok_def by (metis set_mset_mset)
  moreover have "ch_id (sy_client s) + 1 = of_nat (Suc (sy_calls s))"
    using assms(1) by (simp add: ids_ok_def add.commute)
  ultimately have "(of_nat (Suc (sy_calls s)) :: int64) \<in> of_nat ` {1..sy_calls s}"
    by (metis (no_types) atLeastLessThanSuc_atLeastAtMost list.set_map set_upt)
  then obtain n where "n \<in> {1..sy_calls s}" "(of_nat n :: int64) = of_nat (Suc (sy_calls s))"
    by (metis imageE)
  then show False using assms(2) of_nat_64_eq_iff [of n "Suc (sy_calls s)"] by simp
qed

text \<open>Each place's invariant is kept by each step, as the ids are distinct.\<close>

lemma distinct_seven:
  assumes "distinct (as @ bs @ cs @ ds @ es @ fs @ gs)"
  shows "distinct (bs @ cs @ ds @ es @ gs)" "set (bs @ cs @ ds @ es @ gs) \<inter> set fs = {}"
    "set ds \<inter> set es = {}" "set ds \<inter> set fs = {}"
  using assms by (simp_all add: Int_Un_distrib Int_Un_distrib2 Int_commute)

lemma distinct_places:
  assumes "distinct (all_ids s)"
  shows "distinct (in_flight s)" "set (in_flight s) \<inter> set (map fst (sy_log s)) = {}"
    "set (map fst (sy_pending s)) \<inter> set (map rm_id (sy_s2c s)) = {}"
    "set (map fst (sy_pending s)) \<inter> set (map fst (sy_log s)) = {}"
  using distinct_seven [OF assms [unfolded all_ids_def]] unfolding in_flight_def by simp_all

definition system_ok ::
  "('m \<Rightarrow> string) \<Rightarrow> ('m \<Rightarrow> string \<Rightarrow> 'm) \<Rightarrow> (string, 'm service) omap \<Rightarrow>
     ('m, 'cb, 'conn) system \<Rightarrow> bool" where
  "system_ok serialize parse services s \<longleftrightarrow>
     ch_services (sy_server s) = Some services \<and> client_ok s \<and> requests_ok serialize parse s \<and>
     responses_ok serialize parse s"

lemma system_ok_call_begin:
  assumes "system_ok serialize parse services s" "i \<notin> set (all_ids s)"
  shows "system_ok serialize parse services
    (s\<lparr>sy_client := sy_client s\<lparr>ch_id := i\<rparr>, sy_got := sy_got s @ [(i, c)],
       sy_issued := (sy_issued s)(i \<mapsto> c), sy_calls := Suc (sy_calls s)\<rparr>)" (is "system_ok _ _ _ ?t")
proof -
  have s: "client_ok s" "requests_ok serialize parse s" "responses_ok serialize parse s"
    using assms(1) by (simp_all add: system_ok_def)
  have flight: "in_flight ?t = in_flight s" by (simp add: in_flight_def)
  have notin: "i \<notin> set (in_flight s)" "i \<notin> fst ` set (sy_log s)" "i \<notin> fst ` set (sy_got s)"
    "i \<notin> fst ` set (sy_stored s)" "i \<notin> rm_id ` set (sy_c2s s)" "i \<notin> fst ` set (sy_pending s)"
    "i \<notin> set (sy_dropped s)" "i \<notin> rm_id ` set (sy_s2c s)"
    using assms(2) by (auto simp: all_ids_def in_flight_def)
  have known: "(j, d) \<in> set (sy_got s) \<or> (j, d) \<in> set (sy_stored s) \<Longrightarrow> j \<noteq> i" for j d
    using notin(3,4) by (metis fst_conv image_eqI)
  have "client_ok ?t"
    unfolding client_ok_def flight
  proof (intro conjI)
    show "\<forall>j\<in>set (in_flight s). \<exists>c. sy_issued ?t j = Some c \<and>
        ch_outstandings (sy_client ?t) j = Some \<lparr>oc_response = rc_response c, oc_done = rc_done c\<rparr>"
      using s(1) notin(1) by (simp add: client_ok_def)
    show "\<forall>j. ch_outstandings (sy_client ?t) j \<noteq> None \<longrightarrow> j \<in> set (in_flight s)"
      using s(1) by (simp add: client_ok_def)
    show "\<forall>j d. (j, d) \<in> set (sy_got ?t) \<or> (j, d) \<in> set (sy_stored ?t) \<longrightarrow> sy_issued ?t j = Some d"
      using s(1) known by (auto simp: client_ok_def)
  qed
  moreover have "requests_ok serialize parse ?t"
    unfolding requests_ok_def
  proof (intro conjI ballI)
    fix m assume "m \<in> set (sy_c2s ?t)"
    then have "m \<in> set (sy_c2s s)" "rm_id m \<noteq> i" using notin(5) by auto
    then show "\<exists>c. sy_issued ?t (rm_id m) = Some c \<and> request_message serialize (rm_id m) c = m"
      using s(2) by (simp add: requests_ok_def)
  next
    fix p assume p: "p \<in> set (sy_pending ?t)"
    then have "fst p \<noteq> i" using notin(6) by auto
    then show "case p of (j, md, req) \<Rightarrow> \<exists>c. sy_issued ?t j = Some c \<and>
        channel_method (sy_server ?t) (rc_method c) = Some md \<and>
        req = parse (md_request md) (serialize (rc_request c))"
      using s(2) p by (cases p) (fastforce simp: requests_ok_def)
  next
    fix j assume "j \<in> set (sy_dropped ?t)"
    then have "j \<in> set (sy_dropped s)" "j \<noteq> i" using notin(7) by auto
    then show "\<exists>c. sy_issued ?t j = Some c \<and> channel_method (sy_server ?t) (rc_method c) = None"
      using s(2) by (simp add: requests_ok_def)
  qed
  moreover have "responses_ok serialize parse ?t"
    unfolding responses_ok_def
  proof (intro conjI ballI)
    fix m assume "m \<in> set (sy_s2c ?t)"
    then have "m \<in> set (sy_s2c s)" "rm_id m \<noteq> i" using notin(8) by auto
    then show "\<exists>c r. sy_issued ?t (rm_id m) = Some c \<and>
        channel_method (sy_server ?t) (rc_method c) \<noteq> None \<and> sy_answered ?t (rm_id m) = Some r \<and>
        rm_type m = RESPONSE \<and> rm_response m = Some (serialize r)"
      using s(3) by (simp add: responses_ok_def)
  next
    fix p assume p: "p \<in> set (sy_log ?t)"
    then have "fst p \<noteq> i" using notin(2) by auto
    then show "case p of (j, effs) \<Rightarrow> \<exists>c r. sy_issued ?t j = Some c \<and>
        channel_method (sy_server ?t) (rc_method c) \<noteq> None \<and> sy_answered ?t j = Some r \<and>
        effs = completion parse c (serialize r)"
      using s(3) p by (cases p) (fastforce simp: responses_ok_def)
  qed
  ultimately show ?thesis using assms(1) by (simp add: system_ok_def)
qed

lemma system_ok_call_insert:
  assumes "system_ok serialize parse services s" "sy_got s = us @ (i, c) # vs"
  shows "system_ok serialize parse services
    (s\<lparr>sy_client := call_store i c (sy_client s), sy_got := us @ vs,
       sy_stored := sy_stored s @ [(i, c)]\<rparr>)" (is "system_ok _ _ _ ?t")
proof -
  have flight: "set (in_flight ?t) = insert i (set (in_flight s))" by (auto simp: in_flight_def)
  have "client_ok ?t"
    using assms unfolding system_ok_def client_ok_def flight by (auto simp: call_store_def hm_store_def)
  then show ?thesis using assms(1) by (simp add: system_ok_def requests_ok_def responses_ok_def)
qed

lemma system_ok_call_send:
  assumes "system_ok serialize parse services s" "sy_stored s = us @ (i, c) # vs"
  shows "system_ok serialize parse services
    (s\<lparr>sy_stored := us @ vs, sy_c2s := sy_c2s s @ [request_message serialize i c]\<rparr>)"
    (is "system_ok _ _ _ ?t")
proof -
  have rid: "rm_id (request_message serialize i c) = i" by (simp add: request_message_def)
  have flight: "set (in_flight ?t) = set (in_flight s)"
    using assms(2) by (auto simp: in_flight_def rid)
  have "client_ok ?t"
    using assms unfolding system_ok_def client_ok_def flight by auto
  moreover have "requests_ok serialize parse ?t"
    using assms by (auto simp: system_ok_def client_ok_def requests_ok_def rid)
  ultimately show ?thesis using assms(1) by (simp add: system_ok_def responses_ok_def)
qed

lemma system_ok_head:
  assumes "system_ok serialize parse services s" "sy_c2s s = msg # rest"
  shows "\<exists>j c. sy_issued s j = Some c \<and> msg = request_message serialize j c \<and> rm_id msg = j"
  using assms by (simp add: system_ok_def requests_ok_def) metis

lemma system_ok_serve:
  assumes ok: "system_ok serialize parse services s"
    and msg: "sy_c2s s = msg # rest"
    and rpc: "onRpcMessage parse (ch_conn (sy_server s)) msg (sy_server s) =
      Inr (sv, [Call_service md req proto i])"
  shows "system_ok serialize parse services
    (s\<lparr>sy_server := sv, sy_c2s := rest, sy_pending := sy_pending s @ [(i, md, req)]\<rparr>)"
    (is "system_ok _ _ _ ?t")
proof -
  obtain j c where c: "sy_issued s j = Some c" "msg = request_message serialize j c" "rm_id msg = j"
    using system_ok_head [OF ok msg] by blast
  have served: "i = j" using onRpcMessage_served_id [OF rpc] c(3) by simp
  have eqs: "sv = sy_server s" "channel_method (sy_server s) (rc_method c) = Some md"
    "req = parse (md_request md) (serialize (rc_request c))"
    using rpc unfolding c(2) onRpcMessage_request_message by (auto split: option.splits)
  have flight: "set (in_flight ?t) = set (in_flight s)"
    using msg served c(3) by (auto simp: in_flight_def)
  have "client_ok ?t" using ok unfolding system_ok_def client_ok_def flight by simp
  moreover have "requests_ok serialize parse ?t"
    using ok msg c(1) eqs served by (simp add: system_ok_def requests_ok_def)
  ultimately show ?thesis using ok eqs by (simp add: system_ok_def responses_ok_def)
qed

lemma system_ok_ignore:
  assumes ok: "system_ok serialize parse services s"
    and msg: "sy_c2s s = msg # rest"
    and rpc: "onRpcMessage parse (ch_conn (sy_server s)) msg (sy_server s) =
      (Inr (sv, []) :: failure + ('m, 'cb, 'conn) channel \<times> ('m, 'cb) effect list)"
  shows "system_ok serialize parse services
    (s\<lparr>sy_server := sv, sy_c2s := rest, sy_dropped := sy_dropped s @ [rm_id msg]\<rparr>)"
    (is "system_ok _ _ _ ?t")
proof -
  obtain j c where c: "sy_issued s j = Some c" "msg = request_message serialize j c" "rm_id msg = j"
    using system_ok_head [OF ok msg] by blast
  have eqs: "sv = sy_server s" "channel_method (sy_server s) (rc_method c) = None"
    using rpc unfolding c(2) onRpcMessage_request_message by (auto split: option.splits)
  have flight: "set (in_flight ?t) = set (in_flight s)"
    using msg by (auto simp: in_flight_def)
  have "client_ok ?t" using ok unfolding system_ok_def client_ok_def flight by simp
  moreover have "requests_ok serialize parse ?t"
    using ok msg c(1,3) eqs by (simp add: system_ok_def requests_ok_def)
  ultimately show ?thesis using ok eqs by (simp add: system_ok_def responses_ok_def)
qed

lemma system_ok_answer:
  assumes ok: "system_ok serialize parse services s" and dist: "distinct (all_ids s)"
    and pend: "sy_pending s = us @ (i, md, req) # vs"
    and cb: "doneCallback serialize descr (md_response md) (Some r) i =
      (Inr [Send resp] :: failure + ('m, 'cb) effect list)"
  shows "system_ok serialize parse services
    (s\<lparr>sy_pending := us @ vs, sy_s2c := sy_s2c s @ [resp], sy_answered := (sy_answered s)(i \<mapsto> r)\<rparr>)"
    (is "system_ok _ _ _ ?t")
proof -
  have resp: "rm_id resp = i" "rm_type resp = RESPONSE" "rm_response resp = Some (serialize r)"
    using doneCallback_Inr(1) [OF cb] by simp_all
  have flight: "set (in_flight ?t) = set (in_flight s)"
    using pend resp by (auto simp: in_flight_def)
  obtain c where c: "sy_issued s i = Some c" "channel_method (sy_server s) (rc_method c) = Some md"
    using ok pend by (auto simp: system_ok_def requests_ok_def)
  have notin: "i \<notin> rm_id ` set (sy_s2c s)" "i \<notin> fst ` set (sy_log s)"
    using distinct_places(3,4) [OF dist] pend by auto
  have "client_ok ?t" using ok unfolding system_ok_def client_ok_def flight by simp
  moreover have "requests_ok serialize parse ?t"
    using ok pend by (simp add: system_ok_def requests_ok_def)
  moreover have "responses_ok serialize parse ?t"
    unfolding responses_ok_def
  proof (intro conjI ballI)
    fix m assume "m \<in> set (sy_s2c ?t)"
    then consider "m = resp" | "m \<in> set (sy_s2c s)" "rm_id m \<noteq> i" using notin(1) by auto
    then show "\<exists>c r. sy_issued ?t (rm_id m) = Some c \<and>
        channel_method (sy_server ?t) (rc_method c) \<noteq> None \<and> sy_answered ?t (rm_id m) = Some r \<and>
        rm_type m = RESPONSE \<and> rm_response m = Some (serialize r)"
      by cases (use ok resp c in \<open>simp_all add: system_ok_def responses_ok_def\<close>)
  next
    fix p assume p: "p \<in> set (sy_log ?t)"
    then have "fst p \<noteq> i" using notin(2) by auto
    then show "case p of (j, effs) \<Rightarrow> \<exists>c r. sy_issued ?t j = Some c \<and>
        channel_method (sy_server ?t) (rc_method c) \<noteq> None \<and> sy_answered ?t j = Some r \<and>
        effs = completion parse c (serialize r)"
      using ok p by (cases p) (fastforce simp: system_ok_def responses_ok_def)
  qed
  ultimately show ?thesis using ok by (simp add: system_ok_def)
qed

lemma onRpcMessage_delivered:
  assumes ok: "system_ok serialize parse services s" and msg: "sy_s2c s = msg # rest"
  obtains c r where "sy_issued s (rm_id msg) = Some c"
    "channel_method (sy_server s) (rc_method c) \<noteq> None" "sy_answered s (rm_id msg) = Some r"
    "onRpcMessage parse (ch_conn (sy_client s)) msg (sy_client s) =
      Inr (sy_client s\<lparr>ch_outstandings := hm_erase (rm_id msg) (ch_outstandings (sy_client s))\<rparr>,
        completion parse c (serialize r))"
proof -
  have "rm_id msg \<in> set (in_flight s)" using msg by (simp add: in_flight_def)
  then obtain c where c: "sy_issued s (rm_id msg) = Some c" "ch_outstandings (sy_client s) (rm_id msg) =
      Some \<lparr>oc_response = rc_response c, oc_done = rc_done c\<rparr>"
    using ok by (auto simp: system_ok_def client_ok_def)
  obtain r where r: "sy_answered s (rm_id msg) = Some r" "rm_type msg = RESPONSE"
      "rm_response msg = Some (serialize r)" "channel_method (sy_server s) (rc_method c) \<noteq> None"
    using ok msg c by (auto simp: system_ok_def responses_ok_def)
  show thesis
    by (rule that [OF c(1) r(4,1)]) (rule onRpcMessage_outstanding [OF r(2,3) c(2)])
qed

lemma distinct_minus_middle:
  "xs = us @ x # vs \<Longrightarrow> ys = us @ vs \<Longrightarrow> distinct xs \<Longrightarrow> set ys = set xs - {x}"
  by auto

lemma system_ok_deliver:
  assumes ok: "system_ok serialize parse services s" and dist: "distinct (all_ids s)"
    and msg: "sy_s2c s = msg # rest"
    and rpc: "onRpcMessage parse (ch_conn (sy_client s)) msg (sy_client s) = Inr (cl, effs)"
  shows "system_ok serialize parse services
    (s\<lparr>sy_client := cl, sy_s2c := rest, sy_log := sy_log s @ [(rm_id msg, effs)]\<rparr>)"
    (is "system_ok _ _ _ ?t")
proof -
  obtain c r where c: "sy_issued s (rm_id msg) = Some c"
      "channel_method (sy_server s) (rc_method c) \<noteq> None" "sy_answered s (rm_id msg) = Some r"
      "effs = completion parse c (serialize r)"
    and cl: "cl = sy_client s\<lparr>ch_outstandings := hm_erase (rm_id msg) (ch_outstandings (sy_client s))\<rparr>"
    using onRpcMessage_delivered [OF ok msg] rpc by (metis Inr_inject Pair_inject)
  have "in_flight s = (map fst (sy_stored s) @ map rm_id (sy_c2s s) @ map fst (sy_pending s)) @
      rm_id msg # map rm_id rest @ sy_dropped s"
    using msg by (simp add: in_flight_def)
  moreover have "in_flight ?t = (map fst (sy_stored s) @ map rm_id (sy_c2s s) @ map fst (sy_pending s)) @
      map rm_id rest @ sy_dropped s"
    by (simp add: in_flight_def)
  ultimately have flight: "set (in_flight ?t) = set (in_flight s) - {rm_id msg}"
    using distinct_places(1) [OF dist] by (rule distinct_minus_middle)
  have "client_ok ?t"
    using ok unfolding system_ok_def client_ok_def flight by (auto simp: cl hm_erase_def)
  moreover have "requests_ok serialize parse ?t"
    using ok by (simp add: system_ok_def requests_ok_def)
  moreover have "responses_ok serialize parse ?t"
    using ok c msg by (simp add: system_ok_def responses_ok_def)
  ultimately show ?thesis using ok by (simp add: system_ok_def)
qed

lemma system_ok_step:
  assumes step: "system_step serialize parse descr s t" and ok: "system_ok serialize parse services s"
    and ids: "ids_ok s" and calls: "sy_calls t < 2 ^ 64"
  shows "system_ok serialize parse services t"
  using step
proof cases
  case (call_begin i cl c)
  then have "Suc (sy_calls s) < 2 ^ 64" using calls by simp
  from next_id_fresh [OF ids this] system_ok_call_begin [OF ok] call_begin show ?thesis
    by (simp add: call_next_id_eq)
next
  case (call_insert us i c vs)
  then show ?thesis by (simp add: system_ok_call_insert [OF ok])
next
  case (call_send us i c vs)
  then show ?thesis by (simp add: system_ok_call_send [OF ok])
next
  case (serve msg rest sv md req proto i)
  then show ?thesis by (simp add: system_ok_serve [OF ok serve(2,3)])
next
  case (ignore msg rest sv)
  then show ?thesis by (simp add: system_ok_ignore [OF ok ignore(2,3)])
next
  case (answer us i md req vs r resp)
  then have "distinct (all_ids s)" using all_ids_distinct [OF ids] calls by simp
  with answer show ?thesis by (simp add: system_ok_answer [OF ok _ answer(2,3)])
next
  case (deliver msg rest cl effs)
  then have "distinct (all_ids s)" using all_ids_distinct [OF ids] calls by simp
  with deliver show ?thesis by (simp add: system_ok_deliver [OF ok _ deliver(2,3)])
qed

lemma system_step_calls: "system_step serialize parse descr s t \<Longrightarrow> sy_calls s \<le> sy_calls t"
  by (induction rule: system_step.induct) simp_all

lemma system_ok_reachable:
  assumes "system_reachable serialize parse descr services s" "sy_calls s < 2 ^ 64"
  shows "system_ok serialize parse services s"
  using assms
proof (induction rule: system_reachable.induct)
  case (reach_init c_conn s_conn)
  show ?case
    by (simp add: system_ok_def client_ok_def requests_ok_def responses_ok_def in_flight_def
        system_init_def setConnection_def setServices_def RpcChannel_new_def RpcChannel_conn_def)
next
  case (reach_step s t)
  then have "sy_calls s < 2 ^ 64" using system_step_calls le_less_trans by blast
  with reach_step show ?case by (blast intro: system_ok_step ids_ok_reachable)
qed

section \<open>What a run guarantees\<close>

definition quiescent :: "('m, 'cb, 'conn) system \<Rightarrow> bool" where
  "quiescent s \<longleftrightarrow> sy_got s = [] \<and> sy_stored s = [] \<and> sy_c2s s = [] \<and> sy_pending s = [] \<and> sy_s2c s = []"

lemma quiescent_ids:
  assumes "quiescent s" "ids_ok s"
  shows "set (map fst (sy_log s)) \<union> set (sy_dropped s) = of_nat ` {1..sy_calls s}"
proof -
  have "all_ids s = map fst (sy_log s) @ sy_dropped s"
    using assms(1) by (simp add: all_ids_def quiescent_def)
  then have "set (map fst (sy_log s)) \<union> set (sy_dropped s) = set_mset (mset (all_ids s))" by simp
  also have "\<dots> = set (map of_nat [1..<Suc (sy_calls s)])"
    using assms(2) unfolding ids_ok_def by (metis set_mset_mset)
  also have "\<dots> = of_nat ` {1..sy_calls s}"
    by (simp only: list.set_map set_upt atLeastLessThanSuc_atLeastAtMost)
  finally show ?thesis .
qed

text \<open>An example: a service that answers one call, from the first step to the callback.\<close>

definition echo_method :: "string method_desc" where
  "echo_method = \<lparr>md_name = ''Echo'', md_full_name = ''EchoService.Echo'',
     md_service = ''EchoService'', md_input = ''Text'', md_output = ''Text'', md_request = [], md_response = []\<rparr>"

definition echo_services :: "(string, string service) omap" where
  "echo_services = [(''EchoService'', \<lparr>sv_full_name = ''EchoService'', sv_methods = [echo_method],
     sv_file = \<lparr>fd_name = ''echo.proto'', fd_text = [], fd_dependencies = []\<rparr>\<rparr>)]"

definition echo_call :: "(string, nat) rpc_call" where
  "echo_call = \<lparr>rc_method = echo_method, rc_request = ''hi'', rc_response = Some [], rc_done = Some 7\<rparr>"

abbreviation echo_reachable :: "(string, nat, unit) system \<Rightarrow> bool" where
  "echo_reachable \<equiv> system_reachable (\<lambda>m. m) (\<lambda>_ b. b) (\<lambda>_. ()) echo_services"

definition echo_sent :: "(string, nat, unit) system" where
  "echo_sent = (system_init () () echo_services)
     \<lparr>sy_client := fst (CallMethod (\<lambda>m. m) echo_call (setConnection (Some ()) RpcChannel_new)),
      sy_c2s := [request_message (\<lambda>m. m) 1 echo_call],
      sy_issued := [1 \<mapsto> echo_call], sy_calls := 1\<rparr>"

lemma echo_sent_reachable: "echo_reachable echo_sent"
proof -
  let ?s0 = "system_init () () echo_services :: (string, nat, unit) system"
  let ?c1 = "(sy_client ?s0)\<lparr>ch_id := 1\<rparr>"
  let ?s1 = "?s0\<lparr>sy_client := ?c1, sy_got := sy_got ?s0 @ [(1, echo_call)],
    sy_issued := (sy_issued ?s0)(1 \<mapsto> echo_call), sy_calls := Suc (sy_calls ?s0)\<rparr>"
  have 1: "echo_reachable ?s1"
    by (rule reach_step [OF reach_init], rule system_step.call_begin)
      (simp add: call_next_id_eq system_init_def setConnection_def RpcChannel_new_def)
  let ?s2 = "?s1\<lparr>sy_client := call_store 1 echo_call (sy_client ?s1), sy_got := [] @ [],
    sy_stored := sy_stored ?s1 @ [(1, echo_call)]\<rparr>"
  have 2: "echo_reachable ?s2"
    by (rule reach_step [OF 1], rule system_step.call_insert) (simp add: system_init_def)
  have "echo_reachable (?s2\<lparr>sy_stored := [] @ [],
    sy_c2s := sy_c2s ?s2 @ [request_message (\<lambda>m. m) 1 echo_call]\<rparr>)"
    by (rule reach_step [OF 2], rule system_step.call_send) (simp add: system_init_def)
  then show ?thesis
    by (simp add: echo_sent_def system_init_def CallMethod_eq setConnection_def RpcChannel_new_def)
qed

definition echo_served :: "(string, nat, unit) system" where
  "echo_served = echo_sent\<lparr>sy_c2s := [], sy_pending := [(1, echo_method, ''hi'')]\<rparr>"

lemma echo_served_reachable: "echo_reachable echo_served"
proof -
  have "echo_reachable (echo_sent\<lparr>sy_server := sy_server echo_sent, sy_c2s := [],
      sy_pending := sy_pending echo_sent @ [(1, echo_method, ''hi'')]\<rparr>)"
  proof (rule reach_step [OF echo_sent_reachable], rule system_step.serve)
    show "sy_c2s echo_sent = request_message (\<lambda>m. m) 1 echo_call # []" by (simp add: echo_sent_def)
    show "onRpcMessage (\<lambda>_ b. b) (ch_conn (sy_server echo_sent)) (request_message (\<lambda>m. m) 1 echo_call)
        (sy_server echo_sent) = Inr (sy_server echo_sent, [Call_service echo_method ''hi'' [] 1])"
      by (simp add: onRpcMessage_def request_message_def callServiceMethod_def bytes_of_def
          FindMethodByName_def echo_sent_def system_init_def setServices_def RpcChannel_conn_def
          echo_services_def echo_call_def echo_method_def)
  qed
  then show ?thesis by (simp add: echo_served_def echo_sent_def system_init_def)
qed

lemma echo_log_reachable:
  "\<exists>s :: (string, nat, unit) system. echo_reachable s \<and> sy_calls s = 1 \<and>
     sy_log s = [(1, [Run_done 7 ''hello''])] \<and> quiescent s"
proof -
  let ?resp = "\<lparr>rm_type = RESPONSE, rm_id = 1, rm_service = None, rm_method = None,
    rm_request = None, rm_response = Some ''hello''\<rparr>"
  let ?s1 = "echo_served\<lparr>sy_pending := [] @ [], sy_s2c := sy_s2c echo_served @ [?resp],
    sy_answered := (sy_answered echo_served)(1 \<mapsto> ''hello'')\<rparr>"
  have 1: "echo_reachable ?s1"
    by (rule reach_step [OF echo_served_reachable], rule system_step.answer)
      (simp_all add: echo_served_def echo_method_def doneCallback_def)
  obtain cl effs where rpc: "onRpcMessage (\<lambda>_ b. b) (ch_conn (sy_client ?s1)) ?resp (sy_client ?s1) = Inr (cl, effs)"
    "effs = [Run_done 7 ''hello'']"
    by (simp add: onRpcMessage_def echo_served_def echo_sent_def CallMethod_eq call_store_def hm_store_def
        setConnection_def RpcChannel_new_def echo_call_def)
  have "echo_reachable (?s1\<lparr>sy_client := cl, sy_s2c := [], sy_log := sy_log ?s1 @ [(rm_id ?resp, effs)]\<rparr>)"
    by (rule reach_step [OF 1], rule system_step.deliver [OF _ rpc(1)])
      (simp add: echo_served_def echo_sent_def system_init_def)
  then show ?thesis
    by (intro exI conjI, assumption)
      (simp_all add: rpc(2) echo_served_def echo_sent_def system_init_def quiescent_def)
qed



text \<open>C10: No call is lost or answered wrongly: once nothing is in flight, every call that was
  made has either completed, with the answer its handler gave, or names a method that the
  server does not have, and exactly the latter are still in the client's table (their
  callbacks never run).\<close>

theorem rpc_quiescent_calls:
  assumes "system_reachable serialize parse descr services s" "sy_calls s < 2 ^ 64" "quiescent s"
    and "1 \<le> n" "n \<le> sy_calls s"
  shows "\<exists>c. sy_issued s (of_nat n) = Some c \<and>
    (if resolve_method services (md_service (rc_method c)) (md_name (rc_method c)) = None
     then ch_outstandings (sy_client s) (of_nat n) \<noteq> None \<and> of_nat n \<notin> set (map fst (sy_log s))
     else ch_outstandings (sy_client s) (of_nat n) = None \<and>
       (\<exists>r. sy_answered s (of_nat n) = Some r \<and> (of_nat n, completion parse c (serialize r)) \<in> set (sy_log s)))"
proof -
  let ?i = "of_nat n :: int64"
  have ok: "system_ok serialize parse services s" by (rule system_ok_reachable [OF assms(1,2)])
  have ids: "ids_ok s" by (rule ids_ok_reachable [OF assms(1)])
  have dist: "distinct (all_ids s)" by (rule all_ids_distinct [OF ids assms(2)])
  have server: "channel_method (sy_server s) md = resolve_method services (md_service md) (md_name md)" for md
    using ok by (simp add: system_ok_def channel_method_def)
  have "?i \<in> set (map fst (sy_log s)) \<union> set (sy_dropped s)"
    unfolding quiescent_ids [OF assms(3) ids] using assms(4,5) by (intro imageI) simp
  then show ?thesis
  proof
    assume log: "?i \<in> set (map fst (sy_log s))"
    then have out: "?i \<notin> set (in_flight s)" using distinct_places(2) [OF dist] by blast
    from log obtain effs where "(?i, effs) \<in> set (sy_log s)" by auto
    moreover have "\<forall>(i, effs)\<in>set (sy_log s). \<exists>c r. sy_issued s i = Some c \<and>
        channel_method (sy_server s) (rc_method c) \<noteq> None \<and> sy_answered s i = Some r \<and>
        effs = completion parse c (serialize r)"
      using ok by (simp add: system_ok_def responses_ok_def)
    ultimately obtain c r where "sy_issued s ?i = Some c" "channel_method (sy_server s) (rc_method c) \<noteq> None"
      "sy_answered s ?i = Some r" "(?i, completion parse c (serialize r)) \<in> set (sy_log s)"
      by fast
    with out ok show ?thesis
      by (auto simp: server system_ok_def client_ok_def)
  next
    assume drop: "?i \<in> set (sy_dropped s)"
    then have "?i \<in> set (in_flight s)" by (simp add: in_flight_def)
    then have "?i \<notin> set (map fst (sy_log s))" "ch_outstandings (sy_client s) ?i \<noteq> None"
      using distinct_places(2) [OF dist] ok by (auto simp: system_ok_def client_ok_def)
    moreover obtain c where "sy_issued s ?i = Some c" "channel_method (sy_server s) (rc_method c) = None"
      using ok drop by (auto simp: system_ok_def requests_ok_def)
    ultimately show ?thesis by (simp add: server)
  qed
qed

theorem rpc_quiescent_calls_witness:
  "\<exists>s :: (string, nat, unit) system. quiescent s \<and> sy_log s = [(1, [Run_done 7 ''hello''])] \<and>
     sy_issued s 1 \<noteq> None"
proof -
  obtain s :: "(string, nat, unit) system" where s: "echo_reachable s" "sy_calls s = 1"
      "sy_log s = [(1, [Run_done 7 ''hello''])]" "quiescent s"
    using echo_log_reachable by blast
  then have "sy_calls s < 2 ^ 64" by simp
  from rpc_quiescent_calls [OF s(1) this s(4), of 1] s show ?thesis
    by (intro exI [of _ s]) auto
qed

text \<open>The server hands each request to the method that the client called, with the request
  the client passed: the pending handlers' ids, methods and arguments are those of calls.\<close>

theorem rpc_handlers_see_requests:
  assumes "system_reachable serialize parse descr services s" "sy_calls s < 2 ^ 64"
    and "protobuf_ok serialize parse descr"
    and "(i, md, req) \<in> set (sy_pending s)"
  shows "\<exists>c. sy_issued s i = Some c \<and>
    resolve_method services (md_service (rc_method c)) (md_name (rc_method c)) = Some md \<and>
    (descr (md_request md) = descr (rc_request c) \<longrightarrow> req = rc_request c)"
proof -
  have ok: "system_ok serialize parse services s" by (rule system_ok_reachable [OF assms(1,2)])
  then obtain c where "sy_issued s i = Some c" "channel_method (sy_server s) (rc_method c) = Some md"
      "req = parse (md_request md) (serialize (rc_request c))"
    using assms(4) by (fastforce simp: system_ok_def requests_ok_def)
  with ok show ?thesis
    by (auto simp: system_ok_def channel_method_def parse_serialize [OF assms(3)])
qed

theorem rpc_handlers_see_requests_witness:
  "sy_pending echo_served = [(1, echo_method, ''hi'')] \<and>
     (\<exists>c. sy_issued echo_served 1 = Some c \<and> rc_request c = ''hi'')"
proof -
  have "sy_calls echo_served < 2 ^ 64" by (simp add: echo_served_def echo_sent_def)
  moreover have "protobuf_ok (\<lambda>m. m) (\<lambda>_ b. b) (\<lambda>_. ())" by (simp add: protobuf_ok_def)
  moreover have pend: "sy_pending echo_served = [(1, echo_method, ''hi'')]" by (simp add: echo_served_def)
  ultimately show ?thesis
    using rpc_handlers_see_requests [OF echo_served_reachable, of 1 echo_method "''hi''"] by auto
qed

section \<open>Calls in progress can always be finished\<close>

definition work :: "('m, 'cb, 'conn) system \<Rightarrow> nat" where
  "work s = 5 * length (sy_got s) + 4 * length (sy_stored s) + 3 * length (sy_c2s s) +
     2 * length (sy_pending s) + length (sy_s2c s)"

lemma work_0: "work s = 0 \<longleftrightarrow> quiescent s"
  by (auto simp: work_def quiescent_def)

lemma system_step_work:
  "system_step serialize parse descr s t \<Longrightarrow> sy_calls t = sy_calls s \<Longrightarrow> work t < work s"
  by (induction rule: system_step.induct) (simp_all add: work_def)

lemma system_can_step:
  assumes ok: "system_ok serialize parse services s" and "\<not> quiescent s"
  obtains t where "system_step serialize parse descr s t" "sy_calls t = sy_calls s"
proof -
  from assms(2) consider (got) "sy_got s \<noteq> []" | (stored) "sy_stored s \<noteq> []" | (c2s) "sy_c2s s \<noteq> []"
    | (pending) "sy_pending s \<noteq> []" | (s2c) "sy_s2c s \<noteq> []"
    by (auto simp: quiescent_def)
  then show thesis
  proof cases
    case got
    then obtain i c vs where "sy_got s = [] @ (i, c) # vs" by (metis append_Nil neq_Nil_conv surj_pair)
    then show thesis by (rule that [OF system_step.call_insert]) simp
  next
    case stored
    then obtain i c vs where "sy_stored s = [] @ (i, c) # vs" by (metis append_Nil neq_Nil_conv surj_pair)
    then show thesis by (rule that [OF system_step.call_send]) simp
  next
    case c2s
    then obtain msg rest where msg: "sy_c2s s = msg # rest" by (meson neq_Nil_conv)
    obtain j c where "sy_issued s j = Some c" and c: "msg = request_message serialize j c"
      using system_ok_head [OF ok msg] by blast
    show thesis
    proof (cases "channel_method (sy_server s) (rc_method c)")
      case None
      then show thesis
        by (intro that [OF system_step.ignore [OF msg]]) (simp_all add: c onRpcMessage_request_message)
    next
      case (Some md)
      then show thesis
        by (intro that [OF system_step.serve [OF msg]]) (simp_all add: c onRpcMessage_request_message)
    qed
  next
    case pending
    then obtain i md req vs where "sy_pending s = [] @ (i, md, req) # vs"
      by (metis append_Nil neq_Nil_conv surj_pair)
    then show thesis
      by (rule that [OF system_step.answer [where r = "md_response md"
            and resp = "\<lparr>rm_type = RESPONSE, rm_id = i, rm_service = None, rm_method = None,
              rm_request = None, rm_response = Some (serialize (md_response md))\<rparr>"]])
        (simp_all add: doneCallback_def)
  next
    case s2c
    then obtain msg rest where msg: "sy_s2c s = msg # rest" by (meson neq_Nil_conv)
    from onRpcMessage_delivered [OF ok msg] obtain cl effs where
      "onRpcMessage parse (ch_conn (sy_client s)) msg (sy_client s) = Inr (cl, effs)" by metis
    then show thesis by (rule that [OF system_step.deliver [OF msg]]) simp
  qed
qed



end
