(* ===== verification/RpcApp.thy ===== *)
theory RpcApp
  imports RpcSystem
begin

text \<open>
  Programs over the RPC system of \<open>RpcSystem\<close>: a client whose event loop makes a list of calls when its
  connection is up and runs a callback for each answer, and a server whose handlers answer each request
  later, in any order. The examples nqueens, resolver and sudoku are of this kind. The steps here are the
  parts of the system's steps that the code of the two event loops runs in one go; the locale \<open>rpc_app\<close>
  states what the calls and the handlers promise, and proves what the client's callbacks see.
\<close>

section \<open>The event loops\<close>

text \<open>A call made by the only thread of the client: \<^verbatim>\<open>CallMethod\<close> from the counter to the send.\<close>

definition system_call ::
  "('m \<Rightarrow> string) \<Rightarrow> ('m, 'cb) rpc_call \<Rightarrow> ('m, 'cb, 'conn) system \<Rightarrow> ('m, 'cb, 'conn) system" where
  "system_call serialize c s =
     (let (cl, effs) = CallMethod serialize c (sy_client s)
      in s\<lparr>sy_client := cl, sy_c2s := sy_c2s s @ concat (map (\<lambda>e. case e of Send m \<Rightarrow> [m] | _ \<Rightarrow> []) effs),
           sy_issued := (sy_issued s)(ch_id cl \<mapsto> c), sy_calls := Suc (sy_calls s)\<rparr>)"

text \<open>The server's loop takes a request and calls the handler.\<close>

definition take_request ::
  "('m \<Rightarrow> string \<Rightarrow> 'm) \<Rightarrow> ('m, 'cb, 'conn) system \<Rightarrow> ('m, 'cb, 'conn) system option" where
  "take_request parse s =
     (case sy_c2s s of
        [] \<Rightarrow> None
      | msg # rest \<Rightarrow>
          (case onRpcMessage parse (ch_conn (sy_server s)) msg (sy_server s) of
             Inr (sv, [Call_service md req proto i]) \<Rightarrow>
               Some (s\<lparr>sy_server := sv, sy_c2s := rest, sy_pending := sy_pending s @ [(i, md, req)]\<rparr>)
           | _ \<Rightarrow> None))"

text \<open>The handler of the request \<open>i\<close> calls its \<^verbatim>\<open>done\<close>.\<close>

definition send_answer ::
  "('m \<Rightarrow> string) \<Rightarrow> ('m \<Rightarrow> 't) \<Rightarrow> int64 \<Rightarrow> 'm \<Rightarrow> ('m, 'cb, 'conn) system \<Rightarrow> ('m, 'cb, 'conn) system option" where
  "send_answer serialize descr i r s =
     (case List.extract (\<lambda>p. fst p = i) (sy_pending s) of
        None \<Rightarrow> None
      | Some (us, (i, md, req), vs) \<Rightarrow>
          (case doneCallback serialize descr (md_response md) (Some r) i :: failure + ('m, 'cb) effect list of
             Inr [Send resp] \<Rightarrow>
               Some (s\<lparr>sy_pending := us @ vs, sy_s2c := sy_s2c s @ [resp], sy_answered := (sy_answered s)(i \<mapsto> r)\<rparr>)
           | _ \<Rightarrow> None))"

text \<open>The client's loop takes a response; the effects are still to be run.\<close>

definition take_response ::
  "('m \<Rightarrow> string \<Rightarrow> 'm) \<Rightarrow> ('m, 'cb, 'conn) system \<Rightarrow> (('m, 'cb) effect list \<times> ('m, 'cb, 'conn) system) option" where
  "take_response parse s =
     (case sy_s2c s of
        [] \<Rightarrow> None
      | msg # rest \<Rightarrow>
          (case onRpcMessage parse (ch_conn (sy_client s)) msg (sy_client s) of
             Inr (cl, effs) \<Rightarrow>
               Some (effs, s\<lparr>sy_client := cl, sy_s2c := rest, sy_log := sy_log s @ [(rm_id msg, effs)]\<rparr>)
           | Inl _ \<Rightarrow> None))"

text \<open>The callbacks change the state of the client's program; \<open>None\<close> is a failure.\<close>

fun run_effects :: "('cb \<Rightarrow> 'm \<Rightarrow> 's \<Rightarrow> 's option) \<Rightarrow> ('m, 'cb) effect list \<Rightarrow> 's \<Rightarrow> 's option" where
  "run_effects callback [] c = Some c"
| "run_effects callback (Run_done cb r # es) c = Option.bind (callback cb r c) (run_effects callback es)"
| "run_effects callback (_ # es) c = run_effects callback es c"

lemma system_call_steps:
  assumes "system_reachable serialize parse descr services s"
  shows "system_reachable serialize parse descr services (system_call serialize c s)"
proof -
  let ?i = "ch_id (sy_client s) + 1"
  let ?s1 = "s\<lparr>sy_client := (sy_client s)\<lparr>ch_id := ?i\<rparr>, sy_got := sy_got s @ [(?i, c)],
    sy_issued := (sy_issued s)(?i \<mapsto> c), sy_calls := Suc (sy_calls s)\<rparr>"
  have 1: "system_reachable serialize parse descr services ?s1"
    by (rule reach_step [OF assms], rule system_step.call_begin) (simp add: call_next_id_eq)
  let ?s2 = "?s1\<lparr>sy_client := call_store ?i c (sy_client ?s1), sy_got := sy_got s @ [],
    sy_stored := sy_stored ?s1 @ [(?i, c)]\<rparr>"
  have 2: "system_reachable serialize parse descr services ?s2"
    by (rule reach_step [OF 1], rule system_step.call_insert) simp
  let ?s3 = "?s2\<lparr>sy_stored := sy_stored s @ [], sy_c2s := sy_c2s ?s2 @ [request_message serialize ?i c]\<rparr>"
  have "system_reachable serialize parse descr services ?s3"
    by (rule reach_step [OF 2], rule system_step.call_send) simp
  moreover have "?s3 = system_call serialize c s"
    by (cases s) (simp add: system_call_def CallMethod_eq call_store_def)
  ultimately show ?thesis by simp
qed

lemma take_request_step: "take_request parse s = Some t \<Longrightarrow> system_step serialize parse descr s t"
  unfolding take_request_def
  by (auto split: list.splits sum.splits prod.splits effect.splits intro: system_step.serve)

lemma send_answer_step: "send_answer serialize descr i r s = Some t \<Longrightarrow> system_step serialize parse descr s t"
  unfolding send_answer_def
  by (auto split: option.splits list.splits sum.splits prod.splits effect.splits
      dest!: extract_SomeE intro: system_step.answer)

lemma take_response_step: "take_response parse s = Some (effs, t) \<Longrightarrow> system_step serialize parse descr s t"
  unfolding take_response_def
  by (auto split: list.splits sum.splits prod.splits intro: system_step.deliver)

section \<open>Runs\<close>

text \<open>The state of a run: the two channels with what is between them, the client's program, and whether its
  connection came up.\<close>

record ('m, 'cb, 'conn, 's) app =
  ap_rpc :: "('m, 'cb, 'conn) system"
  ap_client :: 's
  ap_up :: bool

text \<open>\<open>on_up\<close> is what the client's program does when the connection comes up, \<open>calls\<close> are the calls it makes then, \<open>answers req r\<close> says that the
  handler of \<open>req\<close> may answer with \<open>r\<close>, and \<open>running\<close> that the client's loop was not told to quit.\<close>

inductive app_step ::
  "('m \<Rightarrow> string) \<Rightarrow> ('m \<Rightarrow> string \<Rightarrow> 'm) \<Rightarrow> ('m \<Rightarrow> 't) \<Rightarrow> ('m, 'cb) rpc_call list \<Rightarrow> ('m \<Rightarrow> 'm \<Rightarrow> bool) \<Rightarrow>
     ('cb \<Rightarrow> 'm \<Rightarrow> 's \<Rightarrow> 's option) \<Rightarrow> ('s \<Rightarrow> bool) \<Rightarrow> ('s \<Rightarrow> 's) \<Rightarrow>
     ('m, 'cb, 'conn, 's) app \<Rightarrow> ('m, 'cb, 'conn, 's) app \<Rightarrow> bool"
  for serialize parse descr calls answers callback running on_up where
  app_connect:
    "\<not> ap_up a \<Longrightarrow>
     app_step serialize parse descr calls answers callback running on_up a
       (a\<lparr>ap_up := True, ap_client := on_up (ap_client a),
          ap_rpc := fold (system_call serialize) calls (ap_rpc a)\<rparr>)"
| app_serve:
    "take_request parse (ap_rpc a) = Some u \<Longrightarrow>
     app_step serialize parse descr calls answers callback running on_up a (a\<lparr>ap_rpc := u\<rparr>)"
| app_answer:
    "(i, md, req) \<in> set (sy_pending (ap_rpc a)) \<Longrightarrow> answers req r \<Longrightarrow>
     send_answer serialize descr i r (ap_rpc a) = Some u \<Longrightarrow>
     app_step serialize parse descr calls answers callback running on_up a (a\<lparr>ap_rpc := u\<rparr>)"
| app_deliver:
    "running (ap_client a) \<Longrightarrow> take_response parse (ap_rpc a) = Some (effs, u) \<Longrightarrow>
     run_effects callback effs (ap_client a) = Some c \<Longrightarrow>
     app_step serialize parse descr calls answers callback running on_up a (a\<lparr>ap_rpc := u, ap_client := c\<rparr>)"

definition app_init ::
  "'conn \<Rightarrow> 'conn \<Rightarrow> (string, 'm service) omap \<Rightarrow> 's \<Rightarrow> ('m, 'cb, 'conn, 's) app" where
  "app_init c_conn s_conn services c =
     \<lparr>ap_rpc = system_init c_conn s_conn services, ap_client = c, ap_up = False\<rparr>"

text \<open>The client's program after the callbacks of some calls with their answers.\<close>

fun after_answers ::
  "('cb \<Rightarrow> 'm \<Rightarrow> 's \<Rightarrow> 's option) \<Rightarrow> (('m, 'cb) rpc_call \<times> 'm) list \<Rightarrow> 's \<Rightarrow> 's option" where
  "after_answers callback [] c = Some c"
| "after_answers callback ((call, r) # rs) c =
     Option.bind (run_effects callback (case rc_done call of None \<Rightarrow> [] | Some cb \<Rightarrow> [Run_done cb r]) c)
       (after_answers callback rs)"

lemma after_answers_snoc:
  "after_answers callback (rs @ [(call, r)]) c =
     Option.bind (after_answers callback rs c)
       (run_effects callback (case rc_done call of None \<Rightarrow> [] | Some cb \<Rightarrow> [Run_done cb r]))"
proof (induction rs arbitrary: c)
  case Nil
  have "Option.bind x Some = x" for x :: "'b option" by (cases x) simp_all
  moreover have "after_answers callback [] = Some" by (rule ext) simp
  ultimately show ?case by simp
next
  case (Cons p rs)
  then have eq: "after_answers callback (rs @ [(call, r)]) =
      (\<lambda>c. Option.bind (after_answers callback rs c)
        (run_effects callback (case rc_done call of None \<Rightarrow> [] | Some cb \<Rightarrow> [Run_done cb r])))"
    by (intro ext)
  show ?case by (cases p) (simp add: eq bind_assoc)
qed

section \<open>What the calls and the handlers promise\<close>

text \<open>The server has the method of every call, its types are those of the call, and the handlers give an
  answer of the declared type.\<close>

lemma mset_eq_of_size: "mset xs \<subseteq># mset ys \<Longrightarrow> length xs = length ys \<Longrightarrow> mset xs = mset ys"
  by (metis mset_subset_size less_irrefl size_mset subset_mset.le_imp_less_or_eq)

locale rpc_app =
  fixes serialize :: "'m \<Rightarrow> string" and parse :: "'m \<Rightarrow> string \<Rightarrow> 'm" and descr :: "'m \<Rightarrow> 't"
    and services :: "(string, 'm service) omap"
    and calls :: "('m, 'cb) rpc_call list"
    and answers :: "'m \<Rightarrow> 'm \<Rightarrow> bool"
    and callback :: "'cb \<Rightarrow> 'm \<Rightarrow> 's \<Rightarrow> 's option"
    and running :: "'s \<Rightarrow> bool"
    and on_up :: "'s \<Rightarrow> 's"
  assumes protobuf: "protobuf_ok serialize parse descr"
    and method_known: "c \<in> set calls \<Longrightarrow>
      resolve_method services (md_service (rc_method c)) (md_name (rc_method c)) = Some (rc_method c)"
    and request_typed: "c \<in> set calls \<Longrightarrow> descr (md_request (rc_method c)) = descr (rc_request c)"
    and response_typed: "c \<in> set calls \<Longrightarrow>
      \<exists>proto. rc_response c = Some proto \<and> descr proto = descr (md_response (rc_method c))"
    and few_calls: "length calls < 2 ^ 64"
begin

abbreviation step :: "('m, 'cb, 'conn, 's) app \<Rightarrow> ('m, 'cb, 'conn, 's) app \<Rightarrow> bool" where
  "step \<equiv> app_step serialize parse descr calls answers callback running on_up"

text \<open>The calls whose answers were handled, with the answers.\<close>

definition handled :: "('m, 'cb, 'conn) system \<Rightarrow> (('m, 'cb) rpc_call \<times> 'm) list" where
  "handled s = map (\<lambda>p. (the (sy_issued s (fst p)), the (sy_answered s (fst p)))) (sy_log s)"

definition issued_ok :: "('m, 'cb, 'conn) system \<Rightarrow> bool \<Rightarrow> bool" where
  "issued_ok s up \<longleftrightarrow> sy_calls s = (if up then length calls else 0) \<and>
     (\<forall>n < sy_calls s. sy_issued s (of_nat (Suc n)) = Some (calls ! n)) \<and> dom (sy_issued s) = of_nat ` {1..sy_calls s}"

lemma issued_ok_cong:
  "sy_calls t = sy_calls s \<Longrightarrow> sy_issued t = sy_issued s \<Longrightarrow> issued_ok t up = issued_ok s up"
  by (simp add: issued_ok_def)

definition run_ok :: "'s \<Rightarrow> ('m, 'cb, 'conn, 's) app \<Rightarrow> bool" where
  "run_ok c0 a \<longleftrightarrow> system_reachable serialize parse descr services (ap_rpc a) \<and>
     issued_ok (ap_rpc a) (ap_up a) \<and> sy_got (ap_rpc a) = [] \<and> sy_stored (ap_rpc a) = [] \<and> sy_dropped (ap_rpc a) = [] \<and>
     dom (sy_answered (ap_rpc a)) \<subseteq> dom (sy_issued (ap_rpc a)) \<and>
     (\<forall>i c r. sy_issued (ap_rpc a) i = Some c \<longrightarrow> sy_answered (ap_rpc a) i = Some r \<longrightarrow>
        answers (rc_request c) r \<and> descr r = descr (md_response (rc_method c))) \<and>
     after_answers callback (handled (ap_rpc a)) (if ap_up a then on_up c0 else c0) = Some (ap_client a)"

lemma issued_call:
  assumes "issued_ok s up" "sy_issued s i = Some c"
  shows "c \<in> set calls"
proof -
  have "i \<in> of_nat ` {1..sy_calls s}" using assms unfolding issued_ok_def by blast
  then obtain k where k: "i = of_nat (Suc k)" "k < sy_calls s" proof -
    obtain m where m: "i = of_nat m" "1 \<le> m" "m \<le> sy_calls s" using \<open>i \<in> _\<close> by auto
    then show thesis by (intro that [of "m - 1"]) (simp_all del: of_nat_Suc)
  qed
  have "\<forall>n < sy_calls s. sy_issued s (of_nat (Suc n)) = Some (calls ! n)" using assms(1) unfolding issued_ok_def by blast
  then have "sy_issued s i = Some (calls ! k)" using k by simp
  with assms k(2) show ?thesis by (auto simp: issued_ok_def split: if_splits)
qed

text \<open>The calls of one connection.\<close>

lemma calls_issued:
  assumes "ch_id (sy_client s) = 0" "sy_calls s = 0" "sy_issued s = Map.empty" "length xs < 2 ^ 64"
  defines "t \<equiv> fold (system_call serialize) xs s"
  shows "sy_calls t = length xs \<and> ch_id (sy_client t) = of_nat (length xs) \<and>
    (\<forall>n < length xs. sy_issued t (of_nat (Suc n)) = Some (xs ! n)) \<and> dom (sy_issued t) = of_nat ` {1..length xs} \<and>
    sy_got t = sy_got s \<and> sy_stored t = sy_stored s \<and> sy_dropped t = sy_dropped s \<and>
    sy_log t = sy_log s \<and> sy_answered t = sy_answered s"
  unfolding t_def using assms(4)
proof (induction xs rule: rev_induct)
  case Nil
  then show ?case using assms by simp
next
  case (snoc x xs)
  define u where "u = fold (system_call serialize) xs s"
  have IH: "sy_calls u = length xs" "ch_id (sy_client u) = of_nat (length xs)"
      "\<forall>n < length xs. sy_issued u (of_nat (Suc n)) = Some (xs ! n)" "dom (sy_issued u) = of_nat ` {1..length xs}"
      "sy_got u = sy_got s" "sy_stored u = sy_stored s" "sy_dropped u = sy_dropped s"
      "sy_log u = sy_log s" "sy_answered u = sy_answered s"
    using snoc by (auto simp: u_def)
  have new: "(of_nat (Suc n) :: int64) \<noteq> of_nat (Suc (length xs))" if "n < length xs" for n
    using that snoc.prems of_nat_64_eq_iff [of "Suc n" "Suc (length xs)"] by simp
  have i: "(1 + of_nat (length xs) :: int64) = of_nat (Suc (length xs))" by simp
  have issued: "sy_issued (system_call serialize x u) = (sy_issued u)(of_nat (Suc (length xs)) \<mapsto> x)"
    by (simp add: system_call_def CallMethod_eq call_store_def IH(2) add.commute)
  have "{1..Suc (length xs)} = insert (Suc (length xs)) {1..length xs}" by auto
  then have dom: "dom (sy_issued (system_call serialize x u)) = of_nat ` {1..length (xs @ [x])}"
    by (simp add: issued IH(4) del: of_nat_Suc)
  have all: "sy_issued (system_call serialize x u) (of_nat (Suc n)) = Some ((xs @ [x]) ! n)"
    if "n < length (xs @ [x])" for n
    using that IH(3) new [of n] by (cases "n = length xs") (simp_all add: issued nth_append del: of_nat_Suc)
  show ?case
    unfolding fold_append comp_apply fold_simps u_def [symmetric] id_apply
  proof (intro conjI)
    show "\<forall>n < length (xs @ [x]). sy_issued (system_call serialize x u) (of_nat (Suc n)) = Some ((xs @ [x]) ! n)"
      using all by blast
    show "dom (sy_issued (system_call serialize x u)) = of_nat ` {1..length (xs @ [x])}" by (rule dom)
  qed (simp_all add: IH system_call_def CallMethod_eq call_store_def add.commute)
qed

lemma fold_calls_reachable:
  "system_reachable serialize parse descr services s \<Longrightarrow>
     system_reachable serialize parse descr services (fold (system_call serialize) xs s)"
  by (induction xs arbitrary: s) (simp_all add: system_call_steps)

lemma handled_cong:
  "sy_log t = sy_log s \<Longrightarrow> (\<And>i. i \<in> fst ` set (sy_log s) \<Longrightarrow> sy_issued t i = sy_issued s i \<and> sy_answered t i = sy_answered s i) \<Longrightarrow>
     handled t = handled s"
  by (auto simp: handled_def)

lemma run_ok_connect:
  assumes ok: "run_ok c0 a" and up: "\<not> ap_up a"
  shows "run_ok c0 (a\<lparr>ap_up := True, ap_client := on_up (ap_client a),
    ap_rpc := fold (system_call serialize) calls (ap_rpc a)\<rparr>)"
proof -
  let ?s = "ap_rpc a" and ?t = "fold (system_call serialize) calls (ap_rpc a)"
  have r: "system_reachable serialize parse descr services ?s" using ok by (simp add: run_ok_def)
  have none: "sy_calls ?s = 0" "sy_issued ?s = Map.empty" "sy_answered ?s = Map.empty"
    using ok up by (auto simp: run_ok_def issued_ok_def)
  then have ids: "all_ids ?s = []" "ch_id (sy_client ?s) = 0" using ids_ok_reachable [OF r] by (auto simp: ids_ok_def)
  then have log: "sy_log ?s = []" by (simp add: all_ids_def)
  note t = calls_issued [OF ids(2) none(1,2) few_calls]
  have "handled ?s = []" "handled ?t = []" using t log by (simp_all add: handled_def)
  with t fold_calls_reachable [OF r] ok none(3) up show ?thesis
    by (simp add: run_ok_def issued_ok_def)
qed

lemma take_request_fields:
  "take_request parse s = Some t \<Longrightarrow>
     sy_issued t = sy_issued s \<and> sy_answered t = sy_answered s \<and> sy_log t = sy_log s \<and> sy_calls t = sy_calls s \<and>
     sy_got t = sy_got s \<and> sy_stored t = sy_stored s \<and> sy_dropped t = sy_dropped s"
  unfolding take_request_def by (auto split: list.splits sum.splits prod.splits effect.splits)

lemma run_ok_serve:
  assumes ok: "run_ok c0 a" and t: "take_request parse (ap_rpc a) = Some t"
  shows "run_ok c0 (a\<lparr>ap_rpc := t\<rparr>)"
proof -
  note f = take_request_fields [OF t]
  have "handled t = handled (ap_rpc a)" using f by (intro handled_cong) auto
  moreover have "system_reachable serialize parse descr services t"
    using ok take_request_step [OF t] by (auto simp: run_ok_def intro: reach_step)
  moreover have "issued_ok t (ap_up a) = issued_ok (ap_rpc a) (ap_up a)" using f by (intro issued_ok_cong) auto
  ultimately show ?thesis using ok f by (simp add: run_ok_def)
qed

text \<open>The requests the handlers have are those of calls.\<close>

lemma pending_request:
  assumes ok: "run_ok c0 a" and p: "(i, md, req) \<in> set (sy_pending (ap_rpc a))"
  obtains c where "sy_issued (ap_rpc a) i = Some c" "c \<in> set calls" "md = rc_method c" "req = rc_request c"
    "i \<notin> fst ` set (sy_log (ap_rpc a))"
proof -
  let ?s = "ap_rpc a"
  have r: "system_reachable serialize parse descr services ?s" and iss: "issued_ok ?s (ap_up a)"
    using ok by (simp_all add: run_ok_def)
  then have few: "sy_calls ?s < 2 ^ 64" using few_calls by (simp add: issued_ok_def)
  have sys: "system_ok serialize parse services ?s" by (rule system_ok_reachable [OF r few])
  then obtain c where c: "sy_issued ?s i = Some c" "channel_method (sy_server ?s) (rc_method c) = Some md"
      "req = parse (md_request md) (serialize (rc_request c))"
    using p by (fastforce simp: system_ok_def requests_ok_def)
  have mem: "c \<in> set calls" by (rule issued_call [OF iss c(1)])
  have "md = rc_method c" using c(2) sys method_known [OF mem] by (simp add: channel_method_def system_ok_def)
  moreover have "req = rc_request c"
    using parse_serialize [OF protobuf request_typed [OF mem]] c(3) \<open>md = rc_method c\<close> by simp
  moreover have "i \<notin> fst ` set (sy_log ?s)"
    using distinct_places(4) [OF all_ids_distinct [OF ids_ok_reachable [OF r] few]] p by force
  ultimately show thesis using that c(1) mem by blast
qed

lemma run_ok_answer:
  assumes ok: "run_ok c0 a" and p: "(i, md, req) \<in> set (sy_pending (ap_rpc a))" and ans: "answers req r"
    and t: "send_answer serialize descr i r (ap_rpc a) = Some t"
  shows "run_ok c0 (a\<lparr>ap_rpc := t\<rparr>)"
proof -
  let ?s = "ap_rpc a"
  obtain c where c: "sy_issued ?s i = Some c" "c \<in> set calls" "md = rc_method c" "req = rc_request c"
      "i \<notin> fst ` set (sy_log ?s)"
    using pending_request [OF ok p] .
  obtain us j md' req' vs resp where e: "List.extract (\<lambda>p. fst p = i) (sy_pending ?s) = Some (us, (j, md', req'), vs)"
      "doneCallback serialize descr (md_response md') (Some r) j = (Inr [Send resp] :: failure + ('m, 'cb) effect list)"
    and t_eq': "t = ?s\<lparr>sy_pending := us @ vs, sy_s2c := sy_s2c ?s @ [resp], sy_answered := (sy_answered ?s)(j \<mapsto> r)\<rparr>"
    using t unfolding send_answer_def
    by (auto split: option.splits list.splits sum.splits prod.splits effect.splits)
  have "j = i" using extract_SomeE [OF e(1)] by simp
  note t_eq = t_eq' [unfolded \<open>j = i\<close>]
  have "(i, md', req') \<in> set (sy_pending ?s)" using extract_SomeE [OF e(1)] \<open>j = i\<close> by auto
  then have "md' = md"
    using pending_request [OF ok, of i md' req'] c(1,3) by (metis option.inject)
  then have typed: "descr r = descr (md_response (rc_method c))" using doneCallback_Inr(2) [OF e(2)] c(3) by simp
  have "handled t = handled ?s" using c(5) by (intro handled_cong) (auto simp: t_eq)
  moreover have "system_reachable serialize parse descr services t"
    using ok send_answer_step [OF t] by (auto simp: run_ok_def intro: reach_step)
  moreover have "issued_ok t (ap_up a) = issued_ok ?s (ap_up a)" by (intro issued_ok_cong) (auto simp: t_eq)
  ultimately show ?thesis using ok c(1) ans typed c(4) by (simp add: run_ok_def t_eq domI)
qed

lemma completion_answer:
  assumes "c \<in> set calls" "descr r = descr (md_response (rc_method c))"
  shows "completion parse c (serialize r) = (case rc_done c of None \<Rightarrow> [] | Some cb \<Rightarrow> [Run_done cb r])"
proof -
  obtain proto where "rc_response c = Some proto" "descr proto = descr r"
    using response_typed [OF assms(1)] assms(2) by auto
  then show ?thesis using parse_serialize [OF protobuf] by (simp add: completion_def split: option.split)
qed

lemma run_ok_deliver:
  assumes ok: "run_ok c0 a" and t: "take_response parse (ap_rpc a) = Some (effs, t)"
    and run: "run_effects callback effs (ap_client a) = Some cl'"
  shows "run_ok c0 (a\<lparr>ap_rpc := t, ap_client := cl'\<rparr>)"
proof -
  let ?s = "ap_rpc a"
  have r: "system_reachable serialize parse descr services ?s" and iss: "issued_ok ?s (ap_up a)"
    using ok by (simp_all add: run_ok_def)
  then have few: "sy_calls ?s < 2 ^ 64" using few_calls by (simp add: issued_ok_def)
  have sys: "system_ok serialize parse services ?s" by (rule system_ok_reachable [OF r few])
  obtain msg rest cl where msg: "sy_s2c ?s = msg # rest"
    and rpc: "onRpcMessage parse (ch_conn (sy_client ?s)) msg (sy_client ?s) = Inr (cl, effs)"
    and t_eq: "t = ?s\<lparr>sy_client := cl, sy_s2c := rest, sy_log := sy_log ?s @ [(rm_id msg, effs)]\<rparr>"
    using t unfolding take_response_def by (auto split: list.splits sum.splits)
  obtain c x where c: "sy_issued ?s (rm_id msg) = Some c" "sy_answered ?s (rm_id msg) = Some x"
      "effs = completion parse c (serialize x)"
    using onRpcMessage_delivered [OF sys msg] rpc by (metis Inr_inject Pair_inject)
  have mem: "c \<in> set calls" by (rule issued_call [OF iss c(1)])
  have typed: "descr x = descr (md_response (rc_method c))" using ok c unfolding run_ok_def by blast
  have "handled t = handled ?s @ [(c, x)]" using c by (simp add: handled_def t_eq)
  then have "after_answers callback (handled t) (if ap_up a then on_up c0 else c0) = Some cl'"
    using ok run c(3) completion_answer [OF mem typed] by (simp add: after_answers_snoc run_ok_def)
  moreover have "system_reachable serialize parse descr services t"
    using r take_response_step [OF t] by (auto intro: reach_step)
  moreover have "issued_ok t (ap_up a) = issued_ok ?s (ap_up a)" by (intro issued_ok_cong) (auto simp: t_eq)
  ultimately show ?thesis using ok by (simp add: run_ok_def t_eq)
qed

lemma run_ok_step:
  assumes "step a b" "run_ok c0 a"
  shows "run_ok c0 b"
  using assms
proof cases
  case app_connect
  then show ?thesis using run_ok_connect assms(2) by blast
next
  case (app_serve u)
  then show ?thesis using run_ok_serve assms(2) by blast
next
  case (app_answer i md req r u)
  then show ?thesis using run_ok_answer assms(2) by blast
next
  case (app_deliver effs u c)
  then show ?thesis using run_ok_deliver assms(2) by blast
qed

lemma run_ok_init: "run_ok c0 (app_init c_conn s_conn services c0)"
  by (simp add: run_ok_def app_init_def issued_ok_def system_init_def handled_def)
    (rule reach_init [of _ _ _ _ c_conn s_conn, unfolded system_init_def])

lemma run_ok_reachable: "step\<^sup>*\<^sup>* (app_init c_conn s_conn services c0) a \<Longrightarrow> run_ok c0 a"
  by (induction rule: rtranclp_induct) (auto intro: run_ok_init run_ok_step)

section \<open>What the callbacks have seen\<close>

lemma client_state:
  "run_ok c0 a \<Longrightarrow> ap_up a \<Longrightarrow> after_answers callback (handled (ap_rpc a)) (on_up c0) = Some (ap_client a)"
  by (simp add: run_ok_def)

lemma handled_answers:
  assumes ok: "run_ok c0 a" and mem: "(c, r) \<in> set (handled (ap_rpc a))"
  shows "c \<in> set calls \<and> answers (rc_request c) r"
proof -
  let ?s = "ap_rpc a"
  have r: "system_reachable serialize parse descr services ?s" and iss: "issued_ok ?s (ap_up a)"
    using ok by (simp_all add: run_ok_def)
  then have few: "sy_calls ?s < 2 ^ 64" using few_calls by (simp add: issued_ok_def)
  have sys: "system_ok serialize parse services ?s" by (rule system_ok_reachable [OF r few])
  obtain i effs where "(i, effs) \<in> set (sy_log ?s)" "c = the (sy_issued ?s i)" "r = the (sy_answered ?s i)"
    using mem by (auto simp: handled_def)
  then have "sy_issued ?s i = Some c" "sy_answered ?s i = Some r"
    using sys by (fastforce simp: system_ok_def responses_ok_def)+
  then show ?thesis using ok issued_call [OF iss] unfolding run_ok_def by blast
qed

lemma handled_calls:
  assumes ok: "run_ok c0 a"
  shows "mset (map fst (handled (ap_rpc a))) \<subseteq># mset calls"
    and "ap_up a \<Longrightarrow> quiescent (ap_rpc a) \<Longrightarrow> length (handled (ap_rpc a)) = length calls"
proof -
  let ?s = "ap_rpc a"
  let ?f = "\<lambda>i. the (sy_issued ?s i)"
  have ids: "ids_ok ?s" and iss: "issued_ok ?s (ap_up a)" and drop: "sy_dropped ?s = []"
    using ok by (auto simp: run_ok_def ids_ok_reachable)
  have all: "mset (all_ids ?s) = mset (map of_nat [1..<Suc (sy_calls ?s)])" using ids by (simp add: ids_ok_def)
  have eq: "map ?f (map of_nat [1..<Suc (sy_calls ?s)]) = take (sy_calls ?s) calls"
  proof (rule nth_equalityI)
    have "sy_calls ?s \<le> length calls" using iss by (simp add: issued_ok_def)
    then show "length (map ?f (map of_nat [1..<Suc (sy_calls ?s)])) = length (take (sy_calls ?s) calls)" by simp
    fix n assume "n < length (map ?f (map of_nat [1..<Suc (sy_calls ?s)]))"
    then have "n < sy_calls ?s" by (simp del: upt_Suc)
    moreover from this have "sy_issued ?s (of_nat (Suc n)) = Some (calls ! n)" using iss unfolding issued_ok_def by blast
    ultimately show "map ?f (map of_nat [1..<Suc (sy_calls ?s)]) ! n = take (sy_calls ?s) calls ! n"
      by (simp del: upt_Suc)
  qed
  have "mset (map fst (sy_log ?s)) \<subseteq># mset (map of_nat [1..<Suc (sy_calls ?s)])"
    unfolding all [symmetric] by (simp add: all_ids_def)
  then have "image_mset ?f (mset (map fst (sy_log ?s))) \<subseteq># image_mset ?f (mset (map of_nat [1..<Suc (sy_calls ?s)]))"
    by (rule image_mset_subseteq_mono)
  then have "mset (map ?f (map fst (sy_log ?s))) \<subseteq># mset (take (sy_calls ?s) calls)"
    unfolding mset_map [symmetric] eq .
  moreover have "map fst (handled ?s) = map ?f (map fst (sy_log ?s))" by (simp add: handled_def)
  ultimately have 1: "mset (map fst (handled ?s)) \<subseteq># mset (take (sy_calls ?s) calls)" by (simp only:)
  have 2: "mset (take (sy_calls ?s) calls) \<subseteq># mset calls"
    by (metis append_take_drop_id mset_append mset_subset_eq_add_left)
  show "mset (map fst (handled ?s)) \<subseteq># mset calls" by (rule subset_mset.order_trans [OF 1 2])
  show "length (handled ?s) = length calls" if "ap_up a" "quiescent ?s"
  proof -
    have "length (all_ids ?s) = sy_calls ?s" using arg_cong [OF all, of size] by simp
    moreover have "all_ids ?s = map fst (sy_log ?s)" using that(2) drop by (simp add: all_ids_def quiescent_def)
    ultimately show ?thesis using that(1) iss by (simp add: handled_def issued_ok_def)
  qed
qed

section \<open>Every call is answered in the end\<close>

lemma step_work:
  assumes "step a b" "ap_up a"
  shows "ap_up b \<and> work (ap_rpc b) < work (ap_rpc a)"
  using assms
proof cases
  case (app_serve u)
  then show ?thesis
    using system_step_work [OF take_request_step [OF app_serve(2)]] take_request_fields [OF app_serve(2)] assms(2)
    by simp
next
  case (app_answer i md req r u)
  then have "sy_calls u = sy_calls (ap_rpc a)"
    unfolding send_answer_def by (auto split: option.splits list.splits sum.splits prod.splits effect.splits)
  then show ?thesis using system_step_work [OF send_answer_step [OF app_answer(4)]] app_answer assms(2) by simp
next
  case (app_deliver effs u c)
  then have "sy_calls u = sy_calls (ap_rpc a)"
    unfolding take_response_def by (auto split: list.splits sum.splits)
  then show ?thesis using system_step_work [OF take_response_step [OF app_deliver(3)]] app_deliver assms(2) by simp
qed simp

lemma app_progress:
  assumes ok: "run_ok c0 a" and up: "ap_up a" and run: "running (ap_client a)"
    and unfinished: "\<not> quiescent (ap_rpc a)"
    and handlers: "\<And>c. c \<in> set calls \<Longrightarrow> \<exists>r. answers (rc_request c) r \<and> descr r = descr (md_response (rc_method c))"
    and callbacks: "\<And>c r. c \<in> set calls \<Longrightarrow> answers (rc_request c) r \<Longrightarrow>
      run_effects callback (case rc_done c of None \<Rightarrow> [] | Some cb \<Rightarrow> [Run_done cb r]) (ap_client a) \<noteq> None"
  shows "\<exists>b. step a b"
proof -
  let ?s = "ap_rpc a"
  have r: "system_reachable serialize parse descr services ?s" and iss: "issued_ok ?s (ap_up a)"
    and idle: "sy_got ?s = []" "sy_stored ?s = []"
    using ok by (simp_all add: run_ok_def)
  then have few: "sy_calls ?s < 2 ^ 64" using few_calls by (simp add: issued_ok_def)
  have sys: "system_ok serialize parse services ?s" by (rule system_ok_reachable [OF r few])
  from unfinished idle consider (c2s) "sy_c2s ?s \<noteq> []" | (pending) "sy_pending ?s \<noteq> []" | (s2c) "sy_s2c ?s \<noteq> []"
    by (auto simp: quiescent_def)
  then show ?thesis
  proof cases
    case c2s
    then obtain msg rest where msg: "sy_c2s ?s = msg # rest" by (meson neq_Nil_conv)
    obtain j c where c: "sy_issued ?s j = Some c" "msg = request_message serialize j c"
      using system_ok_head [OF sys msg] by blast
    have "channel_method (sy_server ?s) (rc_method c) = Some (rc_method c)"
      using sys method_known [OF issued_call [OF iss c(1)]] by (simp add: channel_method_def system_ok_def)
    then obtain u where "take_request parse ?s = Some u"
      by (simp add: take_request_def msg c(2) onRpcMessage_request_message)
    then show ?thesis by (blast intro: app_step.app_serve)
  next
    case pending
    then obtain i md req vs where "sy_pending ?s = (i, md, req) # vs" by (metis neq_Nil_conv surj_pair)
    then have p: "(i, md, req) \<in> set (sy_pending ?s)" by simp
    obtain c where c: "sy_issued ?s i = Some c" "c \<in> set calls" "md = rc_method c" "req = rc_request c"
      using pending_request [OF ok p] .
    obtain x where x: "answers req x" "descr x = descr (md_response md)" using handlers [OF c(2)] c(3,4) by blast
    obtain us q ws where e: "List.extract (\<lambda>p. fst p = i) (sy_pending ?s) = Some (us, q, ws)"
      using p by (cases "List.extract (\<lambda>p. fst p = i) (sy_pending ?s)") (auto simp: extract_None_iff)
    obtain j md' req' where q: "q = (j, md', req')" by (cases q)
    have mem: "(i, md', req') \<in> set (sy_pending ?s)" and j: "j = i" using extract_SomeE [OF e] q by auto
    have "md' = md" using pending_request [OF ok mem] c(1,3) by (metis option.inject)
    then obtain u where "send_answer serialize descr i x ?s = Some u"
      using e x(2) by (simp add: send_answer_def q doneCallback_def)
    then show ?thesis using p x(1) by (blast intro: app_step.app_answer)
  next
    case s2c
    then obtain msg rest where msg: "sy_s2c ?s = msg # rest" by (meson neq_Nil_conv)
    obtain c x where c: "sy_issued ?s (rm_id msg) = Some c" "sy_answered ?s (rm_id msg) = Some x"
      and rpc: "onRpcMessage parse (ch_conn (sy_client ?s)) msg (sy_client ?s) =
        Inr (sy_client ?s\<lparr>ch_outstandings := hm_erase (rm_id msg) (ch_outstandings (sy_client ?s))\<rparr>,
          completion parse c (serialize x))"
      using onRpcMessage_delivered [OF sys msg] .
    have mem: "c \<in> set calls" by (rule issued_call [OF iss c(1)])
    have x: "answers (rc_request c) x" "descr x = descr (md_response (rc_method c))"
      using ok c unfolding run_ok_def by blast+
    obtain u where "take_response parse ?s = Some (completion parse c (serialize x), u)"
      by (simp add: take_response_def msg rpc)
    moreover obtain cl' where "run_effects callback (completion parse c (serialize x)) (ap_client a) = Some cl'"
      using callbacks [OF mem x(1)] unfolding completion_answer [OF mem x(2)] by auto
    ultimately show ?thesis using run by (blast intro: app_step.app_deliver)
  qed
qed

text \<open>So every run that is up ends, with everything answered or with a client that quit.\<close>

lemma app_ends:
  assumes "run_ok c0 a" "ap_up a"
    and handlers: "\<And>c. c \<in> set calls \<Longrightarrow> \<exists>r. answers (rc_request c) r \<and> descr r = descr (md_response (rc_method c))"
    and callbacks: "\<And>c r cl. c \<in> set calls \<Longrightarrow> answers (rc_request c) r \<Longrightarrow>
      run_effects callback (case rc_done c of None \<Rightarrow> [] | Some cb \<Rightarrow> [Run_done cb r]) cl \<noteq> None"
  shows "\<exists>b. step\<^sup>*\<^sup>* a b \<and> run_ok c0 b \<and> ap_up b \<and> (quiescent (ap_rpc b) \<or> \<not> running (ap_client b))"
  using assms(1,2)
proof (induction "work (ap_rpc a)" arbitrary: a rule: less_induct)
  case less
  show ?case
  proof (cases "quiescent (ap_rpc a) \<or> \<not> running (ap_client a)")
    case True
    with less.prems show ?thesis by blast
  next
    case False
    then obtain b where b: "step a b" using app_progress [OF less.prems] handlers callbacks by blast
    then have "ap_up b" "work (ap_rpc b) < work (ap_rpc a)" "run_ok c0 b"
      using step_work [OF b] run_ok_step [OF b] less.prems by auto
    with less.hyps [of b] b show ?thesis by (meson converse_rtranclp_into_rtranclp)
  qed
qed

end

text \<open>The calls of a client's connection callback, and the effects they have on the channel alone.\<close>

fun make_calls :: "('m \<Rightarrow> string) \<Rightarrow> ('m, 'cb) rpc_call list \<Rightarrow> ('m, 'cb, 'conn) channel \<Rightarrow>
    ('m, 'cb, 'conn) channel \<times> ('m, 'cb) effect list" where
  "make_calls serialize [] ch = (ch, [])"
| "make_calls serialize (c # cs) ch =
     (let (ch, effs) = CallMethod serialize c ch; (ch, effs') = make_calls serialize cs ch in (ch, effs @ effs'))"

lemma make_calls_system:
  "make_calls serialize cs (sy_client s) =
     (sy_client (fold (system_call serialize) cs s),
      map Send (drop (length (sy_c2s s)) (sy_c2s (fold (system_call serialize) cs s)))) \<and>
   take (length (sy_c2s s)) (sy_c2s (fold (system_call serialize) cs s)) = sy_c2s s"
proof (induction cs arbitrary: s)
  case (Cons c cs)
  let ?s = "system_call serialize c s"
  let ?m = "request_message serialize (ch_id (sy_client s) + 1) c"
  have s: "sy_c2s ?s = sy_c2s s @ [?m]" "CallMethod serialize c (sy_client s) = (sy_client ?s, [Send ?m])"
    by (simp_all add: system_call_def CallMethod_eq)
  let ?q = "sy_c2s (fold (system_call serialize) cs ?s)"
  have q: "?q = (sy_c2s s @ [?m]) @ drop (length (sy_c2s s @ [?m])) ?q"
    using Cons.IH [of ?s] s(1) by (metis append_take_drop_id)
  have "drop (length (sy_c2s s)) ?q = ?m # drop (length (sy_c2s s @ [?m])) ?q"
    by (subst q) simp
  moreover have "take (length (sy_c2s s)) ?q = sy_c2s s" by (subst q) simp
  ultimately show ?case using Cons.IH [of ?s] s by (simp add: case_prod_beta Let_def)
qed simp

section \<open>An encoding\<close>

text \<open>A concrete codec, which keeps the contract of the library: the message as a number, in unary.\<close>

lemma protobuf_unary:
  assumes "\<And>p m. descr p = descr m \<Longrightarrow> dec p (enc m) = m"
  shows "protobuf_ok (\<lambda>m. replicate (enc m) (CHR ''1'')) (\<lambda>p s. dec p (length s)) descr"
  using assms by (simp add: protobuf_ok_def)

end
