(* ===== verification/RpcServer.thy ===== *)
theory RpcServer
  imports RpcChannel
begin

text \<open>
  The RPC server (muduo/protorpc2/RpcServer.h, RpcServer.cc) and the meta service it registers
  with itself (RpcService.h, RpcService.cc). The server keeps the services by name and makes
  a channel for each new connection, which it stores as the connection's context. All channels
  share the server's table of services, so the table is passed to the channel when a message
  is dispatched. \<^verbatim>\<open>TcpServer\<close> accepts connections and calls \<open>onConnection\<close>.
\<close>

section \<open>The meta service\<close>

datatype error_code = NO_ERROR | NO_SERVICE

record list_rpc_response =
  lr_error :: "error_code option"
  lr_service_name :: "string list"
  lr_method_name :: "string list"

record get_service_response =
  gs_error :: "error_code option"
  gs_proto_file :: "string list"
  gs_proto_file_name :: "string list"

definition method_line :: "'m method_desc \<Rightarrow> string" where
  "method_line method = md_full_name method @ '' ('' @ md_input method @ '') : '' @ md_output method"

definition addMethodNames :: "'m service \<Rightarrow> list_rpc_response \<Rightarrow> list_rpc_response" where
  "addMethodNames sd response =
     fold (\<lambda>method r. r\<lparr>lr_method_name := lr_method_name r @ [method_line method]\<rparr>)
       (sv_methods sd) response"

text \<open>The body of the two loops of \<^verbatim>\<open>listRpc\<close>.\<close>

definition add_service ::
  "bool \<Rightarrow> string \<times> 'm service \<Rightarrow> list_rpc_response \<Rightarrow> list_rpc_response" where
  "add_service list_method it response =
     (let response = response\<lparr>lr_service_name := lr_service_name response @ [fst it]\<rparr>
      in if list_method then addMethodNames (snd it) response else response)"

text \<open>The response given to \<^verbatim>\<open>done\<close>, for a request with an optional service name.\<close>

definition listRpc ::
  "(string, 'm service) omap \<Rightarrow> string option \<Rightarrow> bool \<Rightarrow> list_rpc_response" where
  "listRpc services service_name list_method =
     (let response = \<lparr>lr_error = None, lr_service_name = [], lr_method_name = []\<rparr> in
      case service_name of
        Some name \<Rightarrow>
          (case om_find services name of
             Some sv \<Rightarrow> add_service list_method (name, sv) (response\<lparr>lr_error := Some NO_ERROR\<rparr>)
           | None \<Rightarrow> response\<lparr>lr_error := Some NO_SERVICE\<rparr>)
      | None \<Rightarrow> fold (add_service list_method) services (response\<lparr>lr_error := Some NO_ERROR\<rparr>))"

definition getService ::
  "(string, 'm service) omap \<Rightarrow> string \<Rightarrow> get_service_response" where
  "getService services service_name =
     (let response = \<lparr>gs_error = None, gs_proto_file = [], gs_proto_file_name = []\<rparr> in
      case om_find services service_name of
        Some sv \<Rightarrow>
          (let fd = sv_file sv;
               response = response\<lparr>gs_error := Some NO_ERROR,
                 gs_proto_file := gs_proto_file response @ [fd_text fd],
                 gs_proto_file_name := gs_proto_file_name response @ [fd_name fd]\<rparr>
           in fold (\<lambda>d r. r\<lparr>gs_proto_file := gs_proto_file r @ [snd d],
                           gs_proto_file_name := gs_proto_file_name r @ [fst d]\<rparr>)
                (fd_dependencies fd) response)
      | None \<Rightarrow> response\<lparr>gs_error := Some NO_SERVICE\<rparr>)"

section \<open>The server\<close>

record ('m, 'cb, 'conn) server =
  srv_services :: "(string, 'm service) omap"
  srv_context :: "'conn \<rightharpoonup> ('m, 'cb, 'conn) channel"
  srv_started :: bool

definition registerService ::
  "'m service \<Rightarrow> ('m, 'cb, 'conn) server \<Rightarrow> ('m, 'cb, 'conn) server" where
  "registerService service srv =
     srv\<lparr>srv_services := om_store (sv_full_name service) service (srv_services srv)\<rparr>"

definition RpcServer_new :: "'m service \<Rightarrow> ('m, 'cb, 'conn) server" where
  "RpcServer_new metaService =
     registerService metaService \<lparr>srv_services = [], srv_context = Map.empty, srv_started = False\<rparr>"

definition start :: "('m, 'cb, 'conn) server \<Rightarrow> ('m, 'cb, 'conn) server" where
  "start srv = srv\<lparr>srv_started := True\<rparr>"

definition onConnection ::
  "'conn \<Rightarrow> bool \<Rightarrow> ('m, 'cb, 'conn) server \<Rightarrow> ('m, 'cb, 'conn) server" where
  "onConnection conn connected srv =
     (if connected then
        (let channel = setServices (srv_services srv) (RpcChannel_conn conn)
         in srv\<lparr>srv_context := hm_store conn channel (srv_context srv)\<rparr>)
      else srv\<lparr>srv_context := hm_erase conn (srv_context srv)\<rparr>)"

text \<open>A message on a connection goes to the channel in its context; the channel's pointer to the
  services reads the table as it is now.\<close>

definition server_message ::
  "('m \<Rightarrow> string \<Rightarrow> 'm) \<Rightarrow> 'conn \<Rightarrow> rpc_message \<Rightarrow> ('m, 'cb, 'conn) server \<Rightarrow>
     (failure + ('m, 'cb, 'conn) server \<times> ('m, 'cb) effect list) option" where
  "server_message parse conn message srv =
     map_option (\<lambda>channel.
       case onRpcMessage parse (Some conn) message (setServices (srv_services srv) channel) of
         Inl f \<Rightarrow> Inl f
       | Inr (channel', effs) \<Rightarrow>
           Inr (srv\<lparr>srv_context := hm_store conn channel' (srv_context srv)\<rparr>, effs))
     (srv_context srv conn)"

section \<open>Registration and dispatch\<close>

lemma registerService_services:
  "srv_services (registerService sv srv) = om_store (sv_full_name sv) sv (srv_services srv)"
  by (simp add: registerService_def)

lemma register_all_services:
  "srv_services (fold registerService svs srv) =
     fold (\<lambda>(k, v). om_store k v) (map (\<lambda>sv. (sv_full_name sv, sv)) svs) (srv_services srv)"
  by (induction svs arbitrary: srv) (simp_all add: registerService_services)

definition service_table :: "'m service list \<Rightarrow> (string, 'm service) omap" where
  "service_table svs = fold (\<lambda>(k, v). om_store k v) (map (\<lambda>sv. (sv_full_name sv, sv)) svs) []"

lemma services_after_registration:
  "srv_services (fold registerService svs (RpcServer_new meta)) = service_table (meta # svs)"
  by (simp add: register_all_services RpcServer_new_def registerService_def service_table_def)

lemma registered_ok: "om_ok (service_table svs)"
  unfolding service_table_def by (rule om.ok_store_all [OF om.ok_empty])

lemma registered_found:
  assumes "distinct (map sv_full_name svs)" "sv \<in> set svs"
  shows "om_find (service_table svs) (sv_full_name sv) = Some sv"
  unfolding service_table_def
  by (rule om.find_store_all_distinct [OF om.ok_empty]) (use assms in \<open>auto simp: o_def\<close>)

lemma registered_names: "fst ` set (service_table svs) = sv_full_name ` set svs"
proof -
  have keys: "fst ` set (om_store k v m) = insert k (fst ` set m)" for k v and m :: "(string, 'a service) omap"
    using om_store_keys [of k v m] by simp
  have "fst ` set (fold (\<lambda>(k, v). om_store k v) kvs m) = fst ` set kvs \<union> fst ` set m"
    for kvs and m :: "(string, 'a service) omap"
  proof (induction kvs arbitrary: m)
    case (Cons kv kvs)
    then show ?case by (cases kv) (simp add: keys)
  qed simp
  then show ?thesis unfolding service_table_def by (simp add: image_image)
qed


definition example_service :: "string \<Rightarrow> string service" where
  "example_service name = \<lparr>sv_full_name = name,
     sv_methods = [\<lparr>md_name = ''Run'', md_full_name = name @ ''.Run'', md_service = name,
       md_input = ''In'', md_output = ''Out'', md_request = [], md_response = []\<rparr>],
     sv_file = \<lparr>fd_name = ''a.proto'', fd_text = ''x'', fd_dependencies = [(''b.proto'', ''y'')]\<rparr>\<rparr>"


section \<open>Listing\<close>

lemma addMethodNames_eq:
  "addMethodNames sv r = r\<lparr>lr_method_name := lr_method_name r @ map method_line (sv_methods sv)\<rparr>"
proof -
  have "fold (\<lambda>method r. r\<lparr>lr_method_name := lr_method_name r @ [method_line method]\<rparr>) ms r =
      r\<lparr>lr_method_name := lr_method_name r @ map method_line ms\<rparr>" for ms
    by (induction ms arbitrary: r) simp_all
  then show ?thesis by (simp add: addMethodNames_def)
qed

lemma add_services_eq:
  "fold (add_service list_method) its r =
     r\<lparr>lr_service_name := lr_service_name r @ map fst its,
       lr_method_name := lr_method_name r @
         (if list_method then concat (map (\<lambda>it. map method_line (sv_methods (snd it))) its) else [])\<rparr>"
  by (induction its arbitrary: r) (simp_all add: add_service_def addMethodNames_eq)

text \<open>C31: The meta service lists the services exactly: the registered names, each once and in
  increasing order, whatever the order of registration and even if a name is registered twice;
  and asked for one name, it gives that service with all of its methods, or the error
  \<open>NO_SERVICE\<close> exactly if the name is not registered.\<close>

theorem listRpc_exact:
  assumes "services = srv_services (fold registerService svs (RpcServer_new meta))"
  shows "lr_service_name (listRpc services None list_method) =
      sorted_list_of_set (sv_full_name ` set (meta # svs)) \<and>
    (lr_error (listRpc services (Some name) list_method) = Some NO_SERVICE \<longleftrightarrow>
      name \<notin> sv_full_name ` set (meta # svs)) \<and>
    (\<forall>sv. distinct (map sv_full_name (meta # svs)) \<and> sv \<in> set (meta # svs) \<longrightarrow>
      listRpc services (Some (sv_full_name sv)) True =
        \<lparr>lr_error = Some NO_ERROR, lr_service_name = [sv_full_name sv],
         lr_method_name = map method_line (sv_methods sv)\<rparr>)"
proof (intro conjI allI impI)
  have ok: "om_ok services" and names: "fst ` set services = sv_full_name ` set (meta # svs)"
    unfolding assms services_after_registration by (rule registered_ok, rule registered_names)
  have "sorted_list_of_set (set (map fst services)) = map fst services"
    using ok unfolding om_ok_def by (intro sorted_list_of_set.idem_if_sorted_distinct) (simp_all add: strict_sorted_iff)
  with names show "lr_service_name (listRpc services None list_method) =
      sorted_list_of_set (sv_full_name ` set (meta # svs))"
    by (simp add: listRpc_def add_services_eq)
  show "lr_error (listRpc services (Some name) list_method) = Some NO_SERVICE \<longleftrightarrow>
      name \<notin> sv_full_name ` set (meta # svs)"
    unfolding names [symmetric] om_find_in_keys
    by (simp add: listRpc_def add_service_def addMethodNames_eq Let_def split: option.split)
  fix sv assume "distinct (map sv_full_name (meta # svs)) \<and> sv \<in> set (meta # svs)"
  then have "om_find services (sv_full_name sv) = Some sv"
    unfolding assms services_after_registration by (simp only: registered_found)
  then show "listRpc services (Some (sv_full_name sv)) True =
        \<lparr>lr_error = Some NO_ERROR, lr_service_name = [sv_full_name sv],
         lr_method_name = map method_line (sv_methods sv)\<rparr>"
    by (simp add: listRpc_def add_service_def addMethodNames_eq)
qed

theorem listRpc_exact_witness:
  "lr_method_name (listRpc (srv_services (fold registerService [example_service ''B'']
      (RpcServer_new (example_service ''Meta'') :: (string, nat, unit) server))) (Some ''B'') True) =
    [''B.Run (In) : Out'']"
proof -
  let ?B = "example_service ''B''"
  let ?services = "srv_services (fold registerService [?B]
      (RpcServer_new (example_service ''Meta'') :: (string, nat, unit) server))"
  have eq: "?services = ?services" by (rule refl)
  have "listRpc ?services (Some (sv_full_name ?B)) True =
      \<lparr>lr_error = Some NO_ERROR, lr_service_name = [sv_full_name ?B],
       lr_method_name = map method_line (sv_methods ?B)\<rparr>"
    by (rule listRpc_exact [OF eq, THEN conjunct2, THEN conjunct2, rule_format])
       (simp add: example_service_def)
  then show ?thesis by (simp add: example_service_def method_line_def)
qed

end
