(* ===== verification/NQueensSystem.thy ===== *)
theory NQueensSystem
  imports NQueensClient RpcApp RpcServer "HOL-Library.Countable"
begin

text \<open>
  The whole N-queens example: the client of \<open>NQueensClient\<close> and the server (examples/nqueens/server.cc) with the
  solver of \<open>NQueens\<close>, joined by the RPC channels. The server's thread pool solves the requests in any order. The
  property says what the example is for: the client logs the number of solutions of the board.
\<close>

section \<open>The messages and the service\<close>

text \<open>The messages of nqueens.proto; \<^verbatim>\<open>seconds\<close> is kept in microseconds.\<close>

record sub_problem_request =
  sq_nqueens :: int
  sq_first_row :: int
  sq_second_row :: "int option"

record sub_problem_response =
  sr_count :: int
  sr_micros :: int

datatype nq_message = SubProblemRequest sub_problem_request | SubProblemResponse sub_problem_response

definition nq_descr :: "nq_message \<Rightarrow> bool" where
  "nq_descr m = (case m of SubProblemRequest _ \<Rightarrow> True | SubProblemResponse _ \<Rightarrow> False)"

definition solve_method :: "nq_message method_desc" where
  "solve_method = \<lparr>md_name = ''Solve'', md_full_name = ''nqueens.NQueensService.Solve'',
     md_service = ''nqueens.NQueensService'', md_input = ''nqueens.SubProblemRequest'',
     md_output = ''nqueens.SubProblemResponse'',
     md_request = SubProblemRequest \<lparr>sq_nqueens = 0, sq_first_row = 0, sq_second_row = None\<rparr>,
     md_response = SubProblemResponse \<lparr>sr_count = 0, sr_micros = 0\<rparr>\<rparr>"

definition nqueens_service :: "nq_message service" where
  "nqueens_service = \<lparr>sv_full_name = ''nqueens.NQueensService'', sv_methods = [solve_method],
     sv_file = \<lparr>fd_name = ''nqueens.proto'', fd_text = [], fd_dependencies = []\<rparr>\<rparr>"

section \<open>The server\<close>

text \<open>A task of the pool, with the time it took; reading the unset \<^verbatim>\<open>second_row\<close> gives its default.\<close>

definition doSolve :: "sub_problem_request \<Rightarrow> int \<Rightarrow> nq_message option" where
  "doSolve request micros =
     map_option (\<lambda>n. SubProblemResponse \<lparr>sr_count = n, sr_micros = micros\<rparr>)
       (backtrackingsub (sq_nqueens request) (sq_first_row request)
          (case sq_second_row request of None \<Rightarrow> -1 | Some row \<Rightarrow> row))"

text \<open>\<^verbatim>\<open>Solve\<close> only gives the task to the pool, which runs it at any later time.\<close>

inductive Solve :: "nq_message \<Rightarrow> nq_message \<Rightarrow> bool" where
  "doSolve request micros = Some response \<Longrightarrow> Solve (SubProblemRequest request) response"

inductive_cases SolveE: "Solve req r"

text \<open>The services of the server that \<^verbatim>\<open>main\<close> starts; \<open>meta\<close> is the reflection service.\<close>

definition nqueens_server :: "nq_message service \<Rightarrow> (nq_message, nat, unit) server" where
  "nqueens_server meta = RpcServer.start (registerService nqueens_service (RpcServer_new meta))"

section \<open>The client\<close>

definition solve_call :: "nat \<Rightarrow> nat \<Rightarrow> (nq_message, nat) rpc_call" where
  "solve_call n col =
     \<lparr>rc_method = solve_method,
      rc_request = SubProblemRequest \<lparr>sq_nqueens = int n, sq_first_row = int col, sq_second_row = None\<rparr>,
      rc_response = Some (md_response solve_method), rc_done = Some col\<rparr>"

definition run_calls :: "nat \<Rightarrow> (nq_message, nat) rpc_call list" where
  "run_calls n = map (solve_call n) (client_requests n)"

text \<open>The callback; the second part of the state is the list of the totals logged. A message of another type
  fails the cast.\<close>

definition solved :: "nat \<Rightarrow> nat \<Rightarrow> nq_message \<Rightarrow> client \<times> int list \<Rightarrow> (client \<times> int list) option" where
  "solved n col m s =
     (case m of
        SubProblemRequest _ \<Rightarrow> None
      | SubProblemResponse resp \<Rightarrow>
          (let (c, out) = response_cb n (col, sr_count resp) (fst s)
           in Some (c, snd s @ (case out of None \<Rightarrow> [] | Some t \<Rightarrow> [t]))))"

text \<open>The connection callback of \<^verbatim>\<open>main\<close>; the last result tells the loop to quit.\<close>

definition nq_onConnection :: "(nq_message \<Rightarrow> string) \<Rightarrow> nat \<Rightarrow> 'conn \<Rightarrow> bool \<Rightarrow> (nq_message, nat, 'conn) channel \<Rightarrow>
    (nq_message, nat, 'conn) channel \<times> (nq_message, nat) effect list \<times> bool" where
  "nq_onConnection serialize n conn connected ch =
     (if connected then
        (let (ch, effs) = make_calls serialize (run_calls n) (setConnection (Some conn) ch) in (ch, effs, False))
      else (setConnection None ch, [], True))"

abbreviation nq_step where
  "nq_step serialize parse n \<equiv> app_step serialize parse nq_descr (run_calls n) Solve (solved n) (\<lambda>_. True) id"

section \<open>The example keeps the contract of the event loops\<close>

lemma nqueens_services:
  "resolve_method (srv_services (nqueens_server meta)) ''nqueens.NQueensService'' ''Solve'' = Some solve_method"
  by (simp add: resolve_method_def nqueens_server_def RpcServer.start_def registerService_def RpcServer_new_def
      om_find_store om_ok_store om_ok_def nqueens_service_def FindMethodByName_def solve_method_def)

lemma solve_call_simps:
  "rc_method (solve_call n col) = solve_method"
  "rc_request (solve_call n col) = SubProblemRequest \<lparr>sq_nqueens = int n, sq_first_row = int col, sq_second_row = None\<rparr>"
  "rc_response (solve_call n col) = Some (md_response solve_method)" "rc_done (solve_call n col) = Some col"
  by (simp_all add: solve_call_def)

lemma nq_app:
  assumes "n \<le> 20" "protobuf_ok serialize parse nq_descr"
  shows "rpc_app serialize parse nq_descr (srv_services (nqueens_server meta)) (run_calls n)"
proof
  show "protobuf_ok serialize parse nq_descr" by (rule assms(2))
  show "length (run_calls n) < 2 ^ 64" using assms(1) by (simp add: run_calls_def client_requests_def)
next
  fix c assume "c \<in> set (run_calls n)"
  then obtain col where c: "c = solve_call n col" by (auto simp: run_calls_def)
  show "resolve_method (srv_services (nqueens_server meta)) (md_service (rc_method c)) (md_name (rc_method c)) =
      Some (rc_method c)"
    using nqueens_services by (simp add: c solve_call_simps solve_method_def)
  show "nq_descr (md_request (rc_method c)) = nq_descr (rc_request c)"
    by (simp add: c solve_call_simps solve_method_def nq_descr_def)
  show "\<exists>proto. rc_response c = Some proto \<and> nq_descr proto = nq_descr (md_response (rc_method c))"
    by (simp add: c solve_call_simps)
qed

text \<open>The state of the client after some answers is that of \<open>client_run\<close>.\<close>

lemma after_answers_client_run:
  assumes "\<forall>(c, r)\<in>set rs. c \<in> set (run_calls n) \<and> Solve (rc_request c) r"
  obtains rs' where "after_answers (solved n) rs (cl, outs) = Some (fst (client_run n rs' cl), outs @ snd (client_run n rs' cl))"
    "map (\<lambda>p. solve_call n (fst p)) rs' = map fst rs" "\<forall>(col, k)\<in>set rs'. backtrackingsub (int n) (int col) (-1) = Some k"
  using assms
proof (induction rs arbitrary: cl outs thesis)
  case Nil
  then show ?case by simp
next
  case (Cons p rs)
  obtain c r where p: "p = (c, r)" by (cases p)
  then obtain col where c: "c = solve_call n col" and r: "Solve (rc_request c) r"
    using Cons.prems(2) by (auto simp: run_calls_def)
  from r obtain k micros where k: "backtrackingsub (int n) (int col) (-1) = Some k"
      "r = SubProblemResponse \<lparr>sr_count = k, sr_micros = micros\<rparr>"
    by (auto simp: c solve_call_simps doSolve_def elim!: SolveE)
  obtain cl' out where cb: "response_cb n (col, k) cl = (cl', out)" by (cases "response_cb n (col, k) cl")
  let ?outs = "outs @ (case out of None \<Rightarrow> [] | Some t \<Rightarrow> [t])"
  obtain rs' where rs': "after_answers (solved n) rs (cl', ?outs) =
        Some (fst (client_run n rs' cl'), ?outs @ snd (client_run n rs' cl'))"
      "map (\<lambda>p. solve_call n (fst p)) rs' = map fst rs" "\<forall>(col, k)\<in>set rs'. backtrackingsub (int n) (int col) (-1) = Some k"
    using Cons.IH [of cl' ?outs] Cons.prems(2) by auto
  show ?case
  proof (rule Cons.prems(1) [of "(col, k) # rs'"])
    show "after_answers (solved n) (p # rs) (cl, outs) =
        Some (fst (client_run n ((col, k) # rs') cl), outs @ snd (client_run n ((col, k) # rs') cl))"
      using rs'(1) cb by (simp add: p c solve_call_simps k solved_def case_prod_beta Let_def split: option.split)
  qed (use rs' k p c in auto)
qed

text \<open>The handlers answer every call the client makes.\<close>

lemma nq_handlers:
  assumes "2 \<le> n" "n \<le> 20" "c \<in> set (run_calls n)"
  shows "\<exists>r. Solve (rc_request c) r \<and> nq_descr r = nq_descr (md_response (rc_method c))"
proof -
  obtain col where c: "c = solve_call n col" "col < (n + 1) div 2" using assms(3) by (auto simp: run_calls_def client_requests_def)
  then have "backtrackingsub (int n) (int col) (-1) = Some (int (completions n (n - 1) [col]))"
    using backtrackingsub_one_row [of "int col" "int n" "-1"] assms by simp
  then have "Solve (rc_request c) (SubProblemResponse \<lparr>sr_count = int (completions n (n - 1) [col]), sr_micros = 0\<rparr>)"
    by (auto simp: c solve_call_simps doSolve_def intro!: Solve.intros)
  then show ?thesis by (auto simp: c solve_call_simps solve_method_def nq_descr_def)
qed

lemma nq_callbacks:
  assumes "c \<in> set (run_calls n)" "Solve (rc_request c) r"
  shows "run_effects (solved n) (case rc_done c of None \<Rightarrow> [] | Some cb \<Rightarrow> [Run_done cb r]) s \<noteq> None"
proof -
  obtain col where "c = solve_call n col" using assms(1) by (auto simp: run_calls_def)
  with assms(2) show ?thesis
    by (auto simp: solve_call_simps solved_def doSolve_def case_prod_beta Let_def elim!: SolveE)
qed

lemma columns_of_calls: "image_mset (\<lambda>c. the (rc_done c)) (image_mset (solve_call n) cols) = cols"
  by (simp add: multiset.map_comp comp_def solve_call_simps)

section \<open>The client counts the solutions\<close>


section \<open>A run\<close>

text \<open>A codec for the messages, and a run of the example on a board of four rows.\<close>

definition nq_encode :: "nq_message \<Rightarrow> nat" where
  "nq_encode m = (case m of
       SubProblemRequest q \<Rightarrow> list_encode (map int_encode ([sq_nqueens q, sq_first_row q] @
         (case sq_second_row q of None \<Rightarrow> [] | Some row \<Rightarrow> [row])))
     | SubProblemResponse r \<Rightarrow> list_encode (map int_encode [sr_count r, sr_micros r]))"

definition nq_decode :: "nq_message \<Rightarrow> nat \<Rightarrow> nq_message" where
  "nq_decode p k = (let xs = map int_decode (list_decode k) in
     case p of
       SubProblemRequest _ \<Rightarrow> SubProblemRequest \<lparr>sq_nqueens = xs ! 0, sq_first_row = xs ! 1,
         sq_second_row = (if length xs = 2 then None else Some (xs ! 2))\<rparr>
     | SubProblemResponse _ \<Rightarrow> SubProblemResponse \<lparr>sr_count = xs ! 0, sr_micros = xs ! 1\<rparr>)"

abbreviation nq_serialize :: "nq_message \<Rightarrow> string" where
  "nq_serialize \<equiv> \<lambda>m. replicate (nq_encode m) (CHR ''1'')"

abbreviation nq_parse :: "nq_message \<Rightarrow> string \<Rightarrow> nq_message" where
  "nq_parse \<equiv> \<lambda>p bytes. nq_decode p (length bytes)"

lemma nq_protobuf: "protobuf_ok nq_serialize nq_parse nq_descr"
proof (rule protobuf_unary)
  fix p m assume "nq_descr p = nq_descr m"
  then show "nq_decode p (nq_encode m) = m"
    by (cases p; cases m) (auto simp: nq_descr_def nq_decode_def nq_encode_def Let_def split: option.split)
qed

interpretation nq: rpc_app nq_serialize nq_parse nq_descr "srv_services (nqueens_server meta)" "run_calls (min n 20)"
    Solve "solved n" "\<lambda>_. True" id for meta n
  by (rule nq_app) (simp_all add: nq_protobuf)

definition nq_example_init :: "(nq_message, nat, unit, client \<times> int list) app" where
  "nq_example_init = app_init () () (srv_services (nqueens_server nqueens_service)) (client_init, [])"

lemma nq_example_run:
  "\<exists>a. (nq_step nq_serialize nq_parse 4)\<^sup>*\<^sup>* nq_example_init a \<and> ap_up a \<and> quiescent (ap_rpc a)"
proof -
  define b where "b = nq_example_init\<lparr>ap_up := True, ap_client := id (ap_client nq_example_init),
    ap_rpc := fold (system_call nq_serialize) (run_calls 4) (ap_rpc nq_example_init)\<rparr>"
  have b: "nq_step nq_serialize nq_parse 4 nq_example_init b"
    unfolding b_def by (rule app_step.app_connect) (simp add: nq_example_init_def app_init_def)
  have "rpc_app.run_ok nq_serialize nq_parse nq_descr (srv_services (nqueens_server nqueens_service)) (run_calls 4) Solve (solved 4)
      id (client_init, []) b"
    using nq.run_ok_init [where n = 4 and meta = nqueens_service]
    by (intro nq.run_ok_step [where n = 4 and meta = nqueens_service, simplified, OF b]) (simp add: nq_example_init_def)
  from nq.app_ends [where n = 4 and meta = nqueens_service, simplified, OF this] obtain a where "(nq_step nq_serialize nq_parse 4)\<^sup>*\<^sup>* b a" "ap_up a" "quiescent (ap_rpc a)"
    using nq_handlers [of 4] nq_callbacks [of _ 4] by (force simp: b_def)
  with b show ?thesis by (meson converse_rtranclp_into_rtranclp)
qed


end
