(* ===== verification/Resolver.thy ===== *)
theory Resolver
  imports RpcApp RpcServer "HOL-Library.Countable" "HOL-Library.Monad_Syntax"
begin

text \<open>
  The resolver example: a client that asks for four host names and quits its loop after the fourth answer
  (examples/resolver/client.cc), and a server whose handler gives the name to the DNS library and answers from its
  callback (server.cc). The library is not part of the repository: it may refuse a name, and \<open>dns host ip port\<close> says
  which addresses it may report for one (the address \<open>0\<close> when it found none).
\<close>

section \<open>The messages and the service\<close>

record resolve_response =
  rr_resolved :: bool
  rr_ip :: "uint32 list"
  rr_port :: "int list"

datatype resolver_message = ResolveRequest string | ResolveResponse resolve_response

definition resolver_descr :: "resolver_message \<Rightarrow> bool" where
  "resolver_descr m = (case m of ResolveRequest _ \<Rightarrow> True | ResolveResponse _ \<Rightarrow> False)"

definition resolve_method_desc :: "resolver_message method_desc" where
  "resolve_method_desc = \<lparr>md_name = ''Resolve'', md_full_name = ''resolver.ResolverService.Resolve'',
     md_service = ''resolver.ResolverService'', md_input = ''resolver.ResolveRequest'',
     md_output = ''resolver.ResolveResponse'', md_request = ResolveRequest [],
     md_response = ResolveResponse \<lparr>rr_resolved = False, rr_ip = [], rr_port = []\<rparr>\<rparr>"

definition resolver_service :: "resolver_message service" where
  "resolver_service = \<lparr>sv_full_name = ''resolver.ResolverService'', sv_methods = [resolve_method_desc],
     sv_file = \<lparr>fd_name = ''resolver.proto'', fd_text = [], fd_dependencies = []\<rparr>\<rparr>"

section \<open>The server\<close>

text \<open>\<^verbatim>\<open>Resolve\<close>, with what the library's \<^verbatim>\<open>resolve\<close> returned: the answer it gives at once, if any.\<close>

definition Resolve :: "bool \<Rightarrow> resolve_response option" where
  "Resolve succeed = (if \<not> succeed then Some \<lparr>rr_resolved = False, rr_ip = [], rr_port = []\<rparr> else None)"

definition resolver_doneCallback :: "uint32 \<Rightarrow> int \<Rightarrow> resolve_response" where
  "resolver_doneCallback ip port =
     (if ip \<noteq> 0 then \<lparr>rr_resolved = True, rr_ip = [ip], rr_port = [port]\<rparr>
      else \<lparr>rr_resolved = False, rr_ip = [], rr_port = []\<rparr>)"

inductive resolver_answers ::
  "(string \<Rightarrow> uint32 \<Rightarrow> int \<Rightarrow> bool) \<Rightarrow> resolver_message \<Rightarrow> resolver_message \<Rightarrow> bool" for dns where
  refused: "Resolve False = Some response \<Longrightarrow> resolver_answers dns (ResolveRequest host) (ResolveResponse response)"
| found: "Resolve True = None \<Longrightarrow> dns host ip port \<Longrightarrow>
    resolver_answers dns (ResolveRequest host) (ResolveResponse (resolver_doneCallback ip port))"

inductive_cases resolver_answersE: "resolver_answers dns req r"

definition resolver_server :: "resolver_message service \<Rightarrow> (resolver_message, string, unit) server" where
  "resolver_server meta = RpcServer.start (registerService resolver_service (RpcServer_new meta))"

section \<open>The client\<close>

text \<open>\<open>rc_log\<close> lists the names and addresses it logs; a name that failed has none.\<close>

record resolver_client =
  rv_got :: int
  rv_total :: int
  rv_quit :: bool
  rv_log :: "(string \<times> uint32 option) list"

definition new_resolver_client :: resolver_client where
  "new_resolver_client = \<lparr>rv_got = 0, rv_total = 0, rv_quit = False, rv_log = []\<rparr>"

definition resolve :: "string \<Rightarrow> (resolver_message, string) rpc_call" where
  "resolve host = \<lparr>rc_method = resolve_method_desc, rc_request = ResolveRequest host,
     rc_response = Some (md_response resolve_method_desc), rc_done = Some host\<rparr>"

definition resolver_hosts :: "string list" where
  "resolver_hosts = [''www.example.com'', ''www.chenshuo.com'', ''www.google.com'', ''acme.chenshuo.org'']"

definition resolver_onConnection :: "(resolver_message \<Rightarrow> string) \<Rightarrow> 'conn \<Rightarrow> bool \<Rightarrow>
    resolver_client \<times> (resolver_message, string, 'conn) channel \<Rightarrow>
    (resolver_client \<times> (resolver_message, string, 'conn) channel) \<times> (resolver_message, string) effect list" where
  "resolver_onConnection serialize conn connected s =
     (case s of (c, ch) \<Rightarrow>
        if connected then
          (let c = c\<lparr>rv_total := 4\<rparr>; (ch, effs) = make_calls serialize (map resolve resolver_hosts) (setConnection (Some conn) ch)
           in ((c, ch), effs))
        else (s, []))"

text \<open>\<^verbatim>\<open>resolved\<close>; \<open>None\<close> is the read of an address that is not there, or a failing cast.\<close>

definition resolved :: "string \<Rightarrow> resolver_message \<Rightarrow> resolver_client \<Rightarrow> resolver_client option" where
  "resolved host m c =
     (case m of
        ResolveRequest _ \<Rightarrow> None
      | ResolveResponse resp \<Rightarrow>
          do {
            entry \<leftarrow> (if rr_resolved resp then (case rr_ip resp of [] \<Rightarrow> None | ip # _ \<Rightarrow> Some (Some ip)) else Some None);
            let c = c\<lparr>rv_log := rv_log c @ [(host, entry)], rv_got := rv_got c + 1\<rparr>;
            Some (if rv_total c \<le> rv_got c then c\<lparr>rv_quit := True\<rparr> else c)
          })"

abbreviation resolver_step where
  "resolver_step serialize parse dns \<equiv> app_step serialize parse resolver_descr (map resolve resolver_hosts)
     (resolver_answers dns) resolved (\<lambda>c. \<not> rv_quit c) (\<lambda>c. c\<lparr>rv_total := 4\<rparr>)"

section \<open>The example keeps the contract of the event loops\<close>

lemma resolver_services:
  "resolve_method (srv_services (resolver_server meta)) ''resolver.ResolverService'' ''Resolve'' = Some resolve_method_desc"
  by (simp add: resolve_method_def resolver_server_def RpcServer.start_def registerService_def RpcServer_new_def
      om_find_store om_ok_store om_ok_def resolver_service_def FindMethodByName_def resolve_method_desc_def)

lemma resolve_simps:
  "rc_method (resolve host) = resolve_method_desc" "rc_request (resolve host) = ResolveRequest host"
  "rc_response (resolve host) = Some (md_response resolve_method_desc)" "rc_done (resolve host) = Some host"
  by (simp_all add: resolve_def)

lemma resolver_app:
  assumes "protobuf_ok serialize parse resolver_descr"
  shows "rpc_app serialize parse resolver_descr (srv_services (resolver_server meta)) (map resolve resolver_hosts)"
proof
  show "protobuf_ok serialize parse resolver_descr" by (rule assms)
  show "length (map resolve resolver_hosts) < 2 ^ 64" by (simp add: resolver_hosts_def)
next
  fix c assume "c \<in> set (map resolve resolver_hosts)"
  then obtain host where c: "c = resolve host" by auto
  show "resolve_method (srv_services (resolver_server meta)) (md_service (rc_method c)) (md_name (rc_method c)) =
      Some (rc_method c)"
    using resolver_services by (simp add: c resolve_simps resolve_method_desc_def)
  show "resolver_descr (md_request (rc_method c)) = resolver_descr (rc_request c)"
    by (simp add: c resolve_simps resolve_method_desc_def resolver_descr_def)
  show "\<exists>proto. rc_response c = Some proto \<and> resolver_descr proto = resolver_descr (md_response (rc_method c))"
    by (simp add: c resolve_simps)
qed

text \<open>What the client does with an answer of the server.\<close>

definition answer_entry :: "(resolver_message, string) rpc_call \<times> resolver_message \<Rightarrow> string \<times> uint32 option" where
  "answer_entry p = (the (rc_done (fst p)),
     case snd p of ResolveResponse resp \<Rightarrow> if rr_resolved resp then Some (hd (rr_ip resp)) else None | _ \<Rightarrow> None)"

lemma resolved_answer:
  assumes "resolver_answers dns (ResolveRequest host) r"
  shows "resolved host r c = Some (c\<lparr>rv_log := rv_log c @ [answer_entry (resolve host, r)], rv_got := rv_got c + 1,
    rv_quit := rv_quit c \<or> rv_total c \<le> rv_got c + 1\<rparr>)"
  using assms
  by (rule resolver_answersE; cases c)
    (auto simp: resolved_def Resolve_def resolver_doneCallback_def answer_entry_def resolve_simps Let_def)

lemma after_answers_resolver:
  assumes "\<forall>(c, r)\<in>set rs. c \<in> set (map resolve resolver_hosts) \<and> resolver_answers dns (rc_request c) r"
    "rv_quit cl \<longrightarrow> rv_total cl \<le> rv_got cl"
  shows "\<exists>cl'. after_answers resolved rs cl = Some cl' \<and> rv_log cl' = rv_log cl @ map answer_entry rs \<and>
    rv_got cl' = rv_got cl + int (length rs) \<and> rv_total cl' = rv_total cl \<and>
    (rv_quit cl' \<longleftrightarrow> rv_quit cl \<or> rs \<noteq> [] \<and> rv_total cl \<le> rv_got cl + int (length rs))"
  using assms
proof (induction rs arbitrary: cl)
  case (Cons p rs)
  obtain c r where p: "p = (c, r)" by (cases p)
  then obtain host where c: "c = resolve host" and r: "resolver_answers dns (ResolveRequest host) r"
    using Cons.prems(1) by (auto simp: resolve_simps)
  let ?cl = "cl\<lparr>rv_log := rv_log cl @ [answer_entry (resolve host, r)], rv_got := rv_got cl + 1,
    rv_quit := rv_quit cl \<or> rv_total cl \<le> rv_got cl + 1\<rparr>"
  have "\<exists>cl'. after_answers resolved rs ?cl = Some cl' \<and> rv_log cl' = rv_log ?cl @ map answer_entry rs \<and>
      rv_got cl' = rv_got ?cl + int (length rs) \<and> rv_total cl' = rv_total ?cl \<and>
      (rv_quit cl' \<longleftrightarrow> rv_quit ?cl \<or> rs \<noteq> [] \<and> rv_total ?cl \<le> rv_got ?cl + int (length rs))"
    using Cons.prems by (intro Cons.IH) auto
  then obtain cl' where cl': "after_answers resolved rs ?cl = Some cl'" "rv_log cl' = rv_log ?cl @ map answer_entry rs"
      "rv_got cl' = rv_got ?cl + int (length rs)" "rv_total cl' = rv_total ?cl"
      "rv_quit cl' \<longleftrightarrow> rv_quit ?cl \<or> rs \<noteq> [] \<and> rv_total ?cl \<le> rv_got ?cl + int (length rs)" by blast
  show ?case
  proof (intro exI [of _ cl'] conjI)
    show "after_answers resolved (p # rs) cl = Some cl'"
      using cl'(1) by (simp add: p c resolve_simps resolved_answer [OF r])
  qed (use cl'(2-5) in \<open>auto simp: p c\<close>)
qed auto

lemma resolver_handlers:
  assumes "c \<in> set (map resolve resolver_hosts)"
  shows "\<exists>r. resolver_answers dns (rc_request c) r \<and> resolver_descr r = resolver_descr (md_response (rc_method c))"
proof -
  obtain host where c: "c = resolve host" using assms by auto
  obtain response where "Resolve False = Some response" by (simp add: Resolve_def)
  from refused [OF this, of dns host] show ?thesis
    by (intro exI conjI, simp add: c resolve_simps) (simp add: c resolve_simps resolve_method_desc_def resolver_descr_def)
qed

lemma resolver_callbacks:
  assumes "c \<in> set (map resolve resolver_hosts)" "resolver_answers dns (rc_request c) r"
  shows "run_effects resolved (case rc_done c of None \<Rightarrow> [] | Some cb \<Rightarrow> [Run_done cb r]) s \<noteq> None"
proof -
  obtain host where "c = resolve host" using assms(1) by auto
  with resolved_answer [of dns host r s] assms(2) show ?thesis by (simp add: resolve_simps)
qed

section \<open>The client resolves every name\<close>


section \<open>A run\<close>

definition resolver_encode :: "resolver_message \<Rightarrow> nat" where
  "resolver_encode m = (case m of
       ResolveRequest host \<Rightarrow> list_encode (map of_char host)
     | ResolveResponse r \<Rightarrow> list_encode [if rr_resolved r then 1 else 0, list_encode (map unat (rr_ip r)),
         list_encode (map int_encode (rr_port r))])"

definition resolver_decode :: "resolver_message \<Rightarrow> nat \<Rightarrow> resolver_message" where
  "resolver_decode p k = (let xs = list_decode k in
     case p of
       ResolveRequest _ \<Rightarrow> ResolveRequest (map char_of xs)
     | ResolveResponse _ \<Rightarrow> ResolveResponse \<lparr>rr_resolved = (xs ! 0 = 1), rr_ip = map of_nat (list_decode (xs ! 1)),
         rr_port = map int_decode (list_decode (xs ! 2))\<rparr>)"

abbreviation resolver_serialize :: "resolver_message \<Rightarrow> string" where
  "resolver_serialize \<equiv> \<lambda>m. replicate (resolver_encode m) (CHR ''1'')"

abbreviation resolver_parse :: "resolver_message \<Rightarrow> string \<Rightarrow> resolver_message" where
  "resolver_parse \<equiv> \<lambda>p bytes. resolver_decode p (length bytes)"

lemma resolver_protobuf: "protobuf_ok resolver_serialize resolver_parse resolver_descr"
proof (rule protobuf_unary)
  fix p m assume "resolver_descr p = resolver_descr m"
  then show "resolver_decode p (resolver_encode m) = m"
    by (cases p; cases m) (auto simp: resolver_descr_def resolver_decode_def resolver_encode_def Let_def comp_def)
qed

interpretation resolver: rpc_app resolver_serialize resolver_parse resolver_descr "srv_services (resolver_server meta)"
    "map resolve resolver_hosts" "resolver_answers dns" resolved "\<lambda>c. \<not> rv_quit c" "\<lambda>c. c\<lparr>rv_total := 4\<rparr>" for meta dns
  by (rule resolver_app) (rule resolver_protobuf)

text \<open>A library that reports one address for every name.\<close>

abbreviation example_dns :: "string \<Rightarrow> uint32 \<Rightarrow> int \<Rightarrow> bool" where
  "example_dns \<equiv> \<lambda>host ip port. ip = 16777343 \<and> port = 0"

definition resolver_example_init :: "(resolver_message, string, unit, resolver_client) app" where
  "resolver_example_init = app_init () () (srv_services (resolver_server resolver_service)) new_resolver_client"


end
