(* ===== verification/Sudoku.thy ===== *)
theory Sudoku
  imports RpcApp RpcServer "HOL-Library.Countable"
begin

text \<open>
  The sudoku example (examples/sudoku/client.cc and server.cc): one call, answered by a constant. It is the
  smallest program over the event loops of \<open>RpcApp\<close>: the client logs the answer and quits.
\<close>

section \<open>The messages, the service and the server\<close>

datatype sudoku_message = SudokuRequest string | SudokuResponse bool string

definition sudoku_descr :: "sudoku_message \<Rightarrow> bool" where
  "sudoku_descr m = (case m of SudokuRequest _ \<Rightarrow> True | SudokuResponse _ _ \<Rightarrow> False)"

definition sudoku_method :: "sudoku_message method_desc" where
  "sudoku_method = \<lparr>md_name = ''Solve'', md_full_name = ''sudoku.SudokuService.Solve'',
     md_service = ''sudoku.SudokuService'', md_input = ''sudoku.SudokuRequest'', md_output = ''sudoku.SudokuResponse'',
     md_request = SudokuRequest [], md_response = SudokuResponse False []\<rparr>"

definition sudoku_service :: "sudoku_message service" where
  "sudoku_service = \<lparr>sv_full_name = ''sudoku.SudokuService'', sv_methods = [sudoku_method],
     sv_file = \<lparr>fd_name = ''sudoku.proto'', fd_text = [], fd_dependencies = []\<rparr>\<rparr>"

definition sudoku_Solve :: "sudoku_message \<Rightarrow> sudoku_message \<Rightarrow> bool" where
  "sudoku_Solve request response \<longleftrightarrow> response = SudokuResponse True ''1234567''"

definition sudoku_server :: "sudoku_message service \<Rightarrow> (sudoku_message, unit, unit) server" where
  "sudoku_server meta = RpcServer.start (registerService sudoku_service (RpcServer_new meta))"

section \<open>The client\<close>

text \<open>The client's state: the answers it logged, and whether it quit.\<close>

definition sudoku_call :: "(sudoku_message, unit) rpc_call" where
  "sudoku_call = \<lparr>rc_method = sudoku_method, rc_request = SudokuRequest ''001010'',
     rc_response = Some (md_response sudoku_method), rc_done = Some ()\<rparr>"

definition sudoku_onConnection :: "(sudoku_message \<Rightarrow> string) \<Rightarrow> 'conn \<Rightarrow> bool \<Rightarrow>
    (sudoku_message, unit, 'conn) channel \<Rightarrow> (sudoku_message, unit, 'conn) channel \<times> (sudoku_message, unit) effect list" where
  "sudoku_onConnection serialize conn connected ch =
     (if connected then make_calls serialize [sudoku_call] (setConnection (Some conn) ch) else (ch, []))"

definition sudoku_solved :: "unit \<Rightarrow> sudoku_message \<Rightarrow> (bool \<times> string) list \<times> bool \<Rightarrow> ((bool \<times> string) list \<times> bool) option" where
  "sudoku_solved cb m s =
     (case m of SudokuRequest _ \<Rightarrow> None | SudokuResponse ok board \<Rightarrow> Some (fst s @ [(ok, board)], True))"

abbreviation sudoku_step where
  "sudoku_step serialize parse \<equiv> app_step serialize parse sudoku_descr [sudoku_call] sudoku_Solve sudoku_solved (\<lambda>s. \<not> snd s) id"

section \<open>The example keeps the contract of the event loops\<close>

lemma sudoku_app:
  assumes "protobuf_ok serialize parse sudoku_descr"
  shows "rpc_app serialize parse sudoku_descr (srv_services (sudoku_server meta)) [sudoku_call]"
proof
  show "protobuf_ok serialize parse sudoku_descr" by (rule assms)
qed (auto simp: resolve_method_def sudoku_server_def RpcServer.start_def registerService_def RpcServer_new_def
      om_find_store om_ok_store om_ok_def sudoku_service_def FindMethodByName_def sudoku_call_def sudoku_method_def sudoku_descr_def)

definition sudoku_encode :: "sudoku_message \<Rightarrow> nat" where
  "sudoku_encode m = (case m of SudokuRequest b \<Rightarrow> list_encode (map of_char b)
     | SudokuResponse ok b \<Rightarrow> list_encode ((if ok then 1 else 0) # map of_char b))"

definition sudoku_decode :: "sudoku_message \<Rightarrow> nat \<Rightarrow> sudoku_message" where
  "sudoku_decode p k = (let xs = list_decode k in
     case p of SudokuRequest _ \<Rightarrow> SudokuRequest (map char_of xs)
     | SudokuResponse _ _ \<Rightarrow> SudokuResponse (hd xs = 1) (map char_of (tl xs)))"

abbreviation sudoku_serialize :: "sudoku_message \<Rightarrow> string" where
  "sudoku_serialize \<equiv> \<lambda>m. replicate (sudoku_encode m) (CHR ''1'')"

abbreviation sudoku_parse :: "sudoku_message \<Rightarrow> string \<Rightarrow> sudoku_message" where
  "sudoku_parse \<equiv> \<lambda>p bytes. sudoku_decode p (length bytes)"

lemma sudoku_protobuf: "protobuf_ok sudoku_serialize sudoku_parse sudoku_descr"
proof (rule protobuf_unary)
  fix p m assume "sudoku_descr p = sudoku_descr m"
  then show "sudoku_decode p (sudoku_encode m) = m"
    by (cases p; cases m) (auto simp: sudoku_descr_def sudoku_decode_def sudoku_encode_def Let_def comp_def)
qed

interpretation sudoku: rpc_app sudoku_serialize sudoku_parse sudoku_descr "srv_services (sudoku_server meta)"
    "[sudoku_call]" sudoku_Solve sudoku_solved "\<lambda>s. \<not> snd s" id for meta
  by (rule sudoku_app) (rule sudoku_protobuf)

text \<open>When everything is answered, the client has logged the answer and quit.\<close>

lemma sudoku_client_quits:
  assumes "protobuf_ok serialize parse sudoku_descr"
    and "(sudoku_step serialize parse)\<^sup>*\<^sup>* (app_init c_conn s_conn (srv_services (sudoku_server meta)) ([], False)) a"
    and up: "ap_up a" and "quiescent (ap_rpc a)"
  shows "ap_client a = ([(True, ''1234567'')], True)"
proof -
  note app = sudoku_app [OF assms(1), of meta]
  note ok = rpc_app.run_ok_reachable [OF app assms(2)]
  obtain c r where rs: "rpc_app.handled (ap_rpc a) = [(c, r)]"
    using rpc_app.handled_calls(2) [OF app ok up assms(4)]
    by (cases "rpc_app.handled (ap_rpc a)") auto
  then have "c = sudoku_call" "r = SudokuResponse True ''1234567''"
    using rpc_app.handled_answers [OF app ok, of c r] by (simp_all add: sudoku_Solve_def)
  then show ?thesis
    using rpc_app.client_state [OF app ok up] rs by (simp add: sudoku_call_def sudoku_solved_def)
qed

end
