(* ===== verification/RpcGenerator.thy ===== *)
theory RpcGenerator
  imports CLib
begin

text \<open>
  The code generator: a plugin of the protocol buffer compiler (muduo/protorpc2/gen.cc) that writes,
  for each service of a file, its interface, its stub and their implementations
  (muduo/protorpc2/cpp_service.h, cpp_service.cc). The printer of protocol buffers is not part of the
  repository: the model gives the sequence of calls on it, each \<open>Print\<close> with its variables and
  its text. So are the descriptors, of type \<open>'d\<close> for messages, the names of classes
  (\<open>ClassName\<close>), \<open>SimpleItoa\<close>, \<open>StripProto\<close> and the two separators.

  A text is the list of its lines.
\<close>

section \<open>Calls on the printer\<close>

type_synonym vars = "string \<rightharpoonup> string"

datatype print_call = Print vars string | Indent | Outdent

record 'd method_descriptor =
  gm_name :: string
  gm_input_type :: 'd
  gm_output_type :: 'd

record 'd service_descriptor =
  gs_name :: string
  gs_full_name :: string
  gs_methods :: "'d method_descriptor list"

record 'd file_descriptor =
  gf_name :: string
  gf_message_types :: "'d list"
  gf_services :: "'d service_descriptor list"

section \<open>Texts\<close>

definition forward_text :: string where
  \<open>forward_text = unlines
    [''class $classname$_Stub;'',
     []]\<close>

definition interface_text :: string where
  \<open>interface_text = unlines
    [''class $dllexport$$classname$ : public ::muduo::net::Service {'',
     '' protected:'',
     ''  // This class should be treated as an abstract interface.'',
     ''  inline $classname$() {};'',
     '' public:'',
     ''  virtual ~$classname$();'']\<close>

definition interface_types :: string where
  \<open>interface_types = unlines
    [[],
     ''typedef $classname$_Stub Stub;'',
     [],
     ''static const ::google::protobuf::ServiceDescriptor* descriptor();'',
     []]\<close>

definition interface_service :: string where
  \<open>interface_service = unlines
    [[],
     ''// implements Service ----------------------------------------------'',
     [],
     ''const ::google::protobuf::ServiceDescriptor* GetDescriptor();'',
     ''void CallMethod(const ::google::protobuf::MethodDescriptor* method,'',
     ''                const ::google::protobuf::MessagePtr& request,'',
     ''                const ::google::protobuf::Message* responsePrototype,'',
     ''                const ::muduo::net::RpcDoneCallback& done);'',
     ''const ::google::protobuf::Message& GetRequestPrototype('',
     ''  const ::google::protobuf::MethodDescriptor* method) const;'',
     ''const ::google::protobuf::Message& GetResponsePrototype('',
     ''  const ::google::protobuf::MethodDescriptor* method) const;'']\<close>

definition interface_end :: string where
  \<open>interface_end = unlines
    [[],
     '' private:'',
     ''  GOOGLE_DISALLOW_EVIL_CONSTRUCTORS($classname$);'',
     ''};'',
     []]\<close>

definition stub_text :: string where
  \<open>stub_text = unlines
    [''class $dllexport$$classname$_Stub : public $classname$ {'',
     '' public:'']\<close>

definition stub_channel :: string where
  \<open>stub_channel = unlines
    [''$classname$_Stub(::muduo::net::RpcChannel* channel);'',
     ''~$classname$_Stub();'',
     [],
     ''inline ::muduo::net::RpcChannel* channel() { return channel_; }'',
     [],
     ''// implements $classname$ ------------------------------------------'',
     []]\<close>

definition stub_end :: string where
  \<open>stub_end = unlines
    ['' private:'',
     ''  ::muduo::net::RpcChannel* channel_;'',
     ''  bool owns_channel_;'',
     ''  GOOGLE_DISALLOW_EVIL_CONSTRUCTORS($classname$_Stub);'',
     ''};'',
     []]\<close>

definition signature_text :: string where
  \<open>signature_text = unlines
    [''$virtual$void $name$(const $input_type$Ptr& request,'',
     ''                     const $output_type$* responsePrototype,'',
     ''                     const ::muduo::net::RpcDoneCallback& done);'']\<close>

definition stub_signature_text :: string where
  \<open>stub_signature_text = unlines
    [''using $classname$::$name$;'',
     ''$virtual$void $name$(const $input_type$& request,'',
     ''                     const ::std::function<void(const $output_typedef$Ptr&)>& done);'']\<close>

definition initializer_text :: string where
  \<open>initializer_text = unlines
    [''$classname$_descriptor_ = file->service($index$);'']\<close>

definition implementation_text :: string where
  \<open>implementation_text = unlines
    [''$classname$::~$classname$() {}'',
     [],
     ''static const ::google::protobuf::ServiceDescriptor* $classname$_descriptor_ = NULL;'',
     [],
     ''const ::google::protobuf::ServiceDescriptor* $classname$::descriptor() {'',
     ''  protobuf_AssignDescriptorsOnce();'',
     ''  if ($classname$_descriptor_ == NULL)'',
     ''    $classname$_descriptor_ = ::google::protobuf::DescriptorPool::generated_pool()->FindFileByName('',
     ''        "$filename$")->service($index$);'',
     ''  return $classname$_descriptor_;'',
     ''}'',
     [],
     ''const ::google::protobuf::ServiceDescriptor* $classname$::GetDescriptor() {'',
     ''  return descriptor();'',
     ''}'',
     []]\<close>

definition stub_implementation :: string where
  \<open>stub_implementation = unlines
    [''$classname$_Stub::$classname$_Stub(::muduo::net::RpcChannel* channel__)'',
     ''  : channel_(channel__), owns_channel_(false) {}'',
     ''$classname$_Stub::~$classname$_Stub() {'',
     ''}'',
     []]\<close>

definition not_implemented_text :: string where
  \<open>not_implemented_text = unlines
    [''void $classname$::$name$(const $input_type$Ptr&,'',
     ''                         const $output_type$*,'',
     ''                         const ::muduo::net::RpcDoneCallback& done) {'',
     ''  assert(0);'',
     ''  done(NULL);'',
     ''}'',
     []]\<close>

definition call_method_text :: string where
  \<open>call_method_text = unlines
    [''void $classname$::CallMethod(const ::google::protobuf::MethodDescriptor* method,'',
     ''                             const ::google::protobuf::MessagePtr& request,'',
     ''                             const ::google::protobuf::Message* responsePrototype,'',
     ''                             const ::muduo::net::RpcDoneCallback& done) {'',
     ''  GOOGLE_DCHECK_EQ(method->service(), $classname$_descriptor_);'',
     ''  switch(method->index()) {'']\<close>

definition call_case_text :: string where
  \<open>call_case_text = unlines
    [''    case $index$:'',
     ''      $name$(::google::protobuf::down_pointer_cast< $input_type$>(request),'',
     ''             ::google::protobuf::down_cast<const $output_type$*>(responsePrototype),'',
     ''             done);'',
     ''      break;'']\<close>

definition call_method_end :: string where
  \<open>call_method_end = unlines
    [''    default:'',
     ''      GOOGLE_LOG(FATAL) << "Bad method index; this should never happen.";'',
     ''      break;'',
     ''  }'',
     ''}'',
     []]\<close>

definition request_prototype_text :: string where
  \<open>request_prototype_text = unlines
    [''const ::google::protobuf::Message& $classname$::GetRequestPrototype('']\<close>

definition response_prototype_text :: string where
  \<open>response_prototype_text = unlines
    [''const ::google::protobuf::Message& $classname$::GetResponsePrototype('']\<close>

definition prototype_switch :: string where
  \<open>prototype_switch = unlines
    [''    const ::google::protobuf::MethodDescriptor* method) const {'',
     ''  GOOGLE_DCHECK_EQ(method->service(), descriptor());'',
     ''  switch(method->index()) {'']\<close>

definition prototype_case_text :: string where
  \<open>prototype_case_text = unlines
    [''    case $index$:'',
     ''      return $type$::default_instance();'']\<close>

definition prototype_end :: string where
  \<open>prototype_end = unlines
    [''    default:'',
     ''      GOOGLE_LOG(FATAL) << "Bad method index; this should never happen.";'',
     ''      return *reinterpret_cast< ::google::protobuf::Message*>(NULL);'',
     ''  }'',
     ''}'',
     []]\<close>

definition stub_method_text :: string where
  \<open>stub_method_text = unlines
    [''void $classname$_Stub::$name$(const $input_type$& request,'',
     ''                              const ::std::function<void(const $output_typedef$Ptr&)>& done) {'',
     ''  channel_->CallMethod(descriptor()->method($index$),'',
     ''                       request, &$output_type$::default_instance(), done);'',
     ''}'']\<close>

definition includes_text1 :: string where
  \<open>includes_text1 = unlines [''#include <muduo/protorpc2/service.h>'']\<close>

definition includes_text2 :: string where
  \<open>includes_text2 = unlines [''#include <memory>'']\<close>

definition typedef_text :: string where
  \<open>typedef_text = unlines [''typedef ::std::shared_ptr<$classname$> $classname$Ptr;'']\<close>

section \<open>The generator of a service\<close>

record 'd service_generator =
  sg_descriptor :: "'d service_descriptor"
  sg_vars :: vars

definition ServiceGenerator :: "(nat \<Rightarrow> string) \<Rightarrow> 'd service_descriptor \<Rightarrow> string \<Rightarrow> nat \<Rightarrow> 'd service_generator" where
  "ServiceGenerator SimpleItoa descriptor filename index =
     \<lparr>sg_descriptor = descriptor,
      sg_vars = [''classname'' \<mapsto> gs_name descriptor, ''full_name'' \<mapsto> gs_full_name descriptor,
        ''dllexport'' \<mapsto> [], ''filename'' \<mapsto> filename, ''index'' \<mapsto> SimpleItoa index]\<rparr>"

datatype stub_or_non = STUB | NON_STUB

datatype request_or_response = REQUEST | RESPONSE

definition each_method :: "(nat \<Rightarrow> 'd method_descriptor \<Rightarrow> print_call) \<Rightarrow> 'd service_generator \<Rightarrow> print_call list" where
  "each_method print g =
     map (\<lambda>i. print i (gs_methods (sg_descriptor g) ! i)) [0..<length (gs_methods (sg_descriptor g))]"

definition GenerateMethodSignatures :: "('d \<Rightarrow> bool \<Rightarrow> string) \<Rightarrow> stub_or_non \<Rightarrow> 'd service_generator \<Rightarrow> print_call list" where
  "GenerateMethodSignatures ClassName stub g =
     each_method (\<lambda>i m.
       let sub_vars = [''classname'' \<mapsto> gs_name (sg_descriptor g), ''name'' \<mapsto> gm_name m,
             ''input_type'' \<mapsto> ClassName (gm_input_type m) True, ''output_type'' \<mapsto> ClassName (gm_output_type m) True,
             ''output_typedef'' \<mapsto> ClassName (gm_output_type m) True, ''virtual'' \<mapsto> ''virtual '']
       in if stub = NON_STUB then Print sub_vars signature_text else Print sub_vars stub_signature_text) g"

definition GenerateInterface :: "('d \<Rightarrow> bool \<Rightarrow> string) \<Rightarrow> 'd service_generator \<Rightarrow> print_call list" where
  "GenerateInterface ClassName g =
     [Print (sg_vars g) interface_text, Indent, Print (sg_vars g) interface_types] @
     GenerateMethodSignatures ClassName NON_STUB g @
     [Print Map.empty interface_service, Outdent, Print (sg_vars g) interface_end]"

definition GenerateStubDefinition :: "('d \<Rightarrow> bool \<Rightarrow> string) \<Rightarrow> 'd service_generator \<Rightarrow> print_call list" where
  "GenerateStubDefinition ClassName g =
     [Print (sg_vars g) stub_text, Indent, Print (sg_vars g) stub_channel] @
     GenerateMethodSignatures ClassName STUB g @
     [Outdent, Print (sg_vars g) stub_end]"

definition GenerateDeclarations :: "('d \<Rightarrow> bool \<Rightarrow> string) \<Rightarrow> 'd service_generator \<Rightarrow> print_call list" where
  "GenerateDeclarations ClassName g =
     [Print (sg_vars g) forward_text] @ GenerateInterface ClassName g @ GenerateStubDefinition ClassName g"

definition GenerateDescriptorInitializer :: "(nat \<Rightarrow> string) \<Rightarrow> nat \<Rightarrow> 'd service_generator \<Rightarrow> print_call list" where
  "GenerateDescriptorInitializer SimpleItoa index g =
     [Print [''classname'' \<mapsto> gs_name (sg_descriptor g), ''index'' \<mapsto> SimpleItoa index] initializer_text]"

definition GenerateNotImplementedMethods :: "(nat \<Rightarrow> string) \<Rightarrow> ('d \<Rightarrow> bool \<Rightarrow> string) \<Rightarrow> 'd service_generator \<Rightarrow> print_call list" where
  "GenerateNotImplementedMethods SimpleItoa ClassName g =
     each_method (\<lambda>i m. Print [''classname'' \<mapsto> gs_name (sg_descriptor g), ''name'' \<mapsto> gm_name m,
         ''index'' \<mapsto> SimpleItoa i, ''input_type'' \<mapsto> ClassName (gm_input_type m) True,
         ''output_type'' \<mapsto> ClassName (gm_output_type m) True] not_implemented_text) g"

definition GenerateCallMethod :: "(nat \<Rightarrow> string) \<Rightarrow> ('d \<Rightarrow> bool \<Rightarrow> string) \<Rightarrow> 'd service_generator \<Rightarrow> print_call list" where
  "GenerateCallMethod SimpleItoa ClassName g =
     [Print (sg_vars g) call_method_text] @
     each_method (\<lambda>i m. Print [''name'' \<mapsto> gm_name m, ''index'' \<mapsto> SimpleItoa i,
         ''input_type'' \<mapsto> ClassName (gm_input_type m) True,
         ''output_type'' \<mapsto> ClassName (gm_output_type m) True] call_case_text) g @
     [Print (sg_vars g) call_method_end]"

definition GenerateGetPrototype :: "(nat \<Rightarrow> string) \<Rightarrow> ('d \<Rightarrow> bool \<Rightarrow> string) \<Rightarrow> request_or_response \<Rightarrow>
    'd service_generator \<Rightarrow> print_call list" where
  "GenerateGetPrototype SimpleItoa ClassName which g =
     [if which = REQUEST then Print (sg_vars g) request_prototype_text else Print (sg_vars g) response_prototype_text,
      Print (sg_vars g) prototype_switch] @
     each_method (\<lambda>i m.
       let type = (if which = REQUEST then gm_input_type m else gm_output_type m)
       in Print [''index'' \<mapsto> SimpleItoa i, ''type'' \<mapsto> ClassName type True] prototype_case_text) g @
     [Print (sg_vars g) prototype_end]"

definition GenerateStubMethods :: "(nat \<Rightarrow> string) \<Rightarrow> ('d \<Rightarrow> bool \<Rightarrow> string) \<Rightarrow> 'd service_generator \<Rightarrow> print_call list" where
  "GenerateStubMethods SimpleItoa ClassName g =
     each_method (\<lambda>i m. Print [''classname'' \<mapsto> gs_name (sg_descriptor g), ''name'' \<mapsto> gm_name m,
         ''index'' \<mapsto> SimpleItoa i, ''input_type'' \<mapsto> ClassName (gm_input_type m) True,
         ''output_type'' \<mapsto> ClassName (gm_output_type m) True,
         ''output_typedef'' \<mapsto> ClassName (gm_output_type m) True] stub_method_text) g"

definition GenerateImplementation :: "(nat \<Rightarrow> string) \<Rightarrow> ('d \<Rightarrow> bool \<Rightarrow> string) \<Rightarrow> 'd service_generator \<Rightarrow> print_call list" where
  "GenerateImplementation SimpleItoa ClassName g =
     [Print (sg_vars g) implementation_text] @
     GenerateNotImplementedMethods SimpleItoa ClassName g @
     GenerateCallMethod SimpleItoa ClassName g @
     GenerateGetPrototype SimpleItoa ClassName REQUEST g @
     GenerateGetPrototype SimpleItoa ClassName RESPONSE g @
     [Print (sg_vars g) stub_implementation] @
     GenerateStubMethods SimpleItoa ClassName g"

section \<open>The plugin\<close>

text \<open>What is inserted: the file, the place in it, and the calls on its printer.\<close>

record insertion =
  in_file :: string
  in_point :: string
  in_calls :: "print_call list"

definition service_generators :: "(nat \<Rightarrow> string) \<Rightarrow> 'd file_descriptor \<Rightarrow> 'd service_generator list" where
  "service_generators SimpleItoa f =
     map (\<lambda>i. ServiceGenerator SimpleItoa (gf_services f ! i) (gf_name f) i) [0..<length (gf_services f)]"

definition header_calls :: "('d \<Rightarrow> bool \<Rightarrow> string) \<Rightarrow> string \<Rightarrow> string \<Rightarrow> 'd file_descriptor \<Rightarrow>
    'd service_generator list \<Rightarrow> print_call list" where
  "header_calls ClassName kThickSeparator kThinSeparator f gs =
     [Print Map.empty [newline], Print Map.empty kThickSeparator, Print Map.empty [newline]] @
     map (\<lambda>m. Print [''classname'' \<mapsto> ClassName m False] typedef_text) (gf_message_types f) @
     concat (map (\<lambda>g. [Print Map.empty [newline], Print Map.empty kThinSeparator, Print Map.empty [newline]] @
       GenerateDeclarations ClassName g) gs)"

definition source_calls :: "(nat \<Rightarrow> string) \<Rightarrow> ('d \<Rightarrow> bool \<Rightarrow> string) \<Rightarrow> string \<Rightarrow> 'd service_generator list \<Rightarrow>
    print_call list" where
  "source_calls SimpleItoa ClassName kThickSeparator gs =
     concat (map (\<lambda>g. [Print Map.empty kThickSeparator, Print Map.empty [newline]] @
       GenerateImplementation SimpleItoa ClassName g @ [Print Map.empty [newline]]) gs)"

definition Generate :: "(nat \<Rightarrow> string) \<Rightarrow> ('d \<Rightarrow> bool \<Rightarrow> string) \<Rightarrow> (string \<Rightarrow> string) \<Rightarrow> string \<Rightarrow> string \<Rightarrow>
    'd file_descriptor \<Rightarrow> bool \<times> insertion list" where
  "Generate SimpleItoa ClassName StripProto kThickSeparator kThinSeparator f =
     (if gf_services f = [] then (True, [])
      else
        (let basename = StripProto (gf_name f) @ ''.pb'';
             gs = service_generators SimpleItoa f
         in (True,
             [\<lparr>in_file = basename @ ''.h'', in_point = ''includes'',
               in_calls = [Print Map.empty includes_text1, Print Map.empty includes_text2]\<rparr>,
              \<lparr>in_file = basename @ ''.h'', in_point = ''namespace_scope'',
               in_calls = header_calls ClassName kThickSeparator kThinSeparator f gs\<rparr>,
              \<lparr>in_file = basename @ ''.cc'', in_point = ''namespace_scope'',
               in_calls = source_calls SimpleItoa ClassName kThickSeparator gs\<rparr>])))"

section \<open>Well-formed output\<close>

text \<open>The printer fails on a variable that is not bound, on a variable that does not end, and on an
  outdent without its indent. The empty variable stands for the delimiter.\<close>

fun odds :: "'a list \<Rightarrow> 'a list" where
  "odds (x # y # zs) = y # odds zs"
| "odds zs = []"

definition template_vars :: "string \<Rightarrow> string list" where
  "template_vars t = odds (split_at CHR ''$'' t)"

definition complete :: "string \<Rightarrow> bool" where
  "complete t \<longleftrightarrow> odd (length (split_at CHR ''$'' t))"

fun bound :: "print_call \<Rightarrow> bool" where
  "bound (Print vs t) \<longleftrightarrow> complete t \<and> list_all (\<lambda>x. x = [] \<or> vs x \<noteq> None) (template_vars t)"
| "bound _ \<longleftrightarrow> True"

fun balanced :: "nat \<Rightarrow> print_call list \<Rightarrow> bool" where
  "balanced n [] \<longleftrightarrow> n = 0"
| "balanced n (Print vs t # cs) \<longleftrightarrow> balanced n cs"
| "balanced n (Indent # cs) \<longleftrightarrow> balanced (Suc n) cs"
| "balanced n (Outdent # cs) \<longleftrightarrow> 0 < n \<and> balanced (n - 1) cs"

fun is_print :: "print_call \<Rightarrow> bool" where
  "is_print (Print vs t) \<longleftrightarrow> True"
| "is_print _ \<longleftrightarrow> False"

lemma balanced_prints: "list_all is_print cs \<Longrightarrow> balanced n (cs @ ds) \<longleftrightarrow> balanced n ds"
proof (induction cs)
  case (Cons c cs)
  then show ?case by (cases c) auto
qed simp

lemma balanced_append: "balanced 0 cs \<Longrightarrow> balanced n (cs @ ds) \<longleftrightarrow> balanced n ds"
proof -
  have "balanced m cs \<Longrightarrow> balanced (n + m) (cs @ ds) \<longleftrightarrow> balanced n ds" for m
  proof (induction cs arbitrary: m)
    case (Cons c cs)
    show ?case
    proof (cases c)
      case Outdent
      with Cons.prems Cons.IH [of "m - 1"] show ?thesis by auto
    qed (use Cons.prems Cons.IH [of m] Cons.IH [of "Suc m"] in auto)
  qed simp
  from this [of 0] show "balanced 0 cs \<Longrightarrow> ?thesis" by simp
qed

lemma texts_complete:
"complete forward_text" "complete interface_text" "complete interface_types"
  "complete interface_service" "complete interface_end" "complete stub_text"
  "complete stub_channel" "complete stub_end" "complete signature_text"
  "complete stub_signature_text" "complete initializer_text" "complete implementation_text"
  "complete stub_implementation" "complete not_implemented_text" "complete call_method_text"
  "complete call_case_text" "complete call_method_end" "complete request_prototype_text"
  "complete response_prototype_text" "complete prototype_switch" "complete prototype_case_text"
  "complete prototype_end" "complete stub_method_text" "complete includes_text1"
  "complete includes_text2" "complete typedef_text"
  by code_simp+

lemma texts_vars:
  "template_vars forward_text = [''classname'']"
  "template_vars interface_text = [''dllexport'', ''classname'', ''classname'', ''classname'']"
  "template_vars interface_types = [''classname'']"
  "template_vars interface_service = []"
  "template_vars interface_end = [''classname'']"
  "template_vars stub_text = [''dllexport'', ''classname'', ''classname'']"
  "template_vars stub_channel = [''classname'', ''classname'', ''classname'']"
  "template_vars stub_end = [''classname'']"
  "template_vars signature_text = [''virtual'', ''name'', ''input_type'', ''output_type'']"
  "template_vars stub_signature_text = [''classname'', ''name'', ''virtual'', ''name'', ''input_type'', ''output_typedef'']"
  "template_vars initializer_text = [''classname'', ''index'']"
  "template_vars implementation_text = [''classname'', ''classname'', ''classname'', ''classname'', ''classname'', ''classname'', ''filename'', ''index'', ''classname'', ''classname'']"
  "template_vars stub_implementation = [''classname'', ''classname'', ''classname'', ''classname'']"
  "template_vars not_implemented_text = [''classname'', ''name'', ''input_type'', ''output_type'']"
  "template_vars call_method_text = [''classname'', ''classname'']"
  "template_vars call_case_text = [''index'', ''name'', ''input_type'', ''output_type'']"
  "template_vars call_method_end = []"
  "template_vars request_prototype_text = [''classname'']"
  "template_vars response_prototype_text = [''classname'']"
  "template_vars prototype_switch = []"
  "template_vars prototype_case_text = [''index'', ''type'']"
  "template_vars prototype_end = []"
  "template_vars stub_method_text = [''classname'', ''name'', ''input_type'', ''output_typedef'', ''index'', ''output_type'']"
  "template_vars includes_text1 = []"
  "template_vars includes_text2 = []"
  "template_vars typedef_text = [''classname'', ''classname'']"
  by code_simp+

definition good :: "print_call list \<Rightarrow> bool" where
  "good cs \<longleftrightarrow> list_all bound cs \<and> balanced 0 cs"

lemma good_append: "good cs \<Longrightarrow> good ds \<Longrightarrow> good (cs @ ds)"
  by (simp add: good_def balanced_append)

lemma good_concat: "list_all good css \<Longrightarrow> good (concat css)"
proof (induction css)
  case Nil
  then show ?case by (simp add: good_def)
qed (simp add: good_append)

lemma good_prints: "list_all is_print cs \<Longrightarrow> list_all bound cs \<Longrightarrow> good cs"
  using balanced_prints [of cs 0 "[]"] by (simp add: good_def)

lemma good_inside:
  assumes "good cs" "bound c" "bound d" "list_all is_print [c, d]" "list_all is_print es" "list_all bound es"
    "list_all is_print fs" "list_all bound fs"
  shows "good ([c, Indent] @ es @ cs @ fs @ [Outdent, d])"
proof -
  have "balanced 0 ([c, Indent] @ es @ cs @ fs @ [Outdent, d]) = balanced 1 (es @ cs @ fs @ [Outdent, d])"
    using assms(4) by (cases c) auto
  also have "\<dots> = balanced 1 [Outdent, d]"
    using assms(1) by (simp only: balanced_prints [OF assms(5)] balanced_append balanced_prints [OF assms(7)] good_def)
  finally show ?thesis using assms by (cases d) (auto simp: good_def)
qed

lemma good_each_method:
  "(\<And>i m. is_print (print i m)) \<Longrightarrow> (\<And>i m. bound (print i m)) \<Longrightarrow> good (each_method print g)"
  by (intro good_prints) (simp_all add: each_method_def list_all_iff)

lemmas texts = texts_complete texts_vars

text \<open>The variables of a service's generator.\<close>

definition service_vars :: "'d service_generator \<Rightarrow> bool" where
  "service_vars g \<longleftrightarrow> list_all (\<lambda>x. sg_vars g x \<noteq> None) [''classname'', ''full_name'', ''dllexport'', ''filename'', ''index'']"

lemma service_vars_new: "service_vars (ServiceGenerator SimpleItoa d filename i)"
  by (simp add: service_vars_def ServiceGenerator_def)

lemma good_signatures: "good (GenerateMethodSignatures ClassName stub g)"
  unfolding GenerateMethodSignatures_def by (rule good_each_method) (simp_all add: Let_def texts)

lemma good_declarations:
  assumes "service_vars g"
  shows "good (GenerateDeclarations ClassName g)"
proof -
  note vars = assms [unfolded service_vars_def]
  have "good (GenerateInterface ClassName g)"
    using good_inside [OF good_signatures [of ClassName NON_STUB g], of "Print (sg_vars g) interface_text"
        "Print (sg_vars g) interface_end" "[Print (sg_vars g) interface_types]" "[Print Map.empty interface_service]"] vars
    by (simp add: GenerateInterface_def texts)
  moreover have "good (GenerateStubDefinition ClassName g)"
    using good_inside [OF good_signatures [of ClassName STUB g], of "Print (sg_vars g) stub_text"
        "Print (sg_vars g) stub_end" "[Print (sg_vars g) stub_channel]" "[]"] vars
    by (simp add: GenerateStubDefinition_def texts)
  moreover have "good [Print (sg_vars g) forward_text]" using vars by (simp add: good_def texts)
  ultimately show ?thesis by (simp only: GenerateDeclarations_def good_append)
qed

lemma good_implementation:
  assumes "service_vars g"
  shows "good (GenerateImplementation SimpleItoa ClassName g)"
proof -
  note vars = assms [unfolded service_vars_def]
  have methods: "good (GenerateNotImplementedMethods SimpleItoa ClassName g)" "good (GenerateStubMethods SimpleItoa ClassName g)"
    unfolding GenerateNotImplementedMethods_def GenerateStubMethods_def by (rule good_each_method; simp add: texts)+
  have "good (GenerateCallMethod SimpleItoa ClassName g)"
    unfolding GenerateCallMethod_def
    by (intro good_append good_each_method) (use vars in \<open>simp_all add: good_def texts\<close>)
  moreover have "good (GenerateGetPrototype SimpleItoa ClassName which g)" for which
    unfolding GenerateGetPrototype_def
    by (intro good_append good_each_method) (use vars in \<open>simp_all add: good_def texts Let_def\<close>)
  moreover have "good [Print (sg_vars g) implementation_text]" "good [Print (sg_vars g) stub_implementation]"
    using vars by (simp_all add: good_def texts)
  ultimately show ?thesis unfolding GenerateImplementation_def using methods by (intro good_append)
qed

lemma good_constant: "CHR ''$'' \<notin> set t \<Longrightarrow> good [Print vs t]"
  by (simp add: good_def complete_def template_vars_def split_at_no_sep)

section \<open>Properties\<close>

text \<open>C32: The plugin never misuses the printer, for any file: in all it inserts, every variable of
  every text is bound where it is printed, every variable reference ends, and indents and outdents
  match.\<close>

theorem generated_calls_well_formed:
  assumes "CHR ''$'' \<notin> set kThickSeparator" "CHR ''$'' \<notin> set kThinSeparator"
  shows "list_all (\<lambda>i. list_all bound (in_calls i) \<and> balanced 0 (in_calls i))
    (snd (Generate SimpleItoa ClassName StripProto kThickSeparator kThinSeparator f))"
proof (cases "gf_services f = []")
  case False
  let ?gs = "service_generators SimpleItoa f"
  have vars: "service_vars g" if "g \<in> set ?gs" for g using that by (auto simp: service_generators_def service_vars_new)
  have "good [Print Map.empty includes_text1, Print Map.empty includes_text2]" by (simp add: good_def texts)
  moreover have "good (header_calls ClassName kThickSeparator kThinSeparator f ?gs)"
  proof -
    have blank: "good [Print Map.empty [newline], Print Map.empty t, Print Map.empty [newline]]" if "CHR ''$'' \<notin> set t" for t
      using good_append [OF good_append [OF good_constant good_constant] good_constant, of "[newline]" t "[newline]"] that
      by (simp add: newline_def)
    have "good (map (\<lambda>m. Print [''classname'' \<mapsto> ClassName m False] typedef_text) (gf_message_types f))"
      by (rule good_prints) (simp_all add: list_all_iff texts)
    moreover have "good (concat (map (\<lambda>g. [Print Map.empty [newline], Print Map.empty kThinSeparator, Print Map.empty [newline]] @
       GenerateDeclarations ClassName g) ?gs))"
      by (rule good_concat) (auto simp: list_all_iff intro!: good_append [OF blank, simplified] good_declarations vars assms(2))
    ultimately show ?thesis unfolding header_calls_def by (intro good_append blank assms(1))
  qed
  moreover have "good (source_calls SimpleItoa ClassName kThickSeparator ?gs)"
  proof -
    have newline: "good [Print Map.empty [newline]]" by (rule good_constant) (simp add: newline_def)
    with good_append [OF good_constant [OF assms(1)] this]
    have "good [Print Map.empty kThickSeparator, Print Map.empty [newline]]" by simp
    then show ?thesis unfolding source_calls_def
      using vars newline by (intro good_concat) (auto simp: list_all_iff good_implementation simp del: append.simps intro!: good_append)
  qed
  ultimately show ?thesis using False by (simp add: Generate_def Let_def good_def)
qed (simp add: Generate_def)

text \<open>A file with one service.\<close>

definition echo_descriptor :: "string service_descriptor" where
  "echo_descriptor = \<lparr>gs_name = ''EchoService'', gs_full_name = ''echo.EchoService'',
     gs_methods = [\<lparr>gm_name = ''Echo'', gm_input_type = ''EchoRequest'', gm_output_type = ''EchoResponse''\<rparr>,
       \<lparr>gm_name = ''Stop'', gm_input_type = ''Empty'', gm_output_type = ''Empty''\<rparr>]\<rparr>"

definition echo_file :: "string file_descriptor" where
  "echo_file = \<lparr>gf_name = ''echo.proto'', gf_message_types = [''EchoRequest''], gf_services = [echo_descriptor]\<rparr>"

theorem generated_calls_well_formed_witness:
  "list_all (\<lambda>i. list_all bound (in_calls i) \<and> balanced 0 (in_calls i))
    (snd (Generate show_nat (\<lambda>m q. m) (takeWhile (\<lambda>c. c \<noteq> CHR ''.'')) ''// ===='' ''// ----'' echo_file)) \<and>
   length (snd (Generate show_nat (\<lambda>m q. m) (takeWhile (\<lambda>c. c \<noteq> CHR ''.'')) ''// ===='' ''// ----'' echo_file)) = 3"
proof -
  have "CHR ''$'' \<notin> set ''// ====''" "CHR ''$'' \<notin> set ''// ----''" by simp_all
  from generated_calls_well_formed [OF this, of show_nat "\<lambda>m q. m" "takeWhile (\<lambda>c. c \<noteq> CHR ''.'')" echo_file]
  show ?thesis by (simp add: Generate_def echo_file_def Let_def)
qed

text \<open>The variables of the cases of a switch: those of the calls that print the text \<open>t\<close>.\<close>

fun cases_of :: "string \<Rightarrow> print_call list \<Rightarrow> vars list" where
  "cases_of t [] = []"
| "cases_of t (Print vs t' # cs) = (if t' = t then [vs] else []) @ cases_of t cs"
| "cases_of t (c # cs) = cases_of t cs"

lemma cases_of_append [simp]: "cases_of t (cs @ ds) = cases_of t cs @ cases_of t ds"
  by (induction t cs rule: cases_of.induct) auto

lemma cases_of_methods:
  "cases_of t (each_method (\<lambda>i m. Print (v i m) t) g) =
     map (\<lambda>i. v i (gs_methods (sg_descriptor g) ! i)) [0..<length (gs_methods (sg_descriptor g))]"
proof -
  have "cases_of t (map (\<lambda>i. Print (w i) t) js) = map w js" for w and js :: "nat list"
    by (induction js) auto
  then show ?thesis by (simp add: each_method_def)
qed

lemma the_case:
  assumes "inj itoa" "i < n" "\<And>j. v j ''index'' = Some (itoa j)"
  shows "filter (\<lambda>c. c ''index'' = Some (itoa i)) (map v [0..<n]) = [v i]"
proof -
  have "filter (\<lambda>c. c ''index'' = Some (itoa i)) (map v [0..<n]) = map v (filter (\<lambda>j. j = i) [0..<n])"
    using assms(1,3) by (simp add: filter_map comp_def inj_eq)
  also have "filter (\<lambda>j. j = i) [0..<n] = [i]"
    using assms(2) by (induction n) (auto simp: less_Suc_eq)
  finally show ?thesis by simp
qed

lemma texts_differ:
  "call_method_text \<noteq> call_case_text" "call_method_end \<noteq> call_case_text"
  "request_prototype_text \<noteq> prototype_case_text" "response_prototype_text \<noteq> prototype_case_text"
  "prototype_switch \<noteq> prototype_case_text" "prototype_end \<noteq> prototype_case_text"
  by code_simp+

lemma call_cases:
  "cases_of call_case_text (GenerateCallMethod SimpleItoa ClassName g) =
     map (\<lambda>i. let m = gs_methods (sg_descriptor g) ! i in [''name'' \<mapsto> gm_name m, ''index'' \<mapsto> SimpleItoa i,
         ''input_type'' \<mapsto> ClassName (gm_input_type m) True, ''output_type'' \<mapsto> ClassName (gm_output_type m) True])
       [0..<length (gs_methods (sg_descriptor g))]"
  by (simp add: GenerateCallMethod_def texts_differ cases_of_methods Let_def)

lemma prototype_cases:
  "cases_of prototype_case_text (GenerateGetPrototype SimpleItoa ClassName which g) =
     map (\<lambda>i. let m = gs_methods (sg_descriptor g) ! i in [''index'' \<mapsto> SimpleItoa i,
         ''type'' \<mapsto> ClassName (if which = REQUEST then gm_input_type m else gm_output_type m) True])
       [0..<length (gs_methods (sg_descriptor g))]"
  by (simp add: GenerateGetPrototype_def texts_differ cases_of_methods Let_def)

text \<open>C33: The generated client and server agree: the stub of a method passes the number of its
  method, and in each of the three switches of the service exactly one case has that number; it
  calls the method of the stub's name with the stub's types, and gives the prototypes of these
  types.\<close>

theorem stubs_match_dispatch:
  assumes "inj SimpleItoa" "i < length (gs_methods (sg_descriptor g))"
  shows "case GenerateStubMethods SimpleItoa ClassName g ! i of
      Print stub t \<Rightarrow> t = stub_method_text \<and> stub ''name'' = Some (gm_name (gs_methods (sg_descriptor g) ! i)) \<and>
        map (\<lambda>c. (c ''name'', c ''input_type'', c ''output_type''))
          (filter (\<lambda>c. c ''index'' = stub ''index'') (cases_of call_case_text (GenerateCallMethod SimpleItoa ClassName g))) =
          [(stub ''name'', stub ''input_type'', stub ''output_type'')] \<and>
        map (\<lambda>c. c ''type'') (filter (\<lambda>c. c ''index'' = stub ''index'')
          (cases_of prototype_case_text (GenerateGetPrototype SimpleItoa ClassName REQUEST g))) = [stub ''input_type''] \<and>
        map (\<lambda>c. c ''type'') (filter (\<lambda>c. c ''index'' = stub ''index'')
          (cases_of prototype_case_text (GenerateGetPrototype SimpleItoa ClassName RESPONSE g))) = [stub ''output_type'']
    | _ \<Rightarrow> False"
proof -
  note one = the_case [OF assms]
  show ?thesis
    unfolding call_cases prototype_cases using assms(2)
    by (simp add: GenerateStubMethods_def each_method_def one Let_def)
qed

lemma inj_show_nat: "inj show_nat"
  by (rule injI) (metis digits_value_show of_nat_eq_iff)

definition echo_generator :: "string service_generator" where
  "echo_generator = ServiceGenerator show_nat echo_descriptor ''echo.proto'' 0"

theorem stubs_match_dispatch_witness:
  "case GenerateStubMethods show_nat (\<lambda>m q. m) echo_generator ! 1 of
     Print stub t \<Rightarrow> stub ''name'' = Some ''Stop'' \<and>
       map (\<lambda>c. c ''type'') (filter (\<lambda>c. c ''index'' = stub ''index'')
         (cases_of prototype_case_text (GenerateGetPrototype show_nat (\<lambda>m q. m) REQUEST echo_generator))) = [Some ''Empty'']
   | _ \<Rightarrow> False"
proof -
  have m: "gs_methods (sg_descriptor echo_generator) =
    [\<lparr>gm_name = ''Echo'', gm_input_type = ''EchoRequest'', gm_output_type = ''EchoResponse''\<rparr>,
       \<lparr>gm_name = ''Stop'', gm_input_type = ''Empty'', gm_output_type = ''Empty''\<rparr>]"
    by (simp add: echo_generator_def ServiceGenerator_def echo_descriptor_def)
  have "GenerateStubMethods show_nat (\<lambda>m q. m) echo_generator ! 1 = Print
     [''classname'' \<mapsto> gs_name (sg_descriptor echo_generator), ''name'' \<mapsto> ''Stop'', ''index'' \<mapsto> show_nat 1,
      ''input_type'' \<mapsto> ''Empty'', ''output_type'' \<mapsto> ''Empty'', ''output_typedef'' \<mapsto> ''Empty''] stub_method_text"
    by (simp add: GenerateStubMethods_def each_method_def m)
  with stubs_match_dispatch [OF inj_show_nat, of 1 echo_generator "\<lambda>m q. m"] m show ?thesis by simp
qed

end
