(* ===== verification/ServerConnections.thy ===== *)
theory ServerConnections
  imports RpcServer RpcSystem
begin

text \<open>
  A server with any number of connections (RpcServer.cc over RpcChannel.cc). Each connection has a client
  with a channel of its own, from which any number of threads call; the server's channels are the contexts
  of its connections, made and dropped by \<open>RpcServer.onConnection\<close>. A connection can go down at any time:
  what is on its way to the server is lost, what is on its way to the client may be lost from some message on,
  later sends are dropped by the connection, and the server's channel is destroyed, since the context held
  the only shared pointer to it. The handlers outlive the connection, and with them the bound
  \<^verbatim>\<open>doneCallback\<close>, which has a bare pointer to the channel.

  The theory shows that on each connection the run is one of \<open>RpcSystem\<close>, whatever the others do, and what
  happens to the calls that are in progress when a connection goes down.
\<close>

section \<open>States and steps\<close>

record ('m, 'cb, 'conn) link =
  lk_client :: "('m, 'cb, 'conn) channel"
  lk_got :: "(int64 \<times> ('m, 'cb) rpc_call) list"
  lk_stored :: "(int64 \<times> ('m, 'cb) rpc_call) list"
  lk_c2s :: "rpc_message list"
  lk_s2c :: "rpc_message list"
  lk_log :: "(int64 \<times> ('m, 'cb) effect list) list"
  lk_dropped :: "int64 list"
  lk_issued :: "int64 \<rightharpoonup> ('m, 'cb) rpc_call"
  lk_answered :: "int64 \<rightharpoonup> 'm"
  lk_calls :: nat

definition link_new :: "'conn \<Rightarrow> ('m, 'cb, 'conn) link" where
  "link_new k =
     \<lparr>lk_client = setConnection (Some k) RpcChannel_new, lk_got = [], lk_stored = [], lk_c2s = [], lk_s2c = [],
      lk_log = [], lk_dropped = [], lk_issued = Map.empty, lk_answered = Map.empty, lk_calls = 0\<rparr>"

text \<open>The pending handlers are those of all connections. A connection is never made twice.\<close>

record ('m, 'cb, 'conn) net =
  nt_server :: "('m, 'cb, 'conn) server"
  nt_link :: "'conn \<Rightarrow> ('m, 'cb, 'conn) link"
  nt_seen :: "'conn set"
  nt_pending :: "('conn \<times> int64 \<times> 'm method_desc \<times> 'm) list"

text \<open>A handler calls its \<^verbatim>\<open>done\<close>: \<^verbatim>\<open>doneCallback\<close> of the channel, if there still is one.\<close>

datatype done_error = Channel_destroyed | Done_failed failure

definition server_done ::
  "('m \<Rightarrow> string) \<Rightarrow> ('m \<Rightarrow> 't) \<Rightarrow> 'conn \<Rightarrow> 'm \<Rightarrow> 'm option \<Rightarrow> int64 \<Rightarrow> ('m, 'cb, 'conn) server \<Rightarrow>
     done_error + ('m, 'cb) effect list" where
  "server_done serialize descr k proto response i srv =
     (case srv_context srv k of
        None \<Rightarrow> Inl Channel_destroyed
      | Some ch \<Rightarrow> map_sum Done_failed (\<lambda>effs. effs) (doneCallback serialize descr proto response i))"

definition net_init :: "('m, 'cb, 'conn) server \<Rightarrow> ('m, 'cb, 'conn) net" where
  "net_init srv = \<lparr>nt_server = srv, nt_link = link_new, nt_seen = {}, nt_pending = []\<rparr>"

inductive net_step ::
  "('m \<Rightarrow> string) \<Rightarrow> ('m \<Rightarrow> string \<Rightarrow> 'm) \<Rightarrow> ('m \<Rightarrow> 't) \<Rightarrow>
     ('m, 'cb, 'conn) net \<Rightarrow> ('m, 'cb, 'conn) net \<Rightarrow> bool"
  for serialize parse descr where
  net_accept:
    "k \<notin> nt_seen n \<Longrightarrow>
     net_step serialize parse descr n
       (n\<lparr>nt_server := RpcServer.onConnection k True (nt_server n), nt_link := (nt_link n)(k := link_new k),
          nt_seen := insert k (nt_seen n)\<rparr>)"
| net_begin:
    "k \<in> nt_seen n \<Longrightarrow> l = nt_link n k \<Longrightarrow> call_next_id (lk_client l) = (i, cl) \<Longrightarrow>
     net_step serialize parse descr n
       (n\<lparr>nt_link := (nt_link n)(k := l\<lparr>lk_client := cl, lk_got := lk_got l @ [(i, c)],
          lk_issued := (lk_issued l)(i \<mapsto> c), lk_calls := Suc (lk_calls l)\<rparr>)\<rparr>)"
| net_insert:
    "k \<in> nt_seen n \<Longrightarrow> l = nt_link n k \<Longrightarrow> lk_got l = us @ (i, c) # vs \<Longrightarrow>
     net_step serialize parse descr n
       (n\<lparr>nt_link := (nt_link n)(k := l\<lparr>lk_client := call_store i c (lk_client l), lk_got := us @ vs,
          lk_stored := lk_stored l @ [(i, c)]\<rparr>)\<rparr>)"
| net_send:
    "k \<in> nt_seen n \<Longrightarrow> l = nt_link n k \<Longrightarrow> lk_stored l = us @ (i, c) # vs \<Longrightarrow>
     net_step serialize parse descr n
       (n\<lparr>nt_link := (nt_link n)(k := l\<lparr>lk_stored := us @ vs,
          lk_c2s := (if srv_context (nt_server n) k = None then lk_c2s l
                     else lk_c2s l @ [request_message serialize i c])\<rparr>)\<rparr>)"
| net_serve:
    "l = nt_link n k \<Longrightarrow> lk_c2s l = msg # rest \<Longrightarrow>
     server_message parse k msg (nt_server n) = Some (Inr (srv, [Call_service md req proto i])) \<Longrightarrow>
     net_step serialize parse descr n
       (n\<lparr>nt_server := srv, nt_link := (nt_link n)(k := l\<lparr>lk_c2s := rest\<rparr>),
          nt_pending := nt_pending n @ [(k, i, md, req)]\<rparr>)"
| net_ignore:
    "l = nt_link n k \<Longrightarrow> lk_c2s l = msg # rest \<Longrightarrow>
     server_message parse k msg (nt_server n) = Some (Inr (srv, [])) \<Longrightarrow>
     net_step serialize parse descr n
       (n\<lparr>nt_server := srv,
          nt_link := (nt_link n)(k := l\<lparr>lk_c2s := rest, lk_dropped := lk_dropped l @ [rm_id msg]\<rparr>)\<rparr>)"
| net_answer:
    "nt_pending n = us @ (k, i, md, req) # vs \<Longrightarrow> l = nt_link n k \<Longrightarrow>
     server_done serialize descr k (md_response md) (Some r) i (nt_server n) =
       (Inr [Send resp] :: done_error + ('m, 'cb) effect list) \<Longrightarrow>
     net_step serialize parse descr n
       (n\<lparr>nt_pending := us @ vs,
          nt_link := (nt_link n)(k := l\<lparr>lk_s2c := lk_s2c l @ [resp], lk_answered := (lk_answered l)(i \<mapsto> r)\<rparr>)\<rparr>)"
| net_deliver:
    "l = nt_link n k \<Longrightarrow> lk_s2c l = msg # rest \<Longrightarrow>
     onRpcMessage parse (ch_conn (lk_client l)) msg (lk_client l) = Inr (cl, effs) \<Longrightarrow>
     net_step serialize parse descr n
       (n\<lparr>nt_link := (nt_link n)(k := l\<lparr>lk_client := cl, lk_s2c := rest, lk_log := lk_log l @ [(rm_id msg, effs)]\<rparr>)\<rparr>)"
| net_close:
    "srv_context (nt_server n) k = Some ch \<Longrightarrow> l = nt_link n k \<Longrightarrow>
     net_step serialize parse descr n
       (n\<lparr>nt_server := RpcServer.onConnection k False (nt_server n),
          nt_link := (nt_link n)(k := l\<lparr>lk_c2s := [], lk_s2c := take m (lk_s2c l)\<rparr>)\<rparr>)"

inductive net_reachable ::
  "('m \<Rightarrow> string) \<Rightarrow> ('m \<Rightarrow> string \<Rightarrow> 'm) \<Rightarrow> ('m \<Rightarrow> 't) \<Rightarrow> 'm service \<Rightarrow> 'm service list \<Rightarrow>
     ('m, 'cb, 'conn) net \<Rightarrow> bool"
  for serialize parse descr meta svs where
  net_reach_init: "net_reachable serialize parse descr meta svs
     (net_init (start (fold registerService svs (RpcServer_new meta))))"
| net_reach_step: "net_reachable serialize parse descr meta svs n \<Longrightarrow> net_step serialize parse descr n n' \<Longrightarrow>
     net_reachable serialize parse descr meta svs n'"

section \<open>Each connection follows the RPC system\<close>

text \<open>The server's channels are as they were made.\<close>

definition contexts_ok :: "(string, 'm service) omap \<Rightarrow> ('m, 'cb, 'conn) net \<Rightarrow> bool" where
  "contexts_ok services n \<longleftrightarrow> srv_services (nt_server n) = services \<and>
     (\<forall>k ch. srv_context (nt_server n) k = Some ch \<longrightarrow>
        k \<in> nt_seen n \<and> ch_conn ch = Some k \<and> ch_services ch = Some services)"

text \<open>The state \<open>s\<close> of the RPC system explains the connection \<open>k\<close>: it has its clients, its handlers and its
  history, and its messages too, of which a connection that went down has lost all after some point.\<close>

definition follows :: "('m, 'cb, 'conn) net \<Rightarrow> 'conn \<Rightarrow> ('m, 'cb, 'conn) system \<Rightarrow> bool" where
  "follows n k s \<longleftrightarrow>
     sy_client s = lk_client (nt_link n k) \<and> sy_got s = lk_got (nt_link n k) \<and> sy_stored s = lk_stored (nt_link n k) \<and>
     sy_log s = lk_log (nt_link n k) \<and> sy_dropped s = lk_dropped (nt_link n k) \<and>
     sy_issued s = lk_issued (nt_link n k) \<and> sy_answered s = lk_answered (nt_link n k) \<and>
     sy_calls s = lk_calls (nt_link n k) \<and>
     sy_pending s = map snd (filter (\<lambda>p. fst p = k) (nt_pending n)) \<and>
     (\<exists>lost. sy_s2c s = lk_s2c (nt_link n k) @ lost) \<and>
     (case srv_context (nt_server n) k of
        None \<Rightarrow> lk_c2s (nt_link n k) = []
      | Some ch \<Rightarrow> sy_server s = ch \<and> sy_c2s s = lk_c2s (nt_link n k) \<and> sy_s2c s = lk_s2c (nt_link n k))"

lemma onConnection_context:
  "srv_context (RpcServer.onConnection k True srv) =
     (srv_context srv)(k \<mapsto> setServices (srv_services srv) (RpcChannel_conn k))"
  "srv_context (RpcServer.onConnection k False srv) = (srv_context srv)(k := None)"
  "srv_services (RpcServer.onConnection k b srv) = srv_services srv"
  by (auto simp: RpcServer.onConnection_def hm_store_def hm_erase_def Let_def)

lemma setServices_same: "ch_services ch = Some services \<Longrightarrow> setServices services ch = ch"
  by (cases ch) (simp add: setServices_def)

lemma server_message_channel:
  assumes "contexts_ok services n" "server_message parse k msg (nt_server n) = Some (Inr (srv, effs))"
  obtains ch ch' where "srv_context (nt_server n) k = Some ch" "ch_conn ch = Some k" "ch_services ch = Some services"
    "onRpcMessage parse (ch_conn ch) msg ch = Inr (ch', effs)"
    "srv = (nt_server n)\<lparr>srv_context := (srv_context (nt_server n))(k \<mapsto> ch')\<rparr>"
    "ch_conn ch' = Some k" "ch_services ch' = Some services"
proof -
  obtain ch where ch: "srv_context (nt_server n) k = Some ch"
    using assms(2) by (auto simp: server_message_def)
  then have ok: "ch_conn ch = Some k" "ch_services ch = Some services" "srv_services (nt_server n) = services"
    using assms(1) by (auto simp: contexts_ok_def)
  then obtain ch' where ch': "onRpcMessage parse (Some k) msg ch = Inr (ch', effs)"
      "srv = (nt_server n)\<lparr>srv_context := hm_store k ch' (srv_context (nt_server n))\<rparr>"
    using assms(2) ch by (auto simp: server_message_def setServices_same split: sum.splits)
  have "ch_conn ch' = ch_conn ch \<and> ch_services ch' = ch_services ch"
    using ch'(1) by (auto simp: onRpcMessage_def Let_def split: if_splits message_type.splits option.splits)
  with ch ok ch' show thesis by (intro that [of ch ch']) (simp_all add: hm_store_def)
qed

lemma contexts_ok_message:
  assumes "contexts_ok services n" "server_message parse k msg (nt_server n) = Some (Inr (srv, effs))"
    and "nt_server n' = srv" "nt_seen n' = nt_seen n"
  shows "contexts_ok services n'"
proof -
  obtain ch ch' where "srv_context (nt_server n) k = Some ch" "ch_conn ch' = Some k" "ch_services ch' = Some services"
    "srv = (nt_server n)\<lparr>srv_context := (srv_context (nt_server n))(k \<mapsto> ch')\<rparr>"
    using server_message_channel [OF assms(1,2)] by metis
  with assms(1,3,4) show ?thesis unfolding contexts_ok_def by auto
qed

lemma contexts_ok_step:
  assumes "net_step serialize parse descr n n'" "contexts_ok services n"
  shows "contexts_ok services n'"
  using assms
proof cases
  case (net_accept k)
  with assms(2) show ?thesis by (auto simp: contexts_ok_def onConnection_context setServices_def RpcChannel_conn_def)
next
  case (net_serve l k msg rest srv md req proto i)
  with contexts_ok_message [OF assms(2) net_serve(4)] show ?thesis by simp
next
  case (net_ignore l k msg rest srv)
  with contexts_ok_message [OF assms(2) net_ignore(4)] show ?thesis by simp
qed (use assms(2) in \<open>auto simp: contexts_ok_def onConnection_context\<close>)

lemma follows_new:
  assumes "k \<notin> nt_seen n" "contexts_ok services n" "k \<notin> fst ` set (nt_pending n)"
  shows "follows (n\<lparr>nt_server := RpcServer.onConnection k True (nt_server n),
    nt_link := (nt_link n)(k := link_new k), nt_seen := insert k (nt_seen n)\<rparr>) k (system_init k k services)"
proof -
  have "filter (\<lambda>p. fst p = k) (nt_pending n) = []" using assms(3) by (force simp: filter_empty_conv)
  moreover have "srv_services (nt_server n) = services" using assms(2) by (simp add: contexts_ok_def)
  ultimately show ?thesis by (simp add: follows_def link_new_def system_init_def onConnection_context)
qed

text \<open>A step changes one connection, by a step of the RPC system or none.\<close>

lemma follows_keep:
  "follows n k s \<Longrightarrow> nt_link n' k = nt_link n k \<Longrightarrow> srv_context (nt_server n') k = srv_context (nt_server n) k \<Longrightarrow>
     filter (\<lambda>p. fst p = k) (nt_pending n') = filter (\<lambda>p. fst p = k) (nt_pending n) \<Longrightarrow>
     follows n' k s"
  by (simp only: follows_def)

lemma server_done_Inr:
  "server_done serialize descr k proto response i srv = Inr effs \<Longrightarrow> \<exists>ch. srv_context srv k = Some ch"
  "server_done serialize descr k proto response i srv = Inr effs \<Longrightarrow> doneCallback serialize descr proto response i = Inr effs"
  by (auto simp: server_done_def map_sum_def split: option.splits sum.splits)

lemma pending_split:
  assumes "nt_pending n = us @ (k, i, md, req) # vs"
  shows "map snd (filter (\<lambda>p. fst p = k) (nt_pending n)) =
    map snd (filter (\<lambda>p. fst p = k) us) @ (i, md, req) # map snd (filter (\<lambda>p. fst p = k) vs)"
    "map snd (filter (\<lambda>p. fst p = k) (us @ vs)) =
    map snd (filter (\<lambda>p. fst p = k) us) @ map snd (filter (\<lambda>p. fst p = k) vs)"
  by (simp_all add: assms)

lemma follows_step:
  assumes step: "net_step serialize parse descr n n'" and ok: "contexts_ok services n"
    and k: "k \<in> nt_seen n" and f: "follows n k s"
  shows "\<exists>s'. follows n' k s' \<and> (s' = s \<or> system_step serialize parse descr s s')"
  using step
proof cases
  case (net_accept j)
  then have "j \<noteq> k" using k by blast
  with net_accept(1) have "follows n' k s" by (intro follows_keep [OF f]) (simp_all add: onConnection_context)
  then show ?thesis by blast
next
  case (net_begin j l i cl c)
  have "system_step serialize parse descr s (s\<lparr>sy_client := cl, sy_got := sy_got s @ [(i, c)],
      sy_issued := (sy_issued s)(i \<mapsto> c), sy_calls := Suc (sy_calls s)\<rparr>)" if "j = k"
    using f net_begin that by (intro system_step.call_begin) (simp add: follows_def)
  moreover have "follows n' k (s\<lparr>sy_client := cl, sy_got := sy_got s @ [(i, c)],
      sy_issued := (sy_issued s)(i \<mapsto> c), sy_calls := Suc (sy_calls s)\<rparr>)" if "j = k"
    using f net_begin(1,3) that by (simp add: follows_def split: option.splits)
  moreover have "follows n' k s" if "j \<noteq> k" using net_begin(1) that by (intro follows_keep [OF f]) (simp_all add: onConnection_context)
  ultimately show ?thesis by blast
next
  case (net_insert j l us i c vs)
  let ?s' = "s\<lparr>sy_client := call_store i c (sy_client s), sy_got := us @ vs, sy_stored := sy_stored s @ [(i, c)]\<rparr>"
  have "system_step serialize parse descr s ?s'" if "j = k"
    using f net_insert that by (intro system_step.call_insert) (simp add: follows_def)
  moreover have "follows n' k ?s'" if "j = k"
    using f net_insert(1,3) that by (simp add: follows_def split: option.splits)
  moreover have "follows n' k s" if "j \<noteq> k" using net_insert(1) that by (intro follows_keep [OF f]) (simp_all add: onConnection_context)
  ultimately show ?thesis by blast
next
  case (net_send j l us i c vs)
  let ?s' = "s\<lparr>sy_stored := us @ vs, sy_c2s := sy_c2s s @ [request_message serialize i c]\<rparr>"
  have "system_step serialize parse descr s ?s'" if "j = k"
    using f net_send that by (intro system_step.call_send) (simp add: follows_def)
  moreover have "follows n' k ?s'" if "j = k"
    using f net_send(1,3) that by (simp add: follows_def split: option.splits)
  moreover have "follows n' k s" if "j \<noteq> k" using net_send(1) that by (intro follows_keep [OF f]) (simp_all add: onConnection_context)
  ultimately show ?thesis by blast
next
  case (net_serve l j msg rest srv md req proto i)
  from server_message_channel [OF ok net_serve(4)] obtain ch ch' where ch: "srv_context (nt_server n) j = Some ch"
    "onRpcMessage parse (ch_conn ch) msg ch = Inr (ch', [Call_service md req proto i])"
    "srv = (nt_server n)\<lparr>srv_context := (srv_context (nt_server n))(j \<mapsto> ch')\<rparr>" by metis
  let ?s' = "s\<lparr>sy_server := ch', sy_c2s := rest, sy_pending := sy_pending s @ [(i, md, req)]\<rparr>"
  have "system_step serialize parse descr s ?s'" if "j = k"
    using f net_serve(2,3) ch(1,2) that by (intro system_step.serve) (auto simp: follows_def)
  moreover have "follows n' k ?s'" if "j = k"
    using f net_serve(1,2) ch(1,3) that by (auto simp: follows_def)
  moreover have "follows n' k s" if "j \<noteq> k" using net_serve(1) ch(3) that by (intro follows_keep [OF f]) (simp_all add: onConnection_context)
  ultimately show ?thesis by blast
next
  case (net_ignore l j msg rest srv)
  from server_message_channel [OF ok net_ignore(4)] obtain ch ch' where ch: "srv_context (nt_server n) j = Some ch"
    "onRpcMessage parse (ch_conn ch) msg ch = Inr (ch', [])"
    "srv = (nt_server n)\<lparr>srv_context := (srv_context (nt_server n))(j \<mapsto> ch')\<rparr>" by metis
  let ?s' = "s\<lparr>sy_server := ch', sy_c2s := rest, sy_dropped := sy_dropped s @ [rm_id msg]\<rparr>"
  have "system_step serialize parse descr s ?s'" if "j = k"
    using f net_ignore(2,3) ch(1,2) that by (intro system_step.ignore) (auto simp: follows_def)
  moreover have "follows n' k ?s'" if "j = k"
    using f net_ignore(1,2) ch(1,3) that by (auto simp: follows_def)
  moreover have "follows n' k s" if "j \<noteq> k" using net_ignore(1) ch(3) that by (intro follows_keep [OF f]) (simp_all add: onConnection_context)
  ultimately show ?thesis by blast
next
  case (net_answer us j i md req vs l r resp)
  obtain ch where ch: "srv_context (nt_server n) j = Some ch" using server_done_Inr(1) [OF net_answer(4)] by blast
  note sent = server_done_Inr(2) [OF net_answer(4)]
  note p = pending_split [OF net_answer(2)]
  let ?us = "map snd (filter (\<lambda>p. fst p = j) us)" and ?vs = "map snd (filter (\<lambda>p. fst p = j) vs)"
  let ?s' = "s\<lparr>sy_pending := ?us @ ?vs, sy_s2c := sy_s2c s @ [resp], sy_answered := (sy_answered s)(i \<mapsto> r)\<rparr>"
  have "sy_pending s = ?us @ (i, md, req) # ?vs" if "j = k"
    using f that unfolding follows_def p(1) [symmetric] by blast
  then have "system_step serialize parse descr s ?s'" if "j = k"
    using that by (intro system_step.answer [OF _ sent]) blast
  moreover have "follows n' k ?s'" if "j = k"
    using f net_answer(1,3) ch p(2) that by (simp add: follows_def)
  moreover have "follows n' k s" if "j \<noteq> k"
    using net_answer(1,2) that by (intro follows_keep [OF f]) (simp_all add: onConnection_context)
  ultimately show ?thesis by blast
next
  case (net_deliver l j msg rest cl effs)
  obtain lost where lost: "sy_s2c s = lk_s2c (nt_link n k) @ lost" using f unfolding follows_def by blast
  let ?s' = "s\<lparr>sy_client := cl, sy_s2c := rest @ lost, sy_log := sy_log s @ [(rm_id msg, effs)]\<rparr>"
  have "system_step serialize parse descr s ?s'" if "j = k"
    using f net_deliver(2-4) lost that by (intro system_step.deliver) (auto simp: follows_def)
  moreover have "follows n' k ?s'" if "j = k"
    using f net_deliver(1-3) lost that by (auto simp: follows_def split: option.splits)
  moreover have "follows n' k s" if "j \<noteq> k" using net_deliver(1) that by (intro follows_keep [OF f]) (simp_all add: onConnection_context)
  ultimately show ?thesis by blast
next
  case (net_close j ch l m)
  have "follows n' k s" if "j = k"
  proof -
    have "sy_s2c s = take m (lk_s2c (nt_link n k)) @ drop m (lk_s2c (nt_link n k))"
      using f net_close(2) that by (simp add: follows_def)
    with f net_close(1-3) that show ?thesis
      by (auto simp: follows_def onConnection_context intro: exI [of _ "drop m (lk_s2c (nt_link n k))"])
  qed
  moreover have "follows n' k s" if "j \<noteq> k"
    using net_close(1) that by (intro follows_keep [OF f]) (simp_all add: onConnection_context)
  ultimately show ?thesis by blast
qed

definition net_ok ::
  "('m \<Rightarrow> string) \<Rightarrow> ('m \<Rightarrow> string \<Rightarrow> 'm) \<Rightarrow> ('m \<Rightarrow> 't) \<Rightarrow> (string, 'm service) omap \<Rightarrow> ('m, 'cb, 'conn) net \<Rightarrow> bool" where
  "net_ok serialize parse descr services n \<longleftrightarrow>
     contexts_ok services n \<and> fst ` set (nt_pending n) \<subseteq> nt_seen n \<and>
     (\<forall>k\<in>nt_seen n. \<exists>s. system_reachable serialize parse descr services s \<and> follows n k s)"

lemma pending_seen_step:
  assumes "net_step serialize parse descr n n'" "contexts_ok services n" "fst ` set (nt_pending n) \<subseteq> nt_seen n"
  shows "nt_seen n \<subseteq> nt_seen n'" "fst ` set (nt_pending n') \<subseteq> nt_seen n'"
proof -
  show "nt_seen n \<subseteq> nt_seen n'" using assms(1) by cases auto
  show "fst ` set (nt_pending n') \<subseteq> nt_seen n'" using assms(1)
  proof cases
    case (net_serve l k msg rest srv md req proto i)
    obtain ch where "srv_context (nt_server n) k = Some ch"
      using server_message_channel [OF assms(2) net_serve(4)] by metis
    then have "k \<in> nt_seen n" using assms(2) unfolding contexts_ok_def by blast
    with assms(3) net_serve(1) show ?thesis by auto
  qed (use assms(3) in auto)
qed

lemma net_ok_step:
  assumes step: "net_step serialize parse descr n n'" and ok: "net_ok serialize parse descr services n"
  shows "net_ok serialize parse descr services n'"
  unfolding net_ok_def
proof (intro conjI ballI)
  have c: "contexts_ok services n" and p: "fst ` set (nt_pending n) \<subseteq> nt_seen n"
    using ok by (simp_all add: net_ok_def)
  show "contexts_ok services n'" by (rule contexts_ok_step [OF step c])
  show "fst ` set (nt_pending n') \<subseteq> nt_seen n'" by (rule pending_seen_step(2) [OF step c p])
  fix k assume k: "k \<in> nt_seen n'"
  show "\<exists>s. system_reachable serialize parse descr services s \<and> follows n' k s"
  proof (cases "k \<in> nt_seen n")
    case True
    then obtain s where s: "system_reachable serialize parse descr services s" "follows n k s"
      using ok unfolding net_ok_def by blast
    obtain s' where "follows n' k s'" "s' = s \<or> system_step serialize parse descr s s'"
      using follows_step [OF step c True s(2)] by blast
    with s(1) show ?thesis by (blast intro: reach_step)
  next
    case False
    from step have "n' = n\<lparr>nt_server := RpcServer.onConnection k True (nt_server n),
      nt_link := (nt_link n)(k := link_new k), nt_seen := insert k (nt_seen n)\<rparr>"
      by cases (use k False in auto)
    moreover have "k \<notin> fst ` set (nt_pending n)" using p False by blast
    ultimately show ?thesis using follows_new [OF False c] reach_init by metis
  qed
qed

lemma register_all_context:
  fixes svs :: "'m service list"
  shows "srv_context (fold registerService svs (RpcServer_new meta) :: ('m, 'cb, 'conn) server) = Map.empty"
proof -
  have "srv_context (fold registerService svs srv) = srv_context srv" for srv :: "('m, 'cb, 'conn) server"
    by (induction svs arbitrary: srv) (simp_all add: registerService_def)
  then show ?thesis by (simp add: RpcServer_new_def registerService_def)
qed

lemma net_reachable_ok:
  "net_reachable serialize parse descr meta svs n \<Longrightarrow> net_ok serialize parse descr (service_table (meta # svs)) n"
proof (induction rule: net_reachable.induct)
  case net_reach_init
  show ?case
    unfolding net_ok_def contexts_ok_def
    by (simp add: net_init_def start_def services_after_registration register_all_context)
next
  case (net_reach_step n n')
  then show ?case by (blast intro: net_ok_step)
qed

section \<open>Properties\<close>

text \<open>An example: a client calls, and its connection goes down before the handler answers.\<close>

lemma net_call_reachable:
  assumes "net_reachable serialize parse descr meta svs n" "k \<in> nt_seen n" "srv_context (nt_server n) k = Some ch"
    and "l = nt_link n k" "i = ch_id (lk_client l) + 1"
  shows "net_reachable serialize parse descr meta svs (n\<lparr>nt_link := (nt_link n)(k :=
    l\<lparr>lk_issued := (lk_issued l)(i \<mapsto> c), lk_calls := Suc (lk_calls l), lk_client := fst (CallMethod serialize c (lk_client l)),
       lk_c2s := lk_c2s l @ [request_message serialize i c]\<rparr>)\<rparr>)"
proof -
  let ?l1 = "l\<lparr>lk_client := (lk_client l)\<lparr>ch_id := i\<rparr>, lk_got := lk_got l @ [(i, c)],
    lk_issued := (lk_issued l)(i \<mapsto> c), lk_calls := Suc (lk_calls l)\<rparr>"
  let ?n1 = "n\<lparr>nt_link := (nt_link n)(k := ?l1)\<rparr>"
  have 1: "net_reachable serialize parse descr meta svs ?n1"
    by (rule net_reach_step [OF assms(1)], rule net_step.net_begin) (simp_all add: assms call_next_id_eq)
  let ?l2 = "?l1\<lparr>lk_client := call_store i c (lk_client ?l1), lk_got := lk_got l @ [],
    lk_stored := lk_stored ?l1 @ [(i, c)]\<rparr>"
  let ?n2 = "?n1\<lparr>nt_link := (nt_link ?n1)(k := ?l2)\<rparr>"
  have 2: "net_reachable serialize parse descr meta svs ?n2"
    by (rule net_reach_step [OF 1], rule net_step.net_insert) (simp_all add: assms(2))
  have "net_reachable serialize parse descr meta svs (?n2\<lparr>nt_link := (nt_link ?n2)(k :=
      ?l2\<lparr>lk_stored := lk_stored l @ [], lk_c2s := (if srv_context (nt_server ?n2) k = None then lk_c2s ?l2
        else lk_c2s ?l2 @ [request_message serialize i c])\<rparr>)\<rparr>)"
    by (rule net_reach_step [OF 2], rule net_step.net_send) (simp_all add: assms(2))
  moreover have "fst (CallMethod serialize c (lk_client l)) = call_store i c ((lk_client l)\<lparr>ch_id := i\<rparr>)"
    by (simp add: CallMethod_eq assms(5))
  ultimately show ?thesis using assms(3) by simp
qed

definition echo_service :: "string service" where
  "echo_service = \<lparr>sv_full_name = ''EchoService'', sv_methods = [echo_method],
     sv_file = \<lparr>fd_name = ''echo.proto'', fd_text = [], fd_dependencies = []\<rparr>\<rparr>"

abbreviation echo_net :: "(string, nat, nat) net \<Rightarrow> bool" where
  "echo_net \<equiv> net_reachable (\<lambda>m. m) (\<lambda>_ b. b) (\<lambda>_. ()) (example_service ''Meta'') [echo_service]"

lemma first_call_served:
  fixes c :: "('m, 'cb) rpc_call" and k :: 'conn
  assumes "resolve_method (service_table (meta # svs)) (md_service (rc_method c)) (md_name (rc_method c)) = Some md"
  obtains n where "net_reachable serialize parse descr meta svs n"
    "nt_pending n = [(k, 1, md, parse (md_request md) (serialize (rc_request c)))]" "srv_context (nt_server n) k \<noteq> None"
    "nt_seen n = {k}" "lk_calls (nt_link n k) = 1" "lk_issued (nt_link n k) = [1 \<mapsto> c]" "lk_log (nt_link n k) = []"
proof -
  let ?srv = "start (fold registerService svs (RpcServer_new meta)) :: ('m, 'cb, 'conn) server"
  let ?n0 = "net_init ?srv"
  have 0: "net_reachable serialize parse descr meta svs ?n0" by (rule net_reach_init)
  let ?n1 = "?n0\<lparr>nt_server := RpcServer.onConnection k True ?srv, nt_link := (nt_link ?n0)(k := link_new k), nt_seen := insert k {}\<rparr>"
  have 1: "net_reachable serialize parse descr meta svs ?n1"
    using net_reach_step [OF 0 net_step.net_accept [of k]] by (simp add: net_init_def)
  let ?ch = "setServices (service_table (meta # svs)) (RpcChannel_conn k) :: ('m, 'cb, 'conn) channel"
  have services: "srv_services ?srv = service_table (meta # svs)" by (simp add: start_def services_after_registration)
  then have ch: "srv_context (nt_server ?n1) k = Some ?ch" by (simp add: onConnection_context)
  let ?req = "request_message serialize 1 c"
  let ?n2 = "?n1\<lparr>nt_link := (nt_link ?n1)(k := (link_new k)\<lparr>lk_issued := [1 \<mapsto> c], lk_calls := 1,
    lk_client := fst (CallMethod serialize c (setConnection (Some k) RpcChannel_new)), lk_c2s := [?req]\<rparr>)\<rparr>"
  have 2: "net_reachable serialize parse descr meta svs ?n2"
    using net_call_reachable [OF 1 _ ch refl refl, of c]
    by (simp add: link_new_def RpcChannel_new_def setConnection_def)
  let ?effs = "[Call_service md (parse (md_request md) (serialize (rc_request c))) (md_response md) 1]"
  let ?srv' = "(nt_server ?n2)\<lparr>srv_context := hm_store k ?ch (srv_context (nt_server ?n2))\<rparr>"
  have "channel_method ?ch (rc_method c) = Some md" using assms by (simp add: channel_method_def setServices_def)
  then have "onRpcMessage parse (ch_conn ?ch) ?req ?ch = Inr (?ch, ?effs)"
    by (simp add: onRpcMessage_request_message)
  moreover have "ch_conn ?ch = Some k" "setServices (service_table (meta # svs)) ?ch = ?ch"
    by (simp_all add: setServices_def RpcChannel_conn_def)
  ultimately have "server_message parse k ?req (nt_server ?n2) = Some (Inr (?srv', ?effs))"
    by (simp add: server_message_def onConnection_context services)
  from net_reach_step [OF 2 net_step.net_serve [OF refl _ this]]
  have "net_reachable serialize parse descr meta svs (?n2\<lparr>nt_server := ?srv',
      nt_link := (nt_link ?n2)(k := (nt_link ?n2 k)\<lparr>lk_c2s := []\<rparr>),
      nt_pending := [(k, 1, md, parse (md_request md) (serialize (rc_request c)))]\<rparr>)"
    by (simp add: net_init_def)
  then show thesis by (rule that) (simp_all add: net_init_def hm_store_def link_new_def)
qed

lemma echo_net_served:
  obtains n where "echo_net n" "nt_pending n = [(0, 1, echo_method, ''hi'')]" "srv_context (nt_server n) 0 \<noteq> None"
    "nt_seen n = {0}" "lk_calls (nt_link n 0) = 1"
proof -
  have "resolve_method (service_table [example_service ''Meta'', echo_service]) (md_service (rc_method echo_call))
      (md_name (rc_method echo_call)) = Some echo_method"
    by (simp add: resolve_method_def service_table_def example_service_def echo_service_def echo_call_def echo_method_def
        FindMethodByName_def)
  from first_call_served [OF this, where serialize = "\<lambda>m. m" and parse = "\<lambda>_ b. b" and descr = "\<lambda>_. ()" and k = 0]
  obtain n where n: "echo_net n"
    "nt_pending n = [(0, 1, echo_method, rc_request echo_call)]" "srv_context (nt_server n) 0 \<noteq> None"
    "nt_seen n = {0}" "lk_calls (nt_link n 0) = 1" "lk_issued (nt_link n 0) = [1 \<mapsto> echo_call]" "lk_log (nt_link n 0) = []" .
  from n(2) have "nt_pending n = [(0, 1, echo_method, ''hi'')]" by (simp add: echo_call_def)
  from that [OF n(1) this n(3-5)] show thesis .
qed

text \<open>C3: The connections of a server do not disturb each other: whatever all clients, handlers and
  connections do, each connection goes through states of the RPC system of one client and one server, so a
  client's calls complete at most once, each with an answer that a handler gave to this very call of this very
  client, also if the connection has gone down.\<close>

theorem connections_isolated:
  assumes "net_reachable serialize parse descr meta svs n" "k \<in> nt_seen n" "lk_calls (nt_link n k) < 2 ^ 64"
  shows "(\<exists>s. system_reachable serialize parse descr (service_table (meta # svs)) s \<and> follows n k s) \<and>
    distinct (map fst (lk_log (nt_link n k))) \<and>
    ((i, effs) \<in> set (lk_log (nt_link n k)) \<longrightarrow>
       (\<exists>c r. lk_issued (nt_link n k) i = Some c \<and> lk_answered (nt_link n k) i = Some r \<and>
          effs = completion parse c (serialize r)))"
proof -
  obtain s where s: "system_reachable serialize parse descr (service_table (meta # svs)) s" "follows n k s"
    using net_reachable_ok [OF assms(1)] assms(2) unfolding net_ok_def by blast
  have "sy_calls s < 2 ^ 64" using s(2) assms(3) by (simp add: follows_def)
  with s(1) have ok: "system_ok serialize parse (service_table (meta # svs)) s" and dist: "distinct (all_ids s)"
    by (auto intro: system_ok_reachable all_ids_distinct ids_ok_reachable)
  have log: "sy_log s = lk_log (nt_link n k)" "sy_issued s = lk_issued (nt_link n k)" "sy_answered s = lk_answered (nt_link n k)"
    using s(2) by (simp_all add: follows_def)
  have "distinct (map fst (sy_log s))" using dist unfolding all_ids_def distinct_append by blast
  moreover have "\<exists>c r. sy_issued s i = Some c \<and> sy_answered s i = Some r \<and> effs = completion parse c (serialize r)"
    if "(i, effs) \<in> set (sy_log s)"
    using ok that by (fastforce simp: system_ok_def responses_ok_def)
  ultimately show ?thesis using s by (simp add: log) blast
qed

theorem connections_isolated_witness:
  "\<exists>n. echo_net n \<and> nt_seen n = {0} \<and>
     (\<exists>s. system_reachable (\<lambda>m. m) (\<lambda>_ b. b) (\<lambda>_. ()) (service_table [example_service ''Meta'', echo_service]) s \<and> follows n 0 s)"
proof -
  obtain n where n: "echo_net n" "nt_seen n = {0}" "lk_calls (nt_link n 0) = 1" using echo_net_served by metis
  then have "0 \<in> nt_seen n" "lk_calls (nt_link n 0) < 2 ^ 64" by simp_all
  from connections_isolated [OF n(1) this, THEN conjunct1] n show ?thesis by blast
qed

lemma server_message_context:
  "server_message parse j msg srv = Some (Inr (srv', effs)) \<Longrightarrow> srv_context srv k = None \<Longrightarrow> srv_context srv' k = None"
  by (cases "srv_context srv j")
    (auto simp: server_message_def hm_store_def split: sum.splits prod.splits)

text \<open>Once its connection is down, a handler's request stays as it is, and so does the client's call.\<close>

lemma closed_step:
  assumes "net_step serialize parse descr n n'" "contexts_ok services n" "k \<in> nt_seen n" "srv_context (nt_server n) k = None"
  shows "srv_context (nt_server n') k = None" "(k, p) \<in> set (nt_pending n) \<Longrightarrow> (k, p) \<in> set (nt_pending n')"
proof -
  show "srv_context (nt_server n') k = None" using assms(1)
  proof cases
    case (net_serve l j msg rest srv md req proto i)
    with server_message_context [OF net_serve(4), of k] assms(4) show ?thesis by simp
  next
    case (net_ignore l j msg rest srv)
    with server_message_context [OF net_ignore(4), of k] assms(4) show ?thesis by simp
  qed (use assms(3,4) in \<open>auto simp: onConnection_context\<close>)
  show "(k, p) \<in> set (nt_pending n')" if p: "(k, p) \<in> set (nt_pending n)" using assms(1)
  proof cases
    case (net_answer us j i md req vs l r resp)
    then have "j \<noteq> k" using server_done_Inr(1) [OF net_answer(4)] assms(4) by auto
    with net_answer(1,2) p show ?thesis by auto
  qed (use p in auto)
qed

text \<open>C29: A call whose connection goes down is never answered, and its handler is left with a callback to a channel
  that is gone: if the connection of a pending handler is down, then at any later time its \<^verbatim>\<open>done\<close> uses the
  destroyed channel, whatever it answers, the call is still in the table of the client, which has no step to
  complete it or to report the failure, and the handler's request stays pending.\<close>

theorem closed_connection_strands_calls:
  assumes "net_reachable serialize parse descr meta svs n" "(k, i, md, req) \<in> set (nt_pending n)"
    and "srv_context (nt_server n) k = None" "(net_step serialize parse descr)\<^sup>*\<^sup>* n n'" "lk_calls (nt_link n' k) < 2 ^ 64"
  shows "server_done serialize descr k (md_response md) response i (nt_server n') =
      (Inl Channel_destroyed :: done_error + ('m, 'cb) effect list) \<and>
    (k, i, md, req) \<in> set (nt_pending n') \<and>
    ch_outstandings (lk_client (nt_link n' k)) i \<noteq> None \<and> i \<notin> set (map fst (lk_log (nt_link n' k)))"
proof -
  let ?services = "service_table (meta # svs)"
  have seen: "k \<in> nt_seen n"
    using net_reachable_ok [OF assms(1)] assms(2) unfolding net_ok_def by force
  from assms(4) have n': "net_ok serialize parse descr ?services n' \<and> k \<in> nt_seen n' \<and>
      srv_context (nt_server n') k = None \<and> (k, i, md, req) \<in> set (nt_pending n')"
  proof (induction rule: rtranclp_induct)
    case base
    with net_reachable_ok [OF assms(1)] seen assms(2,3) show ?case by blast
  next
    case (step m m')
    then have c: "contexts_ok ?services m" "fst ` set (nt_pending m) \<subseteq> nt_seen m" by (simp_all add: net_ok_def)
    from step closed_step [OF step(2) c(1)] net_ok_step [OF step(2)] pending_seen_step(1) [OF step(2) c]
    show ?case by blast
  qed
  then obtain s where s: "system_reachable serialize parse descr ?services s" "follows n' k s"
    unfolding net_ok_def by blast
  have "sy_calls s < 2 ^ 64" using s(2) assms(5) by (simp add: follows_def)
  with s(1) have ok: "system_ok serialize parse ?services s" and dist: "distinct (all_ids s)"
    by (auto intro: system_ok_reachable all_ids_distinct ids_ok_reachable)
  have "(i, md, req) \<in> set (sy_pending s)" using n' s(2) unfolding follows_def by force
  then have "i \<in> set (map fst (sy_pending s))" by force
  then have "i \<in> set (in_flight s)" "i \<notin> set (map fst (sy_log s))"
    using distinct_places(4) [OF dist] by (auto simp: in_flight_def)
  then have "ch_outstandings (sy_client s) i \<noteq> None" "i \<notin> set (map fst (sy_log s))"
    using ok by (auto simp: system_ok_def client_ok_def)
  with n' s(2) show ?thesis by (simp add: follows_def server_done_def)
qed

theorem closed_connection_strands_calls_witness:
  "\<exists>n. echo_net n \<and> nt_pending n = [(0, 1, echo_method, ''hi'')] \<and>
     server_done (\<lambda>m. m) (\<lambda>_. ()) 0 [] (Some ''hello'') 1 (nt_server n) =
       (Inl Channel_destroyed :: done_error + (string, nat) effect list) \<and>
     ch_outstandings (lk_client (nt_link n 0)) 1 \<noteq> None"
proof -
  obtain n ch where n: "echo_net n" "nt_pending n = [(0, 1, echo_method, ''hi'')]"
    "srv_context (nt_server n) 0 = Some ch" "lk_calls (nt_link n 0) = 1"
    using echo_net_served by (metis not_None_eq)
  let ?n = "n\<lparr>nt_server := RpcServer.onConnection 0 False (nt_server n),
    nt_link := (nt_link n)(0 := (nt_link n 0)\<lparr>lk_c2s := [], lk_s2c := take 0 (lk_s2c (nt_link n 0))\<rparr>)\<rparr>"
  have r: "echo_net ?n" by (rule net_reach_step [OF n(1)], rule net_step.net_close [OF n(3) refl])
  have "(0, 1, echo_method, ''hi'') \<in> set (nt_pending ?n)" "srv_context (nt_server ?n) 0 = None"
    "lk_calls (nt_link ?n 0) < 2 ^ 64"
    using n by (simp_all add: onConnection_context)
  from closed_connection_strands_calls [OF r this(1,2) rtranclp.rtrancl_refl this(3), of "Some ''hello''"] r n(2)
  show ?thesis by (intro exI [of _ ?n]) (simp add: echo_method_def)
qed

end
