(* ===== verification/GeneratedRpc.thy ===== *)
theory GeneratedRpc
  imports RpcGenerator ServerConnections
begin

text \<open>
  What the generated code does when it runs, over the channels: a stub's method (\<open>GenerateStubMethods\<close>), the
  service's \<^verbatim>\<open>CallMethod\<close> and \<^verbatim>\<open>GetRequestPrototype\<close>/\<^verbatim>\<open>GetResponsePrototype\<close>
  (\<open>GenerateCallMethod\<close>, \<open>GenerateGetPrototype\<close>), with the casts of RpcChannel.h. The definitions here
  execute what the generator of \<open>RpcGenerator\<close> prints: a switch takes the case with the printed number of the
  method, with the names of classes and methods that are printed there.

  A message has a class, \<open>class_of\<close>, the one generated for its descriptor; \<open>default_instance\<close> gives the
  default message of a class. Generated classes have no subclasses, so a downcast is right exactly for the
  messages of the class.
\<close>

section \<open>Casts\<close>

text \<open>\<^verbatim>\<open>down_pointer_cast\<close> with its assertion; a null pointer stays null. The cast of the response prototype,
  \<^verbatim>\<open>down_cast\<close> of the protocol buffer library, asserts the same.\<close>

definition down_pointer_cast :: "('m \<Rightarrow> string) \<Rightarrow> string \<Rightarrow> 'm option \<Rightarrow> failure + 'm option" where
  "down_pointer_cast class_of to f =
     (if f = None \<or> map_option class_of f = Some to then Inr f else Inl Assert_failed)"

text \<open>The test that runs before \<^verbatim>\<open>main\<close>: a new \<^verbatim>\<open>RpcMessage\<close> is cast to its own class.\<close>

definition test_down_pointer_cast :: "('m \<Rightarrow> string) \<Rightarrow> 'm \<Rightarrow> bool" where
  "test_down_pointer_cast class_of msg =
     (case down_pointer_cast class_of (class_of msg) (Some msg) of Inl e \<Rightarrow> False | Inr rpc \<Rightarrow> rpc \<noteq> None)"

text \<open>The callback that a typed call is made with: it casts the response, then calls the user's callback, here
  paired with the message it is called on.\<close>

definition downcastcall :: "('m \<Rightarrow> string) \<Rightarrow> string \<times> 'u \<Rightarrow> 'm option \<Rightarrow> failure + 'u \<times> 'm option" where
  "downcastcall class_of done output =
     map_sum (\<lambda>e. e) (\<lambda>f. (snd done, f)) (down_pointer_cast class_of (fst done) output)"

text \<open>\<^verbatim>\<open>CallMethod\<close> with the class of the output: the call it makes, and the call made.\<close>

definition typed_call :: "'m method_desc \<Rightarrow> 'm \<Rightarrow> 'm \<Rightarrow> string \<Rightarrow> 'u \<Rightarrow> ('m, string \<times> 'u) rpc_call" where
  "typed_call method request response output done =
     \<lparr>rc_method = method, rc_request = request, rc_response = Some response, rc_done = Some (output, done)\<rparr>"

definition CallMethod_typed ::
  "('m \<Rightarrow> string) \<Rightarrow> 'm method_desc \<Rightarrow> 'm \<Rightarrow> 'm \<Rightarrow> string \<Rightarrow> 'u \<Rightarrow> ('m, string \<times> 'u, 'conn) channel \<Rightarrow>
     ('m, string \<times> 'u, 'conn) channel \<times> ('m, string \<times> 'u) effect list" where
  "CallMethod_typed serialize method request response output done =
     RpcChannel.CallMethod serialize (typed_call method request response output done)"

section \<open>The generated service\<close>

text \<open>The case of a printed switch that runs for the number \<open>i\<close>.\<close>

definition switch :: "(nat \<Rightarrow> string) \<Rightarrow> string \<Rightarrow> print_call list \<Rightarrow> nat \<Rightarrow> vars option" where
  "switch SimpleItoa t calls i = List.find (\<lambda>c. c ''index'' = Some (SimpleItoa i)) (cases_of t calls)"

text \<open>\<^verbatim>\<open>GetRequestPrototype\<close> and \<^verbatim>\<open>GetResponsePrototype\<close>; the default case is fatal.\<close>

definition GetPrototype ::
  "(nat \<Rightarrow> string) \<Rightarrow> ('d \<Rightarrow> bool \<Rightarrow> string) \<Rightarrow> (string \<Rightarrow> 'm) \<Rightarrow> request_or_response \<Rightarrow> 'd service_generator \<Rightarrow>
     nat \<Rightarrow> 'm option" where
  "GetPrototype SimpleItoa ClassName default_instance which g i =
     map_option (\<lambda>c. default_instance (the (c ''type'')))
       (switch SimpleItoa prototype_case_text (GenerateGetPrototype SimpleItoa ClassName which g) i)"

text \<open>The descriptor of a method, with the prototypes of the generated service.\<close>

definition method_desc_of ::
  "(nat \<Rightarrow> string) \<Rightarrow> ('d \<Rightarrow> bool \<Rightarrow> string) \<Rightarrow> (string \<Rightarrow> 'm) \<Rightarrow> 'd service_generator \<Rightarrow> nat \<Rightarrow> 'm method_desc" where
  "method_desc_of SimpleItoa ClassName default_instance g i =
     (let sd = sg_descriptor g; m = gs_methods sd ! i
      in \<lparr>md_name = gm_name m, md_full_name = gs_full_name sd @ ''.'' @ gm_name m, md_service = gs_full_name sd,
          md_input = ClassName (gm_input_type m) True, md_output = ClassName (gm_output_type m) True,
          md_request = the (GetPrototype SimpleItoa ClassName default_instance RpcGenerator.REQUEST g i),
          md_response = the (GetPrototype SimpleItoa ClassName default_instance RpcGenerator.RESPONSE g i)\<rparr>)"

definition generated_service ::
  "(nat \<Rightarrow> string) \<Rightarrow> ('d \<Rightarrow> bool \<Rightarrow> string) \<Rightarrow> (string \<Rightarrow> 'm) \<Rightarrow> file_desc \<Rightarrow> 'd service_generator \<Rightarrow> 'm service" where
  "generated_service SimpleItoa ClassName default_instance file g =
     \<lparr>sv_full_name = gs_full_name (sg_descriptor g),
      sv_methods = map (method_desc_of SimpleItoa ClassName default_instance g) [0..<length (gs_methods (sg_descriptor g))],
      sv_file = file\<rparr>"

text \<open>\<^verbatim>\<open>CallMethod\<close>: the name of the user's method that is called, with the request. A call for another
  service or a number without a case is fatal, as is a failing cast.\<close>

datatype call_failure = Wrong_service | Bad_method_index | Cast_failed

definition method_index :: "'d service_generator \<Rightarrow> string \<Rightarrow> nat" where
  "method_index g name = length (takeWhile (\<lambda>m. gm_name m \<noteq> name) (gs_methods (sg_descriptor g)))"

definition generated_CallMethod ::
  "(nat \<Rightarrow> string) \<Rightarrow> ('d \<Rightarrow> bool \<Rightarrow> string) \<Rightarrow> ('m \<Rightarrow> string) \<Rightarrow> 'd service_generator \<Rightarrow> 'm method_desc \<Rightarrow> 'm \<Rightarrow> 'm \<Rightarrow>
     call_failure + string \<times> 'm" where
  "generated_CallMethod SimpleItoa ClassName class_of g method request responsePrototype =
     (if md_service method \<noteq> gs_full_name (sg_descriptor g) then Inl Wrong_service
      else case switch SimpleItoa call_case_text (GenerateCallMethod SimpleItoa ClassName g) (method_index g (md_name method)) of
        None \<Rightarrow> Inl Bad_method_index
      | Some c \<Rightarrow>
          (case (down_pointer_cast class_of (the (c ''input_type'')) (Some request),
                 down_pointer_cast class_of (the (c ''output_type'')) (Some responsePrototype)) of
             (Inr _, Inr _) \<Rightarrow> Inr (the (c ''name''), request)
           | _ \<Rightarrow> Inl Cast_failed))"

section \<open>The generated stub\<close>

text \<open>The method that the generator prints as the \<open>j\<close>-th: it passes the descriptor of the printed number, the
  default instance of the printed output type, and the user's callback, which takes the printed output type.\<close>

definition stub_call ::
  "(nat \<Rightarrow> string) \<Rightarrow> ('d \<Rightarrow> bool \<Rightarrow> string) \<Rightarrow> (string \<Rightarrow> 'm) \<Rightarrow> 'd service_generator \<Rightarrow> nat \<Rightarrow> 'm \<Rightarrow> 'u \<Rightarrow>
     ('m, string \<times> 'u) rpc_call option" where
  "stub_call SimpleItoa ClassName default_instance g j request done =
     (case GenerateStubMethods SimpleItoa ClassName g ! j of
        Print vs t \<Rightarrow>
          map_option (\<lambda>i. typed_call (method_desc_of SimpleItoa ClassName default_instance g i) request
              (default_instance (the (vs ''output_type''))) (the (vs ''output_typedef'')) done)
            (List.find (\<lambda>i. vs ''index'' = Some (SimpleItoa i)) [0..<length (gs_methods (sg_descriptor g))])
      | _ \<Rightarrow> None)"

section \<open>The generated code over the channels\<close>

definition class_of :: "('d \<Rightarrow> bool \<Rightarrow> string) \<Rightarrow> ('m \<Rightarrow> 'd) \<Rightarrow> 'm \<Rightarrow> string" where
  "class_of ClassName descr m = ClassName (descr m) True"

text \<open>What the code relies on of the protocol buffer library, besides parsing: a parsed message has the type of the
  prototype it was made from, and the default instance of a generated class has the descriptor that the class
  was generated for.\<close>

definition classes_ok ::
  "('m \<Rightarrow> string) \<Rightarrow> ('m \<Rightarrow> string \<Rightarrow> 'm) \<Rightarrow> ('m \<Rightarrow> 'd) \<Rightarrow> ('d \<Rightarrow> bool \<Rightarrow> string) \<Rightarrow> (string \<Rightarrow> 'm) \<Rightarrow> bool" where
  "classes_ok serialize parse descr ClassName default_instance \<longleftrightarrow>
     protobuf_ok serialize parse descr \<and> (\<forall>proto bytes. descr (parse proto bytes) = descr proto) \<and>
     (\<forall>d. descr (default_instance (ClassName d True)) = d)"

lemma class_of_default:
  "classes_ok serialize parse descr ClassName default_instance \<Longrightarrow>
     class_of ClassName descr (default_instance (ClassName d True)) = ClassName d True"
  by (simp add: classes_ok_def class_of_def)

lemma find_filter: "List.find P xs = (case filter P xs of [] \<Rightarrow> None | x # _ \<Rightarrow> Some x)"
  by (induction xs) auto

abbreviation the_method :: "'d service_generator \<Rightarrow> nat \<Rightarrow> 'd method_descriptor" where
  "the_method g i \<equiv> gs_methods (sg_descriptor g) ! i"

abbreviation n_methods :: "'d service_generator \<Rightarrow> nat" where
  "n_methods g \<equiv> length (gs_methods (sg_descriptor g))"

lemma GetPrototype_eq:
  assumes "inj SimpleItoa" "i < n_methods g"
  shows "GetPrototype SimpleItoa ClassName default_instance which g i =
    Some (default_instance (ClassName (if which = RpcGenerator.REQUEST then gm_input_type (the_method g i)
      else gm_output_type (the_method g i)) True))"
proof -
  note one = the_case [OF assms]
  show ?thesis unfolding GetPrototype_def switch_def find_filter prototype_cases by (simp add: one Let_def)
qed

lemma method_desc_of_eq:
  assumes "inj SimpleItoa" "i < n_methods g"
  shows "method_desc_of SimpleItoa ClassName default_instance g i =
    \<lparr>md_name = gm_name (the_method g i), md_full_name = gs_full_name (sg_descriptor g) @ ''.'' @ gm_name (the_method g i),
     md_service = gs_full_name (sg_descriptor g), md_input = ClassName (gm_input_type (the_method g i)) True,
     md_output = ClassName (gm_output_type (the_method g i)) True,
     md_request = default_instance (ClassName (gm_input_type (the_method g i)) True),
     md_response = default_instance (ClassName (gm_output_type (the_method g i)) True)\<rparr>"
  unfolding method_desc_of_def by (simp add: GetPrototype_eq [OF assms] Let_def)

lemma stub_call_eq:
  assumes "inj SimpleItoa" "j < n_methods g"
  shows "stub_call SimpleItoa ClassName default_instance g j request done =
    Some (typed_call (method_desc_of SimpleItoa ClassName default_instance g j) request
      (default_instance (ClassName (gm_output_type (the_method g j)) True)) (ClassName (gm_output_type (the_method g j)) True) done)"
proof -
  have "filter (\<lambda>i. Some (SimpleItoa j) = Some (SimpleItoa i)) [0..<n_methods g] = filter (\<lambda>i. i = j) [0..<n_methods g]"
    using assms(1) by (intro filter_cong) (auto simp: inj_eq)
  also have "filter (\<lambda>i. i = j) [0..<m] = (if j < m then [j] else [])" for m by (induction m) auto
  finally have "List.find (\<lambda>i. Some (SimpleItoa j) = Some (SimpleItoa i)) [0..<n_methods g] = Some j"
    using assms(2) by (simp add: find_filter)
  then show ?thesis using assms(2) by (simp add: stub_call_def GenerateStubMethods_def each_method_def)
qed

lemma takeWhile_nth_name:
  assumes "distinct (map f xs)" "i < length xs"
  shows "length (takeWhile (\<lambda>m. f m \<noteq> f (xs ! i)) xs) = i"
  using assms
proof (induction xs arbitrary: i)
  case (Cons x xs)
  then show ?case by (cases i) force+
qed simp

text \<open>The service calls the method of the stub's name, on the parsed request, and its casts succeed.\<close>

lemma generated_CallMethod_eq:
  assumes "inj SimpleItoa" "i < n_methods g" "distinct (map gm_name (gs_methods (sg_descriptor g)))"
    and "classes_ok serialize parse descr ClassName default_instance"
    and "md = method_desc_of SimpleItoa ClassName default_instance g i"
  shows "generated_CallMethod SimpleItoa ClassName (class_of ClassName descr) g md (parse (md_request md) bytes) (md_response md) =
    Inr (gm_name (the_method g i), parse (md_request md) bytes)"
proof -
  have index: "method_index g (gm_name (the_method g i)) = i"
    unfolding method_index_def by (rule takeWhile_nth_name [OF assms(3,2)])
  note one = the_case [OF assms(1,2)]
  have case_i: "switch SimpleItoa call_case_text (GenerateCallMethod SimpleItoa ClassName g) i =
      Some (let m = the_method g i in [''name'' \<mapsto> gm_name m, ''index'' \<mapsto> SimpleItoa i,
         ''input_type'' \<mapsto> ClassName (gm_input_type m) True, ''output_type'' \<mapsto> ClassName (gm_output_type m) True])"
    unfolding switch_def find_filter call_cases by (simp add: one Let_def)
  have md: "md_name md = gm_name (the_method g i)" "md_service md = gs_full_name (sg_descriptor g)"
    "md_request md = default_instance (ClassName (gm_input_type (the_method g i)) True)"
    "md_response md = default_instance (ClassName (gm_output_type (the_method g i)) True)"
    unfolding assms(5) by (simp_all add: method_desc_of_eq [OF assms(1,2)])
  have "class_of ClassName descr (parse (md_request md) bytes) = ClassName (gm_input_type (the_method g i)) True"
    using assms(4) by (simp add: md class_of_def classes_ok_def)
  then show ?thesis
    using class_of_default [OF assms(4)]
    by (simp add: generated_CallMethod_def md(1,2,4) index case_i Let_def down_pointer_cast_def)
qed

section \<open>Answers have the type of their method\<close>

definition answers_typed :: "('m \<Rightarrow> 't) \<Rightarrow> ('m, 'cb, 'conn) system \<Rightarrow> bool" where
  "answers_typed descr s \<longleftrightarrow>
     (\<forall>i r. sy_answered s i = Some r \<longrightarrow> i \<in> set (map rm_id (sy_s2c s) @ map fst (sy_log s)) \<and>
        (\<exists>c md. sy_issued s i = Some c \<and> channel_method (sy_server s) (rc_method c) = Some md \<and>
           descr r = descr (md_response md)))"

lemma answers_typed_keep:
  assumes "answers_typed descr s" "sy_answered t = sy_answered s" "sy_issued t = sy_issued s"
    and "ch_services (sy_server t) = ch_services (sy_server s)"
    and "set (map rm_id (sy_s2c s) @ map fst (sy_log s)) \<subseteq> set (map rm_id (sy_s2c t) @ map fst (sy_log t))"
  shows "answers_typed descr t"
proof -
  have "channel_method (sy_server t) = channel_method (sy_server s)"
    using assms(4) by (simp add: channel_method_def fun_eq_iff)
  then show ?thesis using assms(1) subsetD [OF assms(5)] unfolding answers_typed_def assms(2,3) by simp
qed

lemma onRpcMessage_services:
  "onRpcMessage parse conn msg ch = Inr (ch', effs) \<Longrightarrow> ch_services ch' = ch_services ch"
  by (auto simp: onRpcMessage_def Let_def split: if_splits message_type.splits option.splits)

lemma answers_typed_step:
  assumes step: "system_step serialize parse descr s t" and typed: "answers_typed descr s"
    and ok: "system_ok serialize parse services s" and ids: "ids_ok s" and calls: "sy_calls t < 2 ^ 64"
  shows "answers_typed descr t"
  using step
proof cases
  case (call_begin i cl c)
  then have "i \<notin> set (all_ids s)" using next_id_fresh [OF ids] calls by (simp add: call_next_id_eq)
  then have "i \<notin> set (map rm_id (sy_s2c s) @ map fst (sy_log s))" by (simp add: all_ids_def)
  then have new: "j \<noteq> i" if "sy_answered s j = Some r" for j r
    using typed that unfolding answers_typed_def by blast
  show ?thesis unfolding answers_typed_def
  proof (intro allI impI)
    fix j r assume r: "sy_answered t j = Some r"
    then have "sy_answered s j = Some r" "j \<noteq> i" using call_begin(1) new by simp_all
    with typed call_begin(1) show "j \<in> set (map rm_id (sy_s2c t) @ map fst (sy_log t)) \<and>
        (\<exists>c md. sy_issued t j = Some c \<and> channel_method (sy_server t) (rc_method c) = Some md \<and> descr r = descr (md_response md))"
      by (simp add: answers_typed_def)
  qed
next
  case (call_insert us i c vs)
  then show ?thesis by (intro answers_typed_keep [OF typed]) simp_all
next
  case (call_send us i c vs)
  then show ?thesis by (intro answers_typed_keep [OF typed]) simp_all
next
  case (serve msg rest sv md req proto i)
  then show ?thesis using onRpcMessage_services [OF serve(3)] by (intro answers_typed_keep [OF typed]) simp_all
next
  case (ignore msg rest sv)
  then show ?thesis using onRpcMessage_services [OF ignore(3)] by (intro answers_typed_keep [OF typed]) simp_all
next
  case (answer us i md req vs r resp)
  have resp: "rm_id resp = i" "descr r = descr (md_response md)" using doneCallback_Inr [OF answer(3)] by simp_all
  have "(i, md, req) \<in> set (sy_pending s)" using answer(2) by simp
  then obtain c where "sy_issued s i = Some c" "channel_method (sy_server s) (rc_method c) = Some md"
    using ok unfolding system_ok_def requests_ok_def by fast
  with resp typed answer(1) show ?thesis by (auto simp: answers_typed_def)
next
  case (deliver msg rest cl effs)
  then show ?thesis by (intro answers_typed_keep [OF typed]) auto
qed

lemma answers_typed_reachable:
  assumes "system_reachable serialize parse descr services s" "sy_calls s < 2 ^ 64"
  shows "answers_typed descr s"
  using assms
proof (induction rule: system_reachable.induct)
  case (reach_init c_conn s_conn)
  show ?case by (simp add: answers_typed_def system_init_def)
next
  case (reach_step s t)
  then have "sy_calls s < 2 ^ 64" using system_step_calls le_less_trans by blast
  with reach_step show ?case by (blast intro: answers_typed_step system_ok_reachable ids_ok_reachable)
qed

section \<open>Calls through stubs are safe\<close>

text \<open>The server finds the stub's method.\<close>

lemma FindMethodByName_generated:
  assumes "inj SimpleItoa" "i < n_methods g" "distinct (map gm_name (gs_methods (sg_descriptor g)))"
  shows "FindMethodByName (generated_service SimpleItoa ClassName default_instance file g) (gm_name (the_method g i)) =
    Some (method_desc_of SimpleItoa ClassName default_instance g i)"
proof -
  have "filter (\<lambda>j. md_name (method_desc_of SimpleItoa ClassName default_instance g j) = gm_name (the_method g i)) [0..<n_methods g] =
      filter (\<lambda>j. j = i) [0..<n_methods g]"
  proof (rule filter_cong [OF refl])
    fix j assume "j \<in> set [0..<n_methods g]"
    then have j: "j < n_methods g" by simp
    have "gm_name (the_method g j) = gm_name (the_method g i) \<longleftrightarrow> j = i"
      using nth_eq_iff_index_eq [OF assms(3), of j i] j assms(2) by simp
    then show "md_name (method_desc_of SimpleItoa ClassName default_instance g j) = gm_name (the_method g i) \<longleftrightarrow> j = i"
      by (simp add: method_desc_of_eq [OF assms(1) j])
  qed
  also have "filter (\<lambda>j. j = i) [0..<m] = (if i < m then [i] else [])" for m by (induction m) auto
  finally show ?thesis
    using assms(2) by (simp add: FindMethodByName_def generated_service_def find_filter filter_map comp_def)
qed

lemma resolve_generated:
  assumes "inj SimpleItoa" "i < n_methods g" "distinct (map gm_name (gs_methods (sg_descriptor g)))"
    and "g \<in> set gs" "distinct (map (\<lambda>g. gs_full_name (sg_descriptor g)) gs)"
    and "svs = map (generated_service SimpleItoa ClassName default_instance file) gs"
    and "md = method_desc_of SimpleItoa ClassName default_instance g i"
  shows "resolve_method (service_table svs) (md_service md) (md_name md) = Some md"
proof -
  let ?sv = "generated_service SimpleItoa ClassName default_instance file g"
  have "distinct (map sv_full_name svs)" using assms(5,6) by (simp add: comp_def generated_service_def)
  moreover have "?sv \<in> set svs" using assms(4,6) by simp
  ultimately have "om_find (service_table svs) (sv_full_name ?sv) = Some ?sv" by (rule registered_found)
  moreover have "sv_full_name ?sv = md_service md" "md_name md = gm_name (the_method g i)"
    by (simp_all add: generated_service_def assms(7) method_desc_of_eq [OF assms(1,2)])
  ultimately show ?thesis
    by (simp add: resolve_method_def FindMethodByName_generated [OF assms(1-3)] assms(7))
qed

definition stub_calls ::
  "(nat \<Rightarrow> string) \<Rightarrow> ('d \<Rightarrow> bool \<Rightarrow> string) \<Rightarrow> (string \<Rightarrow> 'm) \<Rightarrow> ('m \<Rightarrow> 'd) \<Rightarrow> 'd service_generator list \<Rightarrow>
     ('m, string \<times> 'u) rpc_call \<Rightarrow> 'd service_generator \<Rightarrow> nat \<Rightarrow> 'm \<Rightarrow> 'u \<Rightarrow> bool" where
  "stub_calls SimpleItoa ClassName default_instance descr gs c g j request done \<longleftrightarrow>
     g \<in> set gs \<and> j < n_methods g \<and> descr request = gm_input_type (the_method g j) \<and>
     stub_call SimpleItoa ClassName default_instance g j request done = Some c"

lemma stub_calls_eq:
  assumes "stub_calls SimpleItoa ClassName default_instance descr gs c g j request done" "inj SimpleItoa"
  shows "c = typed_call (method_desc_of SimpleItoa ClassName default_instance g j) request
      (default_instance (ClassName (gm_output_type (the_method g j)) True)) (ClassName (gm_output_type (the_method g j)) True) done"
  using assms(1) by (auto simp: stub_calls_def stub_call_eq [OF assms(2)])

lemma stub_resolves:
  assumes ok: "system_ok serialize parse (service_table (meta # svs)) s"
    and services: "meta # svs = map (generated_service SimpleItoa ClassName default_instance file) gs"
      "distinct (map (\<lambda>g. gs_full_name (sg_descriptor g)) gs)"
      "\<forall>g\<in>set gs. distinct (map gm_name (gs_methods (sg_descriptor g)))"
    and inj: "inj SimpleItoa" and st: "stub_calls SimpleItoa ClassName default_instance descr gs c g j request done"
  shows "channel_method (sy_server s) (rc_method c) = Some (method_desc_of SimpleItoa ClassName default_instance g j)"
proof -
  let ?md = "method_desc_of SimpleItoa ClassName default_instance g j"
  have g: "g \<in> set gs" "j < n_methods g" using st by (simp_all add: stub_calls_def)
  have "resolve_method (service_table (meta # svs)) (md_service ?md) (md_name ?md) = Some ?md"
    by (rule resolve_generated [OF inj g(2) _ g(1) services(2,1) refl]) (use services(3) g(1) in blast)
  moreover have "rc_method c = ?md" using stub_calls_eq [OF st inj] by (simp add: typed_call_def)
  ultimately show ?thesis using ok by (auto simp: system_ok_def channel_method_def)
qed

text \<open>The request of a stub as the server reads it, and what its dispatcher does.\<close>

lemma stub_dispatched:
  assumes inj: "inj SimpleItoa" and classes: "classes_ok serialize parse descr ClassName default_instance"
    and names: "\<forall>g\<in>set gs. distinct (map gm_name (gs_methods (sg_descriptor g)))"
    and st: "stub_calls SimpleItoa ClassName default_instance descr gs c g j request done"
    and md: "md = method_desc_of SimpleItoa ClassName default_instance g j"
    and req: "req = parse (md_request md) (serialize (rc_request c))"
  shows "req = request" "generated_CallMethod SimpleItoa ClassName (class_of ClassName descr) g md req (md_response md) =
    Inr (gm_name (the_method g j), req)"
proof -
  have g: "g \<in> set gs" "j < n_methods g" "descr request = gm_input_type (the_method g j)" using st by (simp_all add: stub_calls_def)
  have "rc_request c = request" using stub_calls_eq [OF st inj] by (simp add: typed_call_def)
  moreover have "descr (md_request md) = descr request"
    using classes g(3) by (simp add: md method_desc_of_eq [OF inj g(2)] classes_ok_def)
  moreover have "protobuf_ok serialize parse descr" using classes by (simp add: classes_ok_def)
  ultimately show "req = request" using req parse_serialize by simp
  show "generated_CallMethod SimpleItoa ClassName (class_of ClassName descr) g md req (md_response md) =
      Inr (gm_name (the_method g j), req)"
    unfolding req by (rule generated_CallMethod_eq [OF inj g(2) _ classes md]) (use names g(1) in blast)
qed

text \<open>An answer of the class of the method, as the callback of the stub gets it.\<close>

lemma stub_completed:
  assumes inj: "inj SimpleItoa" and classes: "classes_ok serialize parse descr ClassName default_instance"
    and st: "stub_calls SimpleItoa ClassName default_instance descr gs c g j request done"
    and "descr r = descr (md_response (method_desc_of SimpleItoa ClassName default_instance g j))"
  shows "completion parse c (serialize r) = [Run_done (ClassName (gm_output_type (the_method g j)) True, done) r]"
    "downcastcall (class_of ClassName descr) (ClassName (gm_output_type (the_method g j)) True, done) (Some r) = Inr (done, Some r)"
proof -
  have g: "j < n_methods g" using st by (simp add: stub_calls_def)
  have proto: "protobuf_ok serialize parse descr" using classes by (simp add: classes_ok_def)
  have r: "descr r = gm_output_type (the_method g j)"
    using assms(4) classes by (simp add: method_desc_of_eq [OF inj g] classes_ok_def)
  then have "parse (default_instance (ClassName (gm_output_type (the_method g j)) True)) (serialize r) = r"
    using classes by (intro parse_serialize [OF proto]) (simp add: classes_ok_def)
  then show "completion parse c (serialize r) = [Run_done (ClassName (gm_output_type (the_method g j)) True, done) r]"
    using stub_calls_eq [OF st inj] by (simp add: completion_def typed_call_def)
  show "downcastcall (class_of ClassName descr) (ClassName (gm_output_type (the_method g j)) True, done) (Some r) = Inr (done, Some r)"
    by (simp add: downcastcall_def down_pointer_cast_def class_of_def r)
qed

text \<open>C2: Calls through generated stubs are type-safe, from the client's code to the handler and back: on a server whose
  services are all generated, every request that a client made by calling the stub of a method reaches the method of
  that name, with the very request, and no check or cast of the generated dispatcher fails; and every answer
  comes back to the callback of this call, in the class that the stub's signature promises, so the cast of
  RpcChannel.h succeeds.\<close>

theorem generated_calls_safe:
  assumes "net_reachable serialize parse descr meta svs n" "k \<in> nt_seen n" "lk_calls (nt_link n k) < 2 ^ 64"
    and services: "meta # svs = map (generated_service SimpleItoa ClassName default_instance file) gs"
      "distinct (map (\<lambda>g. gs_full_name (sg_descriptor g)) gs)"
      "\<forall>g\<in>set gs. distinct (map gm_name (gs_methods (sg_descriptor g)))"
    and pb: "inj SimpleItoa" "classes_ok serialize parse descr ClassName default_instance"
    and stubs: "\<forall>c\<in>ran (lk_issued (nt_link n k)).
      \<exists>g j request done. stub_calls SimpleItoa ClassName default_instance descr gs c g j request done"
  shows "((k, i, md, req) \<in> set (nt_pending n) \<longrightarrow>
      (\<exists>c g j done. lk_issued (nt_link n k) i = Some c \<and> stub_calls SimpleItoa ClassName default_instance descr gs c g j req done \<and>
         generated_CallMethod SimpleItoa ClassName (class_of ClassName descr) g md req (md_response md) =
           Inr (gm_name (the_method g j), req))) \<and>
    ((i, effs) \<in> set (lk_log (nt_link n k)) \<longrightarrow>
      (\<exists>c g j request done r. lk_issued (nt_link n k) i = Some c \<and>
         stub_calls SimpleItoa ClassName default_instance descr gs c g j request done \<and> lk_answered (nt_link n k) i = Some r \<and>
         effs = [Run_done (ClassName (gm_output_type (the_method g j)) True, done) r] \<and>
         downcastcall (class_of ClassName descr) (ClassName (gm_output_type (the_method g j)) True, done) (Some r) = Inr (done, Some r)))"
proof -
  let ?md = "method_desc_of SimpleItoa ClassName default_instance"
  let ?stub = "stub_calls SimpleItoa ClassName default_instance descr gs"
  obtain s where s: "system_reachable serialize parse descr (service_table (meta # svs)) s" and f: "follows n k s"
    using net_reachable_ok [OF assms(1)] assms(2) unfolding net_ok_def by blast
  have few: "sy_calls s < 2 ^ 64" using f assms(3) by (simp add: follows_def)
  note ok = system_ok_reachable [OF s few] and typed = answers_typed_reachable [OF s few]
  have same: "sy_log s = lk_log (nt_link n k)" "sy_issued s = lk_issued (nt_link n k)" "sy_answered s = lk_answered (nt_link n k)"
    "sy_pending s = map snd (filter (\<lambda>p. fst p = k) (nt_pending n))"
    using f by (simp_all add: follows_def)
  have known: "\<exists>g j request done. ?stub c g j request done \<and> channel_method (sy_server s) (rc_method c) = Some (?md g j)"
    if "sy_issued s i = Some c" for i c
    using that stubs stub_resolves [OF ok services pb(1)] unfolding same by (meson ranI)
  show ?thesis
  proof (intro conjI impI)
    assume "(k, i, md, req) \<in> set (nt_pending n)"
    then have "(i, md, req) \<in> set (sy_pending s)" unfolding same by force
    then obtain c where c: "sy_issued s i = Some c" "channel_method (sy_server s) (rc_method c) = Some md"
        "req = parse (md_request md) (serialize (rc_request c))"
      using ok unfolding system_ok_def requests_ok_def by fast
    from known [OF c(1)] c(2) obtain g j request "done" where st: "?stub c g j request done" and md: "md = ?md g j" by auto
    from stub_dispatched [OF pb services(3) st md c(3)] c(1) st
    show "\<exists>c g j done. lk_issued (nt_link n k) i = Some c \<and> ?stub c g j req done \<and>
        generated_CallMethod SimpleItoa ClassName (class_of ClassName descr) g md req (md_response md) =
          Inr (gm_name (the_method g j), req)"
      unfolding same by blast
  next
    assume "(i, effs) \<in> set (lk_log (nt_link n k))"
    then obtain c r where c: "sy_issued s i = Some c" "sy_answered s i = Some r" "effs = completion parse c (serialize r)"
      using ok unfolding system_ok_def responses_ok_def same [symmetric] by fast
    from known [OF c(1)] obtain g j request "done" where st: "?stub c g j request done"
      and "channel_method (sy_server s) (rc_method c) = Some (?md g j)" by blast
    with typed c(1,2) have "descr r = descr (md_response (?md g j))" unfolding answers_typed_def by fastforce
    from stub_completed [OF pb st this] c st
    show "\<exists>c g j request done r. lk_issued (nt_link n k) i = Some c \<and> ?stub c g j request done \<and>
         lk_answered (nt_link n k) i = Some r \<and> effs = [Run_done (ClassName (gm_output_type (the_method g j)) True, done) r] \<and>
         downcastcall (class_of ClassName descr) (ClassName (gm_output_type (the_method g j)) True, done) (Some r) = Inr (done, Some r)"
      unfolding same by blast
  qed
qed

text \<open>A file with the meta service and another one; a message is its class with its payload.\<close>

definition meta_generator :: "string service_generator" where
  "meta_generator = ServiceGenerator show_nat \<lparr>gs_name = ''RpcService'', gs_full_name = ''rpc2.RpcService'',
     gs_methods = [\<lparr>gm_name = ''listRpc'', gm_input_type = ''ListRpcRequest'', gm_output_type = ''ListRpcResponse''\<rparr>]\<rparr>
     ''rpcservice.proto'' 0"

definition example_file :: file_desc where
  "example_file = \<lparr>fd_name = ''echo.proto'', fd_text = [], fd_dependencies = []\<rparr>"

abbreviation generated_example :: "string service_generator \<Rightarrow> (string \<times> string) service" where
  "generated_example \<equiv> generated_service show_nat (\<lambda>m q. m) (\<lambda>c. (c, [])) example_file"

theorem generated_calls_safe_witness:
  "\<exists>n :: (string \<times> string, string \<times> nat, nat) net.
     net_reachable snd (\<lambda>p b. (fst p, b)) fst (generated_example meta_generator) [generated_example echo_generator] n \<and>
     (\<exists>md. nt_pending n = [(0, 1, md, (''Empty'', ''now''))] \<and>
       generated_CallMethod show_nat (\<lambda>m q. m) (class_of (\<lambda>m q. m) fst) echo_generator md (''Empty'', ''now'') (md_response md) =
         Inr (''Stop'', (''Empty'', ''now'')))"
proof -
  let ?gs = "[meta_generator, echo_generator]" and ?md = "method_desc_of show_nat (\<lambda>m q. m) (\<lambda>c. (c, [] :: string)) echo_generator 1"
  let ?req = "(''Empty'', ''now'')"
  have m: "gs_methods (sg_descriptor echo_generator) =
    [\<lparr>gm_name = ''Echo'', gm_input_type = ''EchoRequest'', gm_output_type = ''EchoResponse''\<rparr>,
       \<lparr>gm_name = ''Stop'', gm_input_type = ''Empty'', gm_output_type = ''Empty''\<rparr>]"
    by (simp add: echo_generator_def ServiceGenerator_def echo_descriptor_def)
  have names: "gs_full_name (sg_descriptor echo_generator) = ''echo.EchoService''" "gs_full_name (sg_descriptor meta_generator) = ''rpc2.RpcService''"
    by (simp_all add: echo_generator_def ServiceGenerator_def echo_descriptor_def meta_generator_def)
  have one: "1 < n_methods echo_generator" by (simp add: m)
  have gs: "distinct (map (\<lambda>g. gs_full_name (sg_descriptor g)) ?gs)" "\<forall>g\<in>set ?gs. distinct (map gm_name (gs_methods (sg_descriptor g)))"
    by (simp_all add: m names) (simp add: meta_generator_def ServiceGenerator_def)
  obtain c :: "(string \<times> string, string \<times> nat) rpc_call" where
    st: "stub_calls show_nat (\<lambda>m q. m) (\<lambda>c. (c, [])) fst ?gs c echo_generator 1 ?req 7"
    using stub_call_eq [OF inj_show_nat one] one by (fastforce simp: stub_calls_def m)
  have c: "rc_method c = ?md" "rc_request c = ?req" using stub_calls_eq [OF st inj_show_nat] by (simp_all add: typed_call_def)
  have classes: "classes_ok snd (\<lambda>p b. (fst p, b)) fst (\<lambda>m q. m) (\<lambda>c. (c, []))"
    by (auto simp: classes_ok_def protobuf_ok_def)
  have svs: "[generated_example meta_generator, generated_example echo_generator] = map generated_example ?gs" by simp
  have "resolve_method (service_table [generated_example meta_generator, generated_example echo_generator])
      (md_service (rc_method c)) (md_name (rc_method c)) = Some ?md"
    unfolding c by (rule resolve_generated [OF inj_show_nat one _ _ gs(1) svs refl]) (use gs(2) in auto)
  from first_call_served [OF this, where serialize = snd and parse = "\<lambda>p b. (fst p, b)" and descr = fst and k = "0 :: nat"]
  obtain n where
    n: "net_reachable snd (\<lambda>p b. (fst p, b)) fst (generated_example meta_generator) [generated_example echo_generator] n"
      "nt_pending n = [(0 :: nat, 1, ?md, (fst (md_request ?md), snd (rc_request c)))]" "srv_context (nt_server n) 0 \<noteq> None"
      "nt_seen n = {0}" "lk_calls (nt_link n 0) = 1" "lk_issued (nt_link n 0) = [1 \<mapsto> c]" "lk_log (nt_link n 0) = []" .
  have "fst (md_request ?md) = ''Empty''" unfolding method_desc_of_eq [OF inj_show_nat one] by (simp add: m)
  with n(2) have p: "nt_pending n = [(0, 1, ?md, ?req)]" by (simp add: c(2))
  have n0: "0 \<in> nt_seen n" "lk_calls (nt_link n 0) < 2 ^ 64" using n(4,5) by simp_all
  have "\<forall>c\<in>ran (lk_issued (nt_link n 0)). \<exists>g j request done. stub_calls show_nat (\<lambda>m q. m) (\<lambda>c. (c, [])) fst ?gs c g j request done"
    proof
    fix c' assume "c' \<in> ran (lk_issued (nt_link n 0))"
    then have "c' = c" by (simp add: n(6))
    with st show "\<exists>g j request done. stub_calls show_nat (\<lambda>m q. m) (\<lambda>c. (c, [])) fst ?gs c' g j request done" by blast
  qed
  note safe = generated_calls_safe [OF n(1) n0 svs gs inj_show_nat classes this]
  from safe [THEN conjunct1, of 1 ?md ?req] p obtain g j c' d where
    g: "lk_issued (nt_link n 0) 1 = Some c'" "stub_calls show_nat (\<lambda>m q. m) (\<lambda>c. (c, [])) fst ?gs c' g j ?req d"
      "generated_CallMethod show_nat (\<lambda>m q. m) (class_of (\<lambda>m q. m) fst) g ?md ?req (md_response ?md) = Inr (gm_name (the_method g j), ?req)"
    by auto
  have "g \<in> set ?gs" "j < n_methods g" "gm_input_type (the_method g j) = ''Empty''"
    using g(2) by (simp_all add: stub_calls_def)
  moreover have "n_methods meta_generator = 1" "gm_input_type (the_method meta_generator 0) = ''ListRpcRequest''"
    by (simp_all add: meta_generator_def ServiceGenerator_def)
  moreover have "j = 0 \<or> j = 1" if "j < n_methods echo_generator" using that by (auto simp: m)
  ultimately have "g = echo_generator \<and> j = 1" by (auto simp: m)
  with g(3) have "generated_CallMethod show_nat (\<lambda>m q. m) (class_of (\<lambda>m q. m) fst) echo_generator ?md ?req (md_response ?md) =
      Inr (''Stop'', ?req)"
    by (simp add: m)
  with n(1) p show ?thesis by blast
qed

end
