(* ===== verification/Shuffle.thy ===== *)
theory Shuffle
  imports WordFreq
begin

text \<open>
  The thread of \<^verbatim>\<open>Impl::shuffle\<close> (examples/wordfreq/wordfreq.cc) with the callbacks
  \<^verbatim>\<open>doneShardKey\<close> that return its request objects. A request that is sent leaves the
  vector of the current batches, where a cleared one takes its place before the entry is used
  again. \<open>sh_sent\<close> is the sequence of \<^verbatim>\<open>ShardKey\<close> calls.
\<close>

section \<open>States and steps\<close>

datatype phase = Scanning | Taking nat | Draining nat | Replied

record shuffle =
  sh_phase :: phase
  sh_keys :: "int list"
  sh_batches :: "int list list"
  sh_free :: nat
  sh_waiting :: nat
  sh_sent :: "(nat \<times> int list) list"

definition shuffle_init :: "int list \<Rightarrow> impl \<Rightarrow> shuffle" where
  "shuffle_init pivots s =
     \<lparr>sh_phase = Scanning, sh_keys = keys s, sh_batches = replicate (length (peers s)) [],
      sh_free = concurrentRequests s - length (peers s), sh_waiting = 0, sh_sent = []\<rparr>"

text \<open>The second loop: the batches that are not empty are sent.\<close>

definition last_batches :: "int list list \<Rightarrow> (nat \<times> int list) list" where
  "last_batches bs = filter (\<lambda>b. snd b \<noteq> []) (zip [0..<length bs] bs)"

inductive shuffle_step :: "int list \<Rightarrow> nat \<Rightarrow> shuffle \<Rightarrow> shuffle \<Rightarrow> bool" for pivots conc where
  add_key:
    "sh_phase h = Scanning \<Longrightarrow> sh_keys h = key # ks \<Longrightarrow>
     part = lower_bound (<) pivots key \<Longrightarrow> part \<noteq> length pivots \<Longrightarrow>
     batch = sh_batches h ! part @ [key] \<Longrightarrow> \<not> kBatch \<le> length batch \<Longrightarrow>
     shuffle_step pivots conc h (h\<lparr>sh_keys := ks, sh_batches := (sh_batches h)[part := batch]\<rparr>)"
| send_batch:
    "sh_phase h = Scanning \<Longrightarrow> sh_keys h = key # ks \<Longrightarrow>
     part = lower_bound (<) pivots key \<Longrightarrow> part \<noteq> length pivots \<Longrightarrow>
     batch = sh_batches h ! part @ [key] \<Longrightarrow> kBatch \<le> length batch \<Longrightarrow>
     shuffle_step pivots conc h
       (h\<lparr>sh_keys := ks, sh_phase := Taking part, sh_batches := (sh_batches h)[part := []],
          sh_waiting := sh_waiting h + 1, sh_sent := sh_sent h @ [(part, batch)]\<rparr>)"
| take_free:
    "sh_phase h = Taking part \<Longrightarrow> sh_free h = Suc n \<Longrightarrow>
     shuffle_step pivots conc h (h\<lparr>sh_phase := Scanning, sh_free := n\<rparr>)"
| doneShardKey:
    "sh_waiting h = Suc w \<Longrightarrow>
     shuffle_step pivots conc h (h\<lparr>sh_waiting := w, sh_free := sh_free h + 1\<rparr>)"
| send_rest:
    "sh_phase h = Scanning \<Longrightarrow> sh_keys h = [] \<Longrightarrow>
     shuffle_step pivots conc h
       (h\<lparr>sh_phase := Draining conc, sh_waiting := sh_waiting h + length (last_batches (sh_batches h)),
          sh_sent := sh_sent h @ last_batches (sh_batches h)\<rparr>)"
| drain:
    "sh_phase h = Draining (Suc m) \<Longrightarrow> sh_free h = Suc n \<Longrightarrow>
     shuffle_step pivots conc h (h\<lparr>sh_phase := Draining m, sh_free := n\<rparr>)"
| reply:
    "sh_phase h = Draining 0 \<Longrightarrow> shuffle_step pivots conc h (h\<lparr>sh_phase := Replied\<rparr>)"

inductive shuffle_reachable :: "int list \<Rightarrow> impl \<Rightarrow> shuffle \<Rightarrow> bool" for pivots s where
  start: "shuffle_reachable pivots s (shuffle_init pivots s)"
| step: "shuffle_reachable pivots s h \<Longrightarrow> shuffle_step pivots (concurrentRequests s) h h' \<Longrightarrow>
     shuffle_reachable pivots s h'"

section \<open>Invariants\<close>

definition shard :: "int list \<Rightarrow> nat \<Rightarrow> int list \<Rightarrow> int list" where
  "shard pivots p ks = filter (\<lambda>k. lower_bound (<) pivots k = p) ks"

definition sent_to :: "nat \<Rightarrow> (nat \<times> int list) list \<Rightarrow> int list" where
  "sent_to p sent = concat (map snd (filter (\<lambda>b. fst b = p) sent))"

definition flushed :: "shuffle \<Rightarrow> bool" where
  "flushed h \<longleftrightarrow> (case sh_phase h of Draining n \<Rightarrow> True | Replied \<Rightarrow> True | _ \<Rightarrow> False)"

text \<open>Of the keys \<open>ks\<close>, those before \<open>sh_keys\<close> were scanned.\<close>

definition shuffle_ok :: "int list \<Rightarrow> int list \<Rightarrow> nat \<Rightarrow> shuffle \<Rightarrow> bool" where
  "shuffle_ok pivots ks conc h \<longleftrightarrow>
     length (sh_batches h) = length pivots \<and>
     (\<exists>done. ks = done @ sh_keys h \<and>
        (\<forall>p<length pivots.
           sent_to p (sh_sent h) @ (if flushed h then [] else sh_batches h ! p) = shard pivots p done \<and>
           length (sh_batches h ! p) = length (shard pivots p done) mod kBatch)) \<and>
     list_all (\<lambda>(p, b). p < length pivots \<and> b \<noteq> [] \<and> length b \<le> kBatch) (sh_sent h) \<and>
     (flushed h \<longrightarrow> sh_keys h = [])"

text \<open>The request objects: those in the queue, those with a peer, those in the vector.\<close>

definition empties :: "int list list \<Rightarrow> nat" where
  "empties bs = length (filter (\<lambda>b. b = []) bs)"

definition objects_ok :: "nat \<Rightarrow> nat \<Rightarrow> shuffle \<Rightarrow> bool" where
  "objects_ok n conc h \<longleftrightarrow> length (sh_batches h) = n \<and>
     (case sh_phase h of
        Scanning \<Rightarrow> sh_free h + sh_waiting h + n = conc
      | Taking p \<Rightarrow> p < n \<and> sh_free h + sh_waiting h + n = Suc conc
      | Draining m \<Rightarrow> sh_free h + sh_waiting h + empties (sh_batches h) = m
      | Replied \<Rightarrow> sh_free h + sh_waiting h + empties (sh_batches h) = 0)"

lemma sent_to_append: "sent_to p (xs @ ys) = sent_to p xs @ sent_to p ys"
  by (simp add: sent_to_def)

lemma shard_append: "shard pivots p (xs @ ys) = shard pivots p xs @ shard pivots p ys"
  by (simp add: shard_def)

lemma shard_one: "shard pivots p [k] = (if lower_bound (<) pivots k = p then [k] else [])"
  by (simp add: shard_def)

lemma last_batches_length: "length (last_batches bs) + empties bs = length bs"
proof -
  have "length (filter (\<lambda>b. snd b \<noteq> []) zs) = length (filter (\<lambda>b. b \<noteq> []) (map snd zs))"
    for zs :: "(nat \<times> int list) list"
    by (induction zs) simp_all
  from this [of "zip [0..<length bs] bs"]
  have "length (last_batches bs) = length (filter (\<lambda>b. b \<noteq> []) bs)"
    unfolding last_batches_def by (simp only: map_snd_zip length_upt diff_zero)
  then show ?thesis
    using sum_length_filter_compl [of "\<lambda>b. b = []" bs] by (simp add: empties_def)
qed

lemma sent_to_last_batches: "p < length bs \<Longrightarrow> sent_to p (last_batches bs) = bs ! p"
proof -
  have "concat (map snd (filter (\<lambda>b. fst b = p) (filter (\<lambda>b. snd b \<noteq> []) (zip [n..<n + length bs] bs)))) =
      (if n \<le> p \<and> p < n + length bs then bs ! (p - n) else [])" for n
  proof (induction bs arbitrary: n)
    case (Cons b bs)
    have "[n..<n + length (b # bs)] = n # [Suc n..<Suc n + length bs]"
      by (subst upt_rec) simp
    then show ?case using Cons [of "Suc n"] by (auto simp: nth_Cons' Suc_diff_le split: nat.split)
  qed auto
  from this [of 0] show "p < length bs \<Longrightarrow> sent_to p (last_batches bs) = bs ! p"
    by (simp add: sent_to_def last_batches_def)
qed

lemma last_batches_mem: "(p, b) \<in> set (last_batches bs) \<Longrightarrow> p < length bs \<and> b = bs ! p \<and> b \<noteq> []"
  by (auto simp: last_batches_def set_zip)

lemma scan_shard:
  assumes "ks = done @ key # rest" "i < length pivots" "lower_bound (<) pivots key = i"
    and "length b = length (shard pivots i done) mod kBatch" "sent_to i sent @ b = shard pivots i done"
  shows "sent_to i sent @ b @ [key] = shard pivots i (done @ [key])"
    "p \<noteq> i \<Longrightarrow> shard pivots p (done @ [key]) = shard pivots p done"
    "length (b @ [key]) \<le> kBatch"
    "length (shard pivots i (done @ [key])) mod kBatch =
      (if length (b @ [key]) < kBatch then length (b @ [key]) else 0)"
proof -
  show "sent_to i sent @ b @ [key] = shard pivots i (done @ [key])"
    using assms by (simp add: shard_append shard_one flip: append_assoc)
  show "p \<noteq> i \<Longrightarrow> shard pivots p (done @ [key]) = shard pivots p done"
    using assms(3) by (simp add: shard_append shard_one)
  have "length b < kBatch" using assms(4) by (simp add: kBatch_def)
  then show "length (b @ [key]) \<le> kBatch" by simp
  have "length (shard pivots i (done @ [key])) = Suc (length (shard pivots i done))"
    using assms(3) by (simp add: shard_append shard_one)
  then show "length (shard pivots i (done @ [key])) mod kBatch =
      (if length (b @ [key]) < kBatch then length (b @ [key]) else 0)"
    using assms(4) \<open>length b < kBatch\<close> by (simp add: mod_Suc)
qed

lemma shuffle_ok_init:
  "length pivots = length (peers s) \<Longrightarrow> shuffle_ok pivots (keys s) conc (shuffle_init pivots s)"
  by (auto simp: shuffle_ok_def shuffle_init_def flushed_def sent_to_def shard_def)

lemma shuffle_ok_step:
  assumes "shuffle_step pivots conc h h'" "shuffle_ok pivots ks conc h"
  shows "shuffle_ok pivots ks conc h'"
proof -
  from assms(2) obtain done' where
    len: "length (sh_batches h) = length pivots" and ks: "ks = done' @ sh_keys h"
    and parts: "\<forall>p<length pivots.
       sent_to p (sh_sent h) @ (if flushed h then [] else sh_batches h ! p) = shard pivots p done' \<and>
       length (sh_batches h ! p) = length (shard pivots p done') mod kBatch"
    and sent: "list_all (\<lambda>(p, b). p < length pivots \<and> b \<noteq> [] \<and> length b \<le> kBatch) (sh_sent h)"
    and fl: "flushed h \<longrightarrow> sh_keys h = []"
    unfolding shuffle_ok_def by blast
  from assms(1) show ?thesis
  proof cases
    case (add_key key ks' part batch)
    have nf: "\<not> flushed h" using add_key by (simp add: flushed_def)
    have part: "part < length pivots"
      using add_key(4,5) lower_bound_le_length [of "(<)" pivots key] by linarith
    note sc = scan_shard [OF ks [unfolded add_key(3)] part add_key(4) [symmetric],
        of "sh_batches h ! part" "sh_sent h"]
    show ?thesis
      unfolding shuffle_ok_def
    proof (intro conjI exI [of _ "done' @ [key]"])
      show "\<forall>p<length pivots. sent_to p (sh_sent h') @ (if flushed h' then [] else sh_batches h' ! p) =
          shard pivots p (done' @ [key]) \<and>
          length (sh_batches h' ! p) = length (shard pivots p (done' @ [key])) mod kBatch"
        using parts nf part sc len add_key by (auto simp: flushed_def nth_list_update)
    qed (use ks len sent nf add_key in \<open>simp_all add: flushed_def\<close>)
  next
    case (send_batch key ks' part batch)
    have nf: "\<not> flushed h" using send_batch by (simp add: flushed_def)
    have part: "part < length pivots"
      using send_batch(4,5) lower_bound_le_length [of "(<)" pivots key] by linarith
    note sc = scan_shard [OF ks [unfolded send_batch(3)] part send_batch(4) [symmetric],
        of "sh_batches h ! part" "sh_sent h"]
    show ?thesis
      unfolding shuffle_ok_def
    proof (intro conjI exI [of _ "done' @ [key]"])
      show "\<forall>p<length pivots. sent_to p (sh_sent h') @ (if flushed h' then [] else sh_batches h' ! p) =
          shard pivots p (done' @ [key]) \<and>
          length (sh_batches h' ! p) = length (shard pivots p (done' @ [key])) mod kBatch"
        using parts nf part sc len send_batch
        by (auto simp: flushed_def nth_list_update sent_to_append) (auto simp: sent_to_def)
      show "list_all (\<lambda>(p, b). p < length pivots \<and> b \<noteq> [] \<and> length b \<le> kBatch) (sh_sent h')"
        using sent part parts nf sc(3) send_batch by simp
    qed (use ks len sent nf send_batch in \<open>simp_all add: flushed_def\<close>)
  next
    case send_rest
    then have nf: "\<not> flushed h" by (simp add: flushed_def)
    have small: "length (sh_batches h ! p) \<le> kBatch" if "p < length pivots" for p
      using parts that by (simp add: kBatch_def)
    show ?thesis
      unfolding shuffle_ok_def
    proof (intro conjI exI [of _ done'])
      show "\<forall>p<length pivots. sent_to p (sh_sent h') @ (if flushed h' then [] else sh_batches h' ! p) =
          shard pivots p done' \<and> length (sh_batches h' ! p) = length (shard pivots p done') mod kBatch"
        using parts nf len send_rest by (simp add: flushed_def sent_to_append sent_to_last_batches)
      show "list_all (\<lambda>(p, b). p < length pivots \<and> b \<noteq> [] \<and> length b \<le> kBatch) (sh_sent h')"
        using sent len small send_rest by (auto simp: list_all_iff dest!: last_batches_mem)
    qed (use ks len send_rest in simp_all)
  qed (use ks len parts sent fl in \<open>auto simp: shuffle_ok_def flushed_def intro!: exI [of _ done']\<close>)
qed

lemma shuffle_ok_reachable:
  assumes "shuffle_reachable pivots s h" "length pivots = length (peers s)"
  shows "shuffle_ok pivots (keys s) (concurrentRequests s) h"
  using assms by (induction rule: shuffle_reachable.induct) (auto intro: shuffle_ok_init shuffle_ok_step)

lemma objects_ok_init:
  "n = length (peers s) \<Longrightarrow> n \<le> concurrentRequests s \<Longrightarrow>
     objects_ok n (concurrentRequests s) (shuffle_init pivots s)"
  by (simp add: objects_ok_def shuffle_init_def)

lemma objects_ok_step:
  assumes "shuffle_step pivots conc h h'" "objects_ok (length pivots) conc h"
  shows "objects_ok (length pivots) conc h'"
  using assms
proof cases
  case (send_batch key ks part batch)
  then have "part < length pivots" using lower_bound_le_length [of "(<)" pivots key] by linarith
  then show ?thesis using assms(2) send_batch by (auto simp: objects_ok_def)
next
  case send_rest
  then show ?thesis using assms(2) last_batches_length [of "sh_batches h"] by (auto simp: objects_ok_def)
qed (auto simp: objects_ok_def split: phase.splits)

lemma objects_ok_reachable:
  assumes "shuffle_reachable pivots s h" "length pivots = length (peers s)"
    "length pivots \<le> concurrentRequests s"
  shows "objects_ok (length pivots) (concurrentRequests s) h"
  using assms by (induction rule: shuffle_reachable.induct) (blast intro: objects_ok_init objects_ok_step)+

lemma empties_0: "empties bs = 0 \<longleftrightarrow> (\<forall>b\<in>set bs. b \<noteq> [])"
  by (simp add: empties_def filter_empty_conv)

text \<open>The batches that are left at the end: what \<open>kBatch\<close> does not divide.\<close>

lemma flushed_batches:
  assumes "shuffle_ok pivots ks conc h" "flushed h" "p < length pivots"
  shows "sent_to p (sh_sent h) = shard pivots p ks"
    "length (sh_batches h ! p) = length (shard pivots p ks) mod kBatch"
  using assms by (auto simp: shuffle_ok_def)

section \<open>Termination\<close>

definition shuffle_work :: "nat \<Rightarrow> shuffle \<Rightarrow> nat" where
  "shuffle_work conc h = 3 * length (sh_keys h) + sh_waiting h +
     (case sh_phase h of
        Scanning \<Rightarrow> conc + 2 + length (sh_batches h)
      | Taking p \<Rightarrow> conc + 3 + length (sh_batches h)
      | Draining n \<Rightarrow> n + 1
      | Replied \<Rightarrow> 0)"

lemma shuffle_step_work: "shuffle_step pivots conc h h' \<Longrightarrow> shuffle_work conc h' < shuffle_work conc h"
proof (induction rule: shuffle_step.induct)
  case (send_rest h)
  then show ?case using last_batches_length [of "sh_batches h"] by (simp add: shuffle_work_def)
qed (auto simp: shuffle_work_def split: phase.split)

lemma shuffle_can_step:
  assumes ok: "shuffle_ok pivots ks conc h" "objects_ok (length pivots) conc h" "length pivots \<le> conc"
    and range: "\<forall>k\<in>set ks. lower_bound (<) pivots k < length pivots"
    and last: "\<forall>p<length pivots. length (shard pivots p ks) mod kBatch \<noteq> 0"
    and "sh_phase h \<noteq> Replied"
  shows "\<exists>h'. shuffle_step pivots conc h h'"
proof (cases "sh_phase h")
  case Scanning
  show ?thesis
  proof (cases "sh_keys h")
    case Nil
    with Scanning show ?thesis by (blast intro: send_rest)
  next
    case (Cons key ks')
    then have "key \<in> set ks" using ok(1) by (auto simp: shuffle_ok_def)
    then have "lower_bound (<) pivots key \<noteq> length pivots" using range by force
    with Scanning Cons show ?thesis by (blast intro: add_key send_batch)
  qed
next
  case (Taking p)
  have "sh_free h \<noteq> 0 \<or> sh_waiting h \<noteq> 0" using ok(2,3) Taking by (auto simp: objects_ok_def)
  then show ?thesis using Taking by (metis not0_implies_Suc take_free doneShardKey)
next
  case (Draining m)
  have "empties (sh_batches h) = 0"
    unfolding empties_0
  proof
    fix b assume "b \<in> set (sh_batches h)"
    then obtain p where "p < length pivots" "b = sh_batches h ! p"
      using ok(1) by (auto simp: in_set_conv_nth shuffle_ok_def)
    moreover have "flushed h" using Draining by (simp add: flushed_def)
    ultimately show "b \<noteq> []" using flushed_batches(2) [OF ok(1)] last by fastforce
  qed
  then have "m = 0 \<or> sh_free h \<noteq> 0 \<or> sh_waiting h \<noteq> 0"
    using ok(2) Draining by (auto simp: objects_ok_def)
  then show ?thesis using Draining by (metis not0_implies_Suc reply drain doneShardKey)
qed (use assms in simp)

section \<open>What the shuffle does\<close>

definition shuffle_request_ok :: "int list \<Rightarrow> impl \<Rightarrow> bool" where
  "shuffle_request_ok pivots s \<longleftrightarrow> length pivots = length (peers s) \<and>
     length (peers s) \<le> concurrentRequests s \<and>
     (\<forall>k\<in>set (keys s). lower_bound (<) pivots k < length pivots)"

text \<open>An accepted \<^verbatim>\<open>ShuffleKey\<close> on a worker that was set up by its constructor.\<close>

lemma accepted_request_ok:
  assumes "ShuffleKey pivots s = Some (s', Shuffle_started)"
    and "\<forall>k\<in>set (keys s). k \<le> maxKey s" "concurrentRequests s = length (peers s) * kConcurrency"
  shows "shuffle_request_ok pivots s"
proof -
  have acc: "length pivots = length (peers s)" "pivots \<noteq> []" "maxKey s \<le> last pivots"
    using assms(1) by (auto simp: ShuffleKey_def split: if_splits)
  have "lower_bound (<) pivots k < length pivots" if "k \<in> set (keys s)" for k
  proof -
    have "\<not> last pivots < k" using assms(2) that acc(3) by fastforce
    then have "lower_bound (<) pivots k \<noteq> length pivots"
      using acc(2) unfolding lower_bound_eq_length_iff by (metis last_in_set)
    then show ?thesis using lower_bound_le_length [of "(<)" pivots k] by linarith
  qed
  with acc assms(3) show ?thesis by (simp add: shuffle_request_ok_def kConcurrency_def)
qed

text \<open>C5: The shuffle sends every key once, to the worker of its partition, in batches of 1 to
  8192 keys: at any time after the last request was sent, the keys sent to a worker, in order,
  are the keys whose first pivot that is not smaller is that worker's.\<close>

theorem shuffle_sends_every_key:
  assumes "shuffle_reachable pivots s h" "length pivots = length (peers s)" "flushed h"
    and "p < length pivots"
  shows "sent_to p (sh_sent h) = filter (\<lambda>k. lower_bound (<) pivots k = p) (keys s) \<and>
    list_all (\<lambda>(q, b). q < length pivots \<and> b \<noteq> [] \<and> length b \<le> 8192) (sh_sent h)"
proof -
  have ok: "shuffle_ok pivots (keys s) (concurrentRequests s) h"
    by (rule shuffle_ok_reachable [OF assms(1,2)])
  then have "list_all (\<lambda>(q, b). q < length pivots \<and> b \<noteq> [] \<and> length b \<le> 8192) (sh_sent h)"
    by (simp add: shuffle_ok_def kBatch_def)
  with flushed_batches(1) [OF ok assms(3,4)] show ?thesis by (simp add: shard_def)
qed

text \<open>An example: one key, sent to the second of two workers.\<close>

definition one_key :: impl where
  "one_key = example_worker\<lparr>keys := [4]\<rparr>"

lemma one_key_flushed:
  "\<exists>h. shuffle_reachable [2, 5] one_key h \<and> flushed h \<and> sh_sent h = [(1, [4])]"
proof -
  let ?h0 = "shuffle_init [2, 5] one_key"
  let ?h1 = "?h0\<lparr>sh_keys := [], sh_batches := (sh_batches ?h0)[1 := sh_batches ?h0 ! 1 @ [4]]\<rparr>"
  have "shuffle_reachable [2, 5] one_key ?h1"
    by (rule shuffle_reachable.step [OF shuffle_reachable.start], rule add_key)
       (simp_all add: shuffle_init_def one_key_def example_worker_def lower_bound_def kBatch_def)
  then have "shuffle_reachable [2, 5] one_key
      (?h1\<lparr>sh_phase := Draining (concurrentRequests one_key),
         sh_waiting := sh_waiting ?h1 + length (last_batches (sh_batches ?h1)),
         sh_sent := sh_sent ?h1 @ last_batches (sh_batches ?h1)\<rparr>)"
    by (rule shuffle_reachable.step, intro send_rest) (simp_all add: shuffle_init_def)
  then show ?thesis
    by (intro exI conjI, assumption)
       (simp_all add: flushed_def shuffle_init_def one_key_def example_worker_def last_batches_def)
qed

theorem shuffle_sends_every_key_witness:
  "\<exists>h :: shuffle. sh_sent h = [(1, [4])] \<and> sent_to 1 (sh_sent h) = [4]"
proof -
  obtain h where h: "shuffle_reachable [2, 5] one_key h" "flushed h" "sh_sent h = [(1, [4])]"
    using one_key_flushed by blast
  have "sent_to 1 (sh_sent h) = filter (\<lambda>k. lower_bound (<) [2, 5] k = 1) (keys one_key)"
    by (rule conjunct1 [OF shuffle_sends_every_key [OF h(1) _ h(2)]])
       (simp_all add: one_key_def example_worker_def)
  with h(3) show ?thesis
    by (intro exI [of _ h]) (simp add: one_key_def example_worker_def lower_bound_def)
qed

text \<open>C39: The shuffle never answers if the number of keys of some partition is a multiple of the
  batch size 8192, 0 included: its last batch is then empty, is never sent and never
  returned, and the thread waits forever for the return of all its request objects.\<close>

theorem shuffle_blocks:
  assumes "shuffle_request_ok pivots s" "p < length pivots"
    and "length (filter (\<lambda>k. lower_bound (<) pivots k = p) (keys s)) mod 8192 = 0"
  shows "\<not> (\<exists>h. shuffle_reachable pivots s h \<and> sh_phase h = Replied)"
proof
  assume "\<exists>h. shuffle_reachable pivots s h \<and> sh_phase h = Replied"
  then obtain h where h: "shuffle_reachable pivots s h" "sh_phase h = Replied" by blast
  have ok: "shuffle_ok pivots (keys s) (concurrentRequests s) h" "objects_ok (length pivots) (concurrentRequests s) h"
    using assms(1) shuffle_ok_reachable [OF h(1)] objects_ok_reachable [OF h(1)]
    by (simp_all add: shuffle_request_ok_def)
  have "empties (sh_batches h) = 0" using ok(2) h(2) by (simp add: objects_ok_def)
  moreover have "sh_batches h ! p \<in> set (sh_batches h)"
    using ok(1) assms(2) by (simp add: shuffle_ok_def)
  moreover have "sh_batches h ! p = []"
    using flushed_batches(2) [OF ok(1) _ assms(2)] h(2) assms(3)
    by (simp add: flushed_def shard_def kBatch_def)
  ultimately show False unfolding empties_0 by metis
qed

theorem shuffle_blocks_witness:
  "\<not> (\<exists>h. shuffle_reachable [5, 9] example_worker h \<and> sh_phase h = Replied)"
  by (rule shuffle_blocks [where p = 1])
     (simp_all add: shuffle_request_ok_def example_worker_def lower_bound_def)

text \<open>C21: Otherwise the shuffle answers: if no partition has a multiple of 8192 keys, then from
  every state it reaches, whatever the delays of the other workers, it goes on to its answer,
  and every step brings it closer.\<close>

theorem shuffle_completes:
  assumes "shuffle_request_ok pivots s"
    and "\<forall>p<length pivots. length (filter (\<lambda>k. lower_bound (<) pivots k = p) (keys s)) mod 8192 \<noteq> 0"
    and "shuffle_reachable pivots s h"
  shows "(\<exists>h'. (shuffle_step pivots (concurrentRequests s))\<^sup>*\<^sup>* h h' \<and> sh_phase h' = Replied) \<and>
    (shuffle_step pivots (concurrentRequests s) h k \<longrightarrow>
      shuffle_work (concurrentRequests s) k < shuffle_work (concurrentRequests s) h)"
proof (intro conjI impI)
  show "\<exists>h'. (shuffle_step pivots (concurrentRequests s))\<^sup>*\<^sup>* h h' \<and> sh_phase h' = Replied"
    using assms(3)
  proof (induction "shuffle_work (concurrentRequests s) h" arbitrary: h rule: less_induct)
    case less
    show ?case
    proof (cases "sh_phase h = Replied")
      case False
      have "shuffle_ok pivots (keys s) (concurrentRequests s) h"
        "objects_ok (length pivots) (concurrentRequests s) h"
        using assms(1) shuffle_ok_reachable [OF less.prems] objects_ok_reachable [OF less.prems]
        by (simp_all add: shuffle_request_ok_def)
      then obtain h' where h': "shuffle_step pivots (concurrentRequests s) h h'"
        using shuffle_can_step [OF _ _ _ _ _ False, of pivots "keys s" "concurrentRequests s"] assms(1,2)
        unfolding shuffle_request_ok_def shard_def kBatch_def by metis
      with less.hyps [OF shuffle_step_work [OF h']] shuffle_reachable.step [OF less.prems h']
      show ?thesis by (blast intro: converse_rtranclp_into_rtranclp)
    qed blast
  qed
qed (rule shuffle_step_work)

theorem shuffle_completes_witness:
  "\<exists>h. (shuffle_step [2, 5] 8)\<^sup>*\<^sup>* (shuffle_init [2, 5] example_worker) h \<and> sh_phase h = Replied"
proof -
  have c: "concurrentRequests example_worker = 8" by (simp add: example_worker_def)
  have "shuffle_request_ok [2, 5] example_worker"
    by (simp add: shuffle_request_ok_def example_worker_def lower_bound_def)
  moreover have "\<forall>p<length [2, 5]. length (filter (\<lambda>k. lower_bound (<) [2, 5] k = p) (keys example_worker)) mod 8192 \<noteq> 0"
    by (simp add: example_worker_def lower_bound_def less_Suc_eq)
  ultimately show ?thesis
    using conjunct1 [OF shuffle_completes [OF _ _ shuffle_reachable.start]] unfolding c [symmetric] by blast
qed

section \<open>Sorting the cluster\<close>

lemma sorted_hd_min: "xs \<noteq> [] \<Longrightarrow> sorted xs \<Longrightarrow> x \<in> set xs \<Longrightarrow> hd xs \<le> x"
  by (cases xs) auto

lemma sort_eq_Nil: "sort xs = [] \<longleftrightarrow> xs = []"
  by (metis length_0_conv length_sort)

text \<open>The batches a worker gets, in their order of arrival.\<close>

fun receive_batches :: "int \<Rightarrow> int list list \<Rightarrow> impl \<Rightarrow> impl option" where
  "receive_batches part [] r = Some r"
| "receive_batches part (b # bs) r =
     (case ShardKey part b r of None \<Rightarrow> None | Some r' \<Rightarrow> receive_batches part bs r')"

lemma receive_batches_later:
  "partition_id r \<noteq> -1 \<Longrightarrow>
     receive_batches part bs r = Some (r\<lparr>partitionKeys := partitionKeys r @ concat bs\<rparr>)"
  by (induction bs arbitrary: r) (simp_all add: ShardKey_def)

lemma receive_batches_fresh:
  assumes "0 \<le> part" "partition_id r = -1" "partitionKeys r = []"
  shows "\<exists>r'. receive_batches part bs r = Some r' \<and> partitionKeys r' = concat bs"
  using assms by (cases bs) (simp_all add: ShardKey_def receive_batches_later)

lemma mset_concat_cong: "mset xss = mset yss \<Longrightarrow> mset (concat xss) = mset (concat yss)"
  by (metis mset_concat mset_map sum_mset_sum_list)

lemma concat_sent:
  assumes "\<forall>(w, h)\<in>set whs. sent_to p (sh_sent h) = f (keys w)"
  shows "concat (concat (map (\<lambda>(w, h). map snd (filter (\<lambda>b. fst b = p) (sh_sent h))) whs)) =
    concat (map (\<lambda>(w, h). f (keys w)) whs)"
  using assms by (induction whs) (auto simp: sent_to_def)

lemma shard_concat: "concat (map (\<lambda>w. shard pivots p (keys w)) ws) = shard pivots p (concat (map keys ws))"
  by (induction ws) (simp_all add: shard_def)

text \<open>C12: The cluster sorts: when every worker has shuffled its keys by the same pivots, the worker
  of partition \<open>p\<close>, which got the batches for it in any order of arrival, holds after
  \<^verbatim>\<open>SortKey\<close> exactly the keys of the partition from all workers, sorted; and its answer
  tells their number, the smallest and the largest.\<close>

theorem shuffle_sorts_cluster:
  assumes "\<forall>(w, h)\<in>set whs. shuffle_reachable pivots w h \<and> flushed h \<and> length pivots = length (peers w)"
    and "p < length pivots"
    and "mset batches = mset (concat (map (\<lambda>(w, h). map snd (filter (\<lambda>b. fst b = p) (sh_sent h))) whs))"
    and "partition_id r = -1" "partitionKeys r = []"
  shows "\<exists>r' resp. map_option SortKey (receive_batches (int p) batches r) = Some (r', resp) \<and>
    (let ks = sort (filter (\<lambda>k. lower_bound (<) pivots k = p) (concat (map (keys \<circ> fst) whs)))
     in partitionKeys r' = ks \<and> sk_count resp = int (length ks) \<and>
        sk_minKey resp = (if ks = [] then None else Some (Min (set ks))) \<and>
        sk_maxKey resp = (if ks = [] then None else Some (Max (set ks))))"
proof -
  let ?all = "shard pivots p (concat (map (keys \<circ> fst) whs))"
  have "0 \<le> int p" by simp
  from receive_batches_fresh [OF this assms(4,5)] obtain r' where
    r': "receive_batches (int p) batches r = Some r'" "partitionKeys r' = concat batches" by blast
  have "\<forall>(w, h)\<in>set whs. sent_to p (sh_sent h) = shard pivots p (keys w)"
    using assms(1,2) flushed_batches(1) shuffle_ok_reachable by fast
  then have "concat (concat (map (\<lambda>(w, h). map snd (filter (\<lambda>b. fst b = p) (sh_sent h))) whs)) =
      concat (map (\<lambda>(w, h). shard pivots p (keys w)) whs)"
    by (rule concat_sent)
  also have "map (\<lambda>(w, h). shard pivots p (keys w)) whs = map (\<lambda>w. shard pivots p (keys w)) (map fst whs)"
    by auto
  also have "concat \<dots> = ?all"
    unfolding shard_concat by (simp add: o_def)
  finally have "mset (concat batches) = mset ?all"
    using mset_concat_cong [OF assms(3)] by simp
  then have ks: "sort (concat batches) = sort ?all"
    by (metis properties_for_sort sorted_sort mset_sort)
  have ends: "hd (sort xs) = Min (set xs)" "last (sort xs) = Max (set xs)" if "sort xs \<noteq> []"
    for xs :: "int list"
  proof -
    have "hd (sort xs) = Min (set (sort xs))" "last (sort xs) = Max (set (sort xs))"
      using that hd_in_set [of "sort xs"] last_in_set [of "sort xs"]
        sorted_hd_min [OF _ sorted_sort [of xs]] sorted_last_max [OF sorted_sort [of xs]]
      by (auto intro!: Min_eqI [symmetric] Max_eqI [symmetric])
    then show "hd (sort xs) = Min (set xs)" "last (sort xs) = Max (set xs)" by simp_all
  qed
  show ?thesis
    using r' ks ends [of ?all]
    by (auto simp: SortKey_def Let_def shard_def [symmetric] sort_eq_Nil)
qed

theorem shuffle_sorts_cluster_witness:
  "\<exists>r' resp. map_option SortKey (receive_batches 1 [[4], [4]] example_worker) = Some (r', resp) \<and>
     partitionKeys r' = [4, 4] \<and> sk_maxKey resp = Some 4"
proof -
  obtain h where h: "shuffle_reachable [2, 5] one_key h" "flushed h" "sh_sent h = [(1, [4])]"
    using one_key_flushed by blast
  let ?whs = "[(one_key, h), (one_key, h)]"
  have "\<forall>(w, h)\<in>set ?whs. shuffle_reachable [2, 5] w h \<and> flushed h \<and> length [2, 5 :: int] = length (peers w)"
    using h by (simp add: one_key_def example_worker_def)
  note 1 = this
  have 2: "mset [[4], [4]] =
      mset (concat (map (\<lambda>(w, h). map snd (filter (\<lambda>b. fst b = 1) (sh_sent h))) ?whs))"
    using h(3) by simp
  have "\<exists>r' resp. map_option SortKey (receive_batches (int 1) [[4], [4]] example_worker) = Some (r', resp) \<and>
    (let ks = sort (filter (\<lambda>k. lower_bound (<) [2, 5] k = 1) (concat (map (keys \<circ> fst) ?whs)))
     in partitionKeys r' = ks \<and> sk_count resp = int (length ks) \<and>
        sk_minKey resp = (if ks = [] then None else Some (Min (set ks))) \<and>
        sk_maxKey resp = (if ks = [] then None else Some (Max (set ks))))"
    by (rule shuffle_sorts_cluster [OF 1 _ 2]) (simp_all add: example_worker_def)
  then show ?thesis by (simp add: one_key_def example_worker_def lower_bound_def) blast
qed

section \<open>One shuffle per worker\<close>

text \<open>The events of a worker: its peers' connections and the calls of its handlers.\<close>

inductive worker_reachable :: "string \<Rightarrow> string \<Rightarrow> impl \<Rightarrow> bool" for shardFile ps where
  worker_new: "worker_reachable shardFile ps (new_impl shardFile ps)"
| worker_connection: "worker_reachable shardFile ps s \<Longrightarrow> i < length (peers s) \<Longrightarrow>
     worker_reachable shardFile ps (peer_onConnection i connected s)"
| worker_ShuffleKey: "worker_reachable shardFile ps s \<Longrightarrow> ShuffleKey pivots s = Some (s', answer) \<Longrightarrow>
     worker_reachable shardFile ps s'"
| worker_ShardKey: "worker_reachable shardFile ps s \<Longrightarrow> ShardKey part ks s = Some s' \<Longrightarrow>
     worker_reachable shardFile ps s'"
| worker_SortKey: "worker_reachable shardFile ps s \<Longrightarrow> worker_reachable shardFile ps (fst (SortKey s))"

definition keys_ok :: "impl \<Rightarrow> bool" where
  "keys_ok s \<longleftrightarrow> (\<forall>k\<in>set (keys s). 0 < k \<and> k \<le> maxKey s)"

lemma readKeys_ok: "keys_ok s \<Longrightarrow> keys_ok (readKeys text s)"
  unfolding readKeys_def
  by (rule fold_invariant [where Q = "\<lambda>_. True"])
     (auto simp: keys_ok_def line_key_def Let_def split: option.splits if_splits)

lemma createPeers_keys: "keys (createPeers ps s) = keys s" "maxKey (createPeers ps s) = maxKey s"
  unfolding createPeers_def
  by (rule fold_invariant [where Q = "\<lambda>_. True" and P = "\<lambda>t. keys t = keys s"], simp_all split: option.split)
     (rule fold_invariant [where Q = "\<lambda>_. True" and P = "\<lambda>t. maxKey t = maxKey s"], simp_all split: option.split)

lemma worker_ok:
  "worker_reachable shardFile ps s \<Longrightarrow> keys_ok s \<and> concurrentRequests s = length (peers s) * kConcurrency"
proof (induction rule: worker_reachable.induct)
  case worker_new
  have "keys_ok (readKeys shardFile \<lparr>maxKey = 0, keys = [], peers = [], shuffling = False,
      concurrentRequests = 0, partition_id = -1, partitionKeys = []\<rparr>)"
    by (rule readKeys_ok) (simp add: keys_ok_def)
  then show ?case by (simp add: new_impl_def Let_def keys_ok_def createPeers_keys)
qed (auto simp: keys_ok_def peer_onConnection_def ShuffleKey_def ShardKey_def SortKey_def Let_def
       split: if_splits)

text \<open>A worker accepts one shuffle in its life: an accepted request fits the worker's peers
  and keys, so the thread runs into no assertion on a key, and from then on every request is
  rejected, also long after the shuffle has answered, as the flag is never reset.\<close>

theorem one_shuffle_per_worker:
  assumes "worker_reachable shardFile ps s" "ShuffleKey pivots s = Some (s', Shuffle_started)"
  shows "shuffle_request_ok pivots s \<and> shuffling s' \<and>
    (worker_reachable shardFile ps t \<and> shuffling t \<and> ShuffleKey pivots' t = Some (t', answer) \<longrightarrow>
      answer = Shuffle_error ''Shuffling'' \<and> t' = t) \<and>
    (shuffling t \<longrightarrow> shuffling (peer_onConnection i connected t) \<and> shuffling (fst (SortKey t)) \<and>
      (\<forall>part ks u. ShardKey part ks t = Some u \<longrightarrow> shuffling u))"
  using accepted_request_ok [OF assms(2)] worker_ok [OF assms(1)] assms(2)
  by (auto simp: keys_ok_def ShuffleKey_def peer_onConnection_def SortKey_def ShardKey_def Let_def
      split: if_splits)

theorem one_shuffle_per_worker_witness:
  "shuffle_request_ok [7] (new_impl (''w'' @ tab # ''7'') ''h:1'')"
proof -
  have "ShuffleKey [7] (new_impl (''w'' @ tab # ''7'') ''h:1'') =
      Some ((new_impl (''w'' @ tab # ''7'') ''h:1'')\<lparr>shuffling := True\<rparr>, Shuffle_started)"
    by code_simp
  from one_shuffle_per_worker [OF worker_new this] show ?thesis by blast
qed

end
