(* ===== verification/WordFreqControl.thy ===== *)
theory WordFreqControl
  imports CLib "HOL-Library.Multiset"
begin

text \<open>
  The controller of the word-frequency example (examples/wordfreq/control.cc): it asks the head
  worker for the list of workers, connects to all, asks all for their information and adds it
  up. The answers of the workers arrive in any order. \<open>None\<close> is the abort of
  \<^verbatim>\<open>LOG_FATAL\<close> or of a failing assertion. (The search for pivots is a stub in the source.)
\<close>

section \<open>The code\<close>

text \<open>\<^verbatim>\<open>GetInfoResponse\<close> of wordfreq.proto.\<close>

record info_response =
  ir_ready :: bool
  ir_maxKey :: int
  ir_keyCount :: int
  ir_peers :: "string list"

record Worker =
  gotInfo :: bool
  ready :: bool
  shardMaxKey :: int
  shardKeyCount :: int
  worker_peers :: string

definition new_Worker :: Worker where
  "new_Worker = \<lparr>gotInfo = False, ready = False, shardMaxKey = -1, shardKeyCount = -1, worker_peers = []\<rparr>"

record controller =
  clients :: "(string \<times> int) list"
  workers :: "Worker list"
  ctl_maxKey :: int
  ctl_keyCount :: int

definition new_controller :: controller where
  "new_controller = \<lparr>clients = [], workers = [], ctl_maxKey = 0, ctl_keyCount = 0\<rparr>"

definition append_peer :: "string \<Rightarrow> string \<Rightarrow> string" where
  "append_peer addr ps = ps @ addr @ '',''"

text \<open>\<^verbatim>\<open>getHeadInfoCb\<close>: the loop over the peers of the response.\<close>

fun head_peers :: "string list \<Rightarrow> controller \<times> string \<Rightarrow> (controller \<times> string) option" where
  "head_peers [] (c, ps) = Some (c, ps)"
| "head_peers (addr # addrs) (c, ps) =
     (let ps = append_peer addr ps
      in case parse_address addr of
           None \<Rightarrow> None
         | Some a \<Rightarrow> head_peers addrs (c\<lparr>clients := clients c @ [a]\<rparr>, ps))"

definition getHeadInfoCb :: "info_response \<Rightarrow> controller \<Rightarrow> (controller \<times> string) option" where
  "getHeadInfoCb response c = head_peers (ir_peers response) (c, [])"

definition getInfoCb :: "nat \<Rightarrow> info_response \<Rightarrow> controller \<Rightarrow> controller option" where
  "getInfoCb part response c =
     (let worker = workers c ! part
      in if gotInfo worker then None
         else if \<not> ir_ready response then None
         else Some (c\<lparr>workers := (workers c)[part :=
           worker\<lparr>gotInfo := True, ready := ir_ready response, shardMaxKey := ir_maxKey response,
             shardKeyCount := ir_keyCount response,
             worker_peers := fold append_peer (ir_peers response) (worker_peers worker)\<rparr>]\<rparr>))"

text \<open>\<^verbatim>\<open>connectAll\<close>, with the answers in the order of arrival; it waits for one answer of
  each client.\<close>

fun info_callbacks :: "(nat \<times> info_response) list \<Rightarrow> controller \<Rightarrow> controller option" where
  "info_callbacks [] c = Some c"
| "info_callbacks ((part, response) # rs) c =
     (case getInfoCb part response c of None \<Rightarrow> None | Some c' \<Rightarrow> info_callbacks rs c')"

definition connectAll :: "(nat \<times> info_response) list \<Rightarrow> controller \<Rightarrow> controller option" where
  "connectAll arrivals c =
     (case info_callbacks arrivals (c\<lparr>workers := replicate (length (clients c)) new_Worker\<rparr>) of
        None \<Rightarrow> None
      | Some c' \<Rightarrow> if length (clients c') = length (workers c') then Some c' else None)"

text \<open>The loop of \<^verbatim>\<open>prepare\<close> over the workers.\<close>

fun add_workers :: "string \<Rightarrow> Worker list \<Rightarrow> controller \<Rightarrow> controller option" where
  "add_workers ps [] c = Some c"
| "add_workers ps (worker # ws) c =
     (let c = c\<lparr>ctl_keyCount := ctl_keyCount c + shardKeyCount worker\<rparr>;
          c = (if ctl_maxKey c < shardMaxKey worker then c\<lparr>ctl_maxKey := shardMaxKey worker\<rparr> else c)
      in if \<not> ready worker then None
         else if worker_peers worker \<noteq> ps then None
         else add_workers ps ws c)"

definition prepare ::
  "info_response \<Rightarrow> (nat \<times> info_response) list \<Rightarrow> controller \<Rightarrow> controller option" where
  "prepare head arrivals c =
     (if clients c \<noteq> [] \<or> workers c \<noteq> [] then None
      else case getHeadInfoCb head c of
        None \<Rightarrow> None
      | Some (c, ps) \<Rightarrow>
          (case connectAll arrivals c of
             None \<Rightarrow> None
           | Some c \<Rightarrow> add_workers ps (workers c) c))"

text \<open>\<^verbatim>\<open>run\<close>: the numbers of workers and keys and the largest key, which it logs; \<^verbatim>\<open>findPivots\<close> is
  empty in the source. \<open>None\<close> is a failure of \<^verbatim>\<open>prepare\<close>, which it logs or which ends the program.\<close>

definition control_run ::
  "info_response \<Rightarrow> (nat \<times> info_response) list \<Rightarrow> controller \<Rightarrow> (int \<times> int \<times> int) option" where
  "control_run head arrivals c =
     map_option (\<lambda>c. (int (length (workers c)), ctl_maxKey c, ctl_keyCount c)) (prepare head arrivals c)"

section \<open>What the controller computes\<close>

lemma head_peers_eq:
  "head_peers addrs (c, ps) =
     (if \<forall>a\<in>set addrs. CHR '':'' \<in> set a
      then Some (c\<lparr>clients := clients c @ map (\<lambda>a. the (parse_address a)) addrs\<rparr>, fold append_peer addrs ps)
      else None)"
proof (induction addrs arbitrary: c ps)
  case (Cons a addrs)
  then show ?case
    using parse_address_None [of a] by (cases "parse_address a") (simp_all add: Let_def)
qed simp

definition worker_of :: "info_response \<Rightarrow> Worker" where
  "worker_of r = \<lparr>gotInfo = True, ready = True, shardMaxKey = ir_maxKey r, shardKeyCount = ir_keyCount r,
     worker_peers = fold append_peer (ir_peers r) []\<rparr>"

lemma info_callbacks_eq:
  assumes "distinct (map fst rs)" "\<forall>(i, r)\<in>set rs. i < length (workers c) \<and> workers c ! i = new_Worker"
  shows "info_callbacks rs c =
    (if \<forall>(i, r)\<in>set rs. ir_ready r
     then Some (c\<lparr>workers := fold (\<lambda>(i, r) ws. ws[i := worker_of r]) rs (workers c)\<rparr>) else None)"
  using assms
proof (induction rs arbitrary: c)
  case (Cons ir rs)
  obtain i r where ir: "ir = (i, r)" by (cases ir)
  let ?c = "c\<lparr>workers := (workers c)[i := worker_of r]\<rparr>"
  have "\<forall>(j, r)\<in>set rs. j < length (workers ?c) \<and> workers ?c ! j = new_Worker"
  proof clarify
    fix j r' assume j: "(j, r') \<in> set rs"
    then have "j \<noteq> i" using Cons.prems(1) ir by force
    then show "j < length (workers ?c) \<and> workers ?c ! j = new_Worker" using Cons.prems(2) j by auto
  qed
  from Cons.IH [OF _ this] Cons.prems show ?case
    by (auto simp: ir getInfoCb_def new_Worker_def worker_of_def Let_def)
qed simp

lemma fold_update_nth:
  assumes "distinct (map fst rs)" "\<forall>(i, r)\<in>set rs. i < length ws" "j < length ws"
  shows "fold (\<lambda>(i, r) ws. ws[i := f r]) rs ws ! j =
    (case map_of rs j of None \<Rightarrow> ws ! j | Some r \<Rightarrow> f r)"
  using assms
proof (induction rs arbitrary: ws)
  case (Cons ir rs)
  obtain i r where ir: "ir = (i, r)" by (cases ir)
  have "map_of rs i = None" using Cons.prems(1) ir by (simp add: map_of_eq_None_iff)
  with Cons show ?case by (auto simp: ir nth_list_update split: option.split)
qed simp

lemma fold_update_all:
  assumes "mset rs = mset (enumerate 0 responses)" "length ws = length responses"
  shows "fold (\<lambda>(i, r) ws. ws[i := f r]) rs ws = map f responses"
proof (rule nth_equalityI)
  have len: "length (fold (\<lambda>(i, r) ws. ws[i := f r]) rs ws) = length ws" for rs :: "(nat \<times> 'a) list" and ws :: "'b list"
    by (induction rs arbitrary: ws) auto
  then show "length (fold (\<lambda>(i, r) ws. ws[i := f r]) rs ws) = length (map f responses)"
    using assms(2) by simp
  have set_rs: "set rs = set (enumerate 0 responses)" using assms(1) by (rule mset_eq_setD)
  have "mset (map fst rs) = mset [0..<length responses]"
    using assms(1) by (metis map_fst_enumerate mset_map plus_nat.add_0)
  then have dist: "distinct (map fst rs)" by (metis distinct_upt mset_eq_imp_distinct_iff)
  fix j assume "j < length (fold (\<lambda>(i, r) ws. ws[i := f r]) rs ws)"
  then have j: "j < length ws" by (simp add: len)
  have "(j, responses ! j) \<in> set rs"
    using j assms(2) by (simp add: set_rs in_set_enumerate_eq)
  then have "map_of rs j = Some (responses ! j)" by (rule map_of_is_SomeI [OF dist])
  moreover have "\<forall>(i, r)\<in>set rs. i < length ws"
    using assms(2) by (auto simp: set_rs in_set_enumerate_eq)
  ultimately show "fold (\<lambda>(i, r) ws. ws[i := f r]) rs ws ! j = map f responses ! j"
    using fold_update_nth [OF dist, of ws j f] j assms(2) by simp
qed

lemma add_workers_eq:
  "add_workers ps ws c =
     (if \<forall>w\<in>set ws. ready w \<and> worker_peers w = ps
      then Some (c\<lparr>ctl_keyCount := ctl_keyCount c + (\<Sum>w\<leftarrow>ws. shardKeyCount w),
        ctl_maxKey := fold (\<lambda>w m. max m (shardMaxKey w)) ws (ctl_maxKey c)\<rparr>)
      else None)"
proof (induction ws arbitrary: c)
  case (Cons w ws)
  have "(if ctl_maxKey c < shardMaxKey w then shardMaxKey w else ctl_maxKey c) = max (ctl_maxKey c) (shardMaxKey w)"
    by simp
  with Cons show ?case by (auto simp: Let_def max_def add.assoc)
qed simp

lemma fold_max: "fold (\<lambda>w m. max m (f w)) ws m = (Max (insert m (f ` set ws)) :: int)"
proof (induction ws arbitrary: m)
  case (Cons w ws)
  have "fold (\<lambda>w m. max m (f w)) (w # ws) m = Max (insert (max m (f w)) (f ` set ws))"
    by (simp add: Cons)
  also have "\<dots> = Max (insert m (f ` set (w # ws)))"
    by (cases "set ws = {}") (simp_all add: max.assoc)
  finally show ?case .
qed simp



end
