(* ===== verification/ProcReaders.thy ===== *)
theory ProcReaders
  imports CLib "HOL-Library.Monad_Syntax"
begin

text \<open>
  The two readers with which the collect example reads files of /proc (examples/collect/ProcFs.cc,
  \<^verbatim>\<open>LineReader\<close> and \<^verbatim>\<open>FieldReader\<close>), and \<^verbatim>\<open>sscanf\<close> with \<^verbatim>\<open>%ld\<close> conversions.

  Every \<^verbatim>\<open>StringPiece\<close> of them that is read through its pointer reaches to the end of the
  buffer for \<^verbatim>\<open>strtoll\<close>, which knows no length: it is the text from its start to the end of
  the buffer. \<open>None\<close> is a failing assertion of \<^verbatim>\<open>moveForward\<close> or \<^verbatim>\<open>readName\<close>.
\<close>

section \<open>Lines with a key and a value\<close>

text \<open>\<open>lr_value\<close> starts at the value and reaches past the line to the end of the buffer.\<close>

record line_reader =
  lr_content :: string
  lr_key :: string
  lr_value :: string

definition line_next :: "line_reader \<Rightarrow> line_reader" where
  "line_next r =
     (let content = lr_content r;
          (line, rest) =
            (case str_find_char newline content of
               Some pos \<Rightarrow> (take pos content, drop (pos + 1) content)
             | None \<Rightarrow> (content, []))
      in case str_find_char CHR '' '' line of
           Some sp \<Rightarrow> \<lparr>lr_content = rest, lr_key = take sp line, lr_value = drop (sp + 1) content\<rparr>
         | None \<Rightarrow> \<lparr>lr_content = rest, lr_key = [], lr_value = []\<rparr>)"

definition LineReader :: "string \<Rightarrow> line_reader" where
  "LineReader content = line_next \<lparr>lr_content = content, lr_key = [], lr_value = []\<rparr>"

definition valueAsInt64 :: "line_reader \<Rightarrow> int" where
  "valueAsInt64 r = strtoll (lr_value r)"

definition valueAsInt32 :: "line_reader \<Rightarrow> int" where
  "valueAsInt32 r = atoi (lr_value r)"

text \<open>A loop that calls \<open>line_next\<close> while there is a key comes to an end.\<close>

definition line_measure :: "line_reader \<Rightarrow> nat" where
  "line_measure r = length (lr_content r) + (if lr_key r = [] then 0 else 1)"

lemma line_next_measure: "lr_key r \<noteq> [] \<Longrightarrow> line_measure (line_next r) < line_measure r"
proof -
  assume key: "lr_key r \<noteq> []"
  have sp: "str_find_char c line = Some n \<Longrightarrow> take n line \<noteq> [] \<Longrightarrow> 2 \<le> length line" for c line n
    by (drule str_find_char_Some(1)) (cases n; auto)
  show ?thesis
  proof (cases "str_find_char newline (lr_content r)")
    case None
    then show ?thesis
      using key sp [of _ "lr_content r"]
      by (auto simp: line_next_def line_measure_def Let_def split: option.split)
  next
    case (Some pos)
    then have "pos < length (lr_content r)" by (rule str_find_char_Some)
    with Some show ?thesis
      using key by (auto simp: line_next_def line_measure_def Let_def split: option.split)
  qed
qed

section \<open>Lines of a known text\<close>

text \<open>A text of lines "key value".\<close>

definition kv_line :: "string \<times> string \<Rightarrow> string" where
  "kv_line kv = fst kv @ '' '' @ snd kv @ [newline]"

definition kv_text :: "(string \<times> string) list \<Rightarrow> string" where
  "kv_text kvs = concat (map kv_line kvs)"

definition kv_ok :: "string \<times> string \<Rightarrow> bool" where
  "kv_ok kv \<longleftrightarrow> CHR '' '' \<notin> set (fst kv) \<and> newline \<notin> set (fst kv) \<and> newline \<notin> set (snd kv) \<and>
     (\<exists>c\<in>set (snd kv). \<not> isspace c)"

text \<open>The reader after the first of the lines \<open>kvs\<close> was read; without a line, it is at the
  end of the text.\<close>

definition at_line :: "(string \<times> string) list \<Rightarrow> line_reader \<Rightarrow> bool" where
  "at_line kvs r \<longleftrightarrow>
     (case kvs of
        [] \<Rightarrow> lr_content r = [] \<and> lr_key r = [] \<and> lr_value r = []
      | kv # rest \<Rightarrow> lr_content r = kv_text rest \<and> lr_key r = fst kv \<and>
          lr_value r = snd kv @ newline # kv_text rest)"

lemma newline_not_space: "newline \<noteq> CHR '' ''"
  by (simp add: newline_def)

lemma line_next_text:
  assumes "lr_content r = kv_text kvs" "\<forall>kv\<in>set kvs. kv_ok kv"
  shows "at_line kvs (line_next r)"
proof (cases kvs)
  case Nil
  then show ?thesis
    using assms(1) by (simp add: at_line_def line_next_def kv_text_def str_find_char_def)
next
  case (Cons kv rest)
  obtain k v where kv: "kv = (k, v)" by (cases kv)
  have ok: "CHR '' '' \<notin> set k" "newline \<notin> set k" "newline \<notin> set v"
    using assms(2) Cons kv by (auto simp: kv_ok_def)
  have content: "lr_content r = (k @ '' '' @ v) @ newline # kv_text rest"
    using assms(1) Cons kv by (simp add: kv_text_def kv_line_def)
  have "newline \<notin> set (k @ '' '' @ v)" using ok by (simp add: newline_def)
  then have 1: "str_find_char newline (lr_content r) = Some (length (k @ '' '' @ v))"
    unfolding content by (rule str_find_char_append)
  have 2: "str_find_char CHR '' '' (k @ CHR '' '' # v) = Some (length k)"
    using ok(1) by (rule str_find_char_append)
  show ?thesis
    using 1 2 by (simp add: line_next_def content Cons kv at_line_def)
qed

lemma LineReader_text: "\<forall>kv\<in>set kvs. kv_ok kv \<Longrightarrow> at_line kvs (LineReader (kv_text kvs))"
  unfolding LineReader_def by (rule line_next_text) simp_all

lemma line_next_at:
  "at_line kvs r \<Longrightarrow> \<forall>kv\<in>set kvs. kv_ok kv \<Longrightarrow> at_line (tl kvs) (line_next r)"
  by (rule line_next_text) (auto simp: at_line_def kv_text_def split: list.splits)

lemma at_line_key: "at_line kvs r \<Longrightarrow> lr_key r = (if kvs = [] then [] else fst (hd kvs))"
  by (auto simp: at_line_def split: list.splits)

lemma newline_not_digit: "\<not> isdigit newline"
  by (simp add: newline_def isdigit_def)

lemma at_line_value:
  assumes "at_line kvs r" "kvs \<noteq> []" "kv_ok (hd kvs)"
  shows "valueAsInt64 r = strtoll (snd (hd kvs))" "valueAsInt32 r = atoi (snd (hd kvs))"
  using assms strtoll_append [OF _ newline_not_digit, of "snd (hd kvs)"]
  by (auto simp: at_line_def valueAsInt64_def valueAsInt32_def atoi_def kv_ok_def split: list.splits)

section \<open>Conversions of sscanf\<close>

text \<open>Up to \<open>n\<close> conversions \<^verbatim>\<open>%ld\<close>, each of which skips white space, until one fails.\<close>

fun scan_longs :: "nat \<Rightarrow> string \<Rightarrow> int list" where
  "scan_longs 0 s = []"
| "scan_longs (Suc n) s =
     (let (x, rest) = strtoll_end s in if rest = s then [] else x # scan_longs n rest)"

section \<open>Fields\<close>

text \<open>\<^verbatim>\<open>moveForward(newstart)\<close>, with the text from \<^verbatim>\<open>newstart\<close> on, which is a suffix; the
  new text must not be empty.\<close>

definition moveForward :: "string \<Rightarrow> string option" where
  "moveForward rest = (if rest = [] then None else Some rest)"

definition field_next :: "string \<Rightarrow> string option" where
  "field_next content =
     (case str_find_char CHR '' '' content of
        Some sp \<Rightarrow> moveForward (drop (sp + 1) content)
      | None \<Rightarrow> Some [])"

definition readInt64 :: "string \<Rightarrow> (int \<times> string) option" where
  "readInt64 content =
     (let (x, end') = strtoll_end content
      in map_option (\<lambda>c. (x, c)) (moveForward (dropWhile (\<lambda>c. c = CHR '' '') end')))"

definition int32_of :: "int \<Rightarrow> int" where
  "int32_of x = sint (word_of_int x :: 32 word)"

definition readInt32 :: "string \<Rightarrow> (int \<times> string) option" where
  "readInt32 content = map_option (\<lambda>(x, c). (int32_of x, c)) (readInt64 content)"

text \<open>\<^verbatim>\<open>readName\<close> keeps the old name and position if there is no closing parenthesis. After
  it, it skips two characters.\<close>

definition readName :: "string \<Rightarrow> string \<Rightarrow> (string \<times> string) option" where
  "readName content name =
     (if content = [] \<or> hd content \<noteq> CHR ''('' then None
      else case str_find_char CHR '')'' content of
        Some e \<Rightarrow> map_option (\<lambda>c. (take (e - 1) (tl content), c)) (moveForward (drop (e + 2) content))
      | None \<Rightarrow> Some (name, content))"

end
