(* ===== verification/FileCache.thy ===== *)
theory FileCache
  imports Prelude
begin

text \<open>
  The cache of open file descriptors of the collect example (examples/collect/FileCache.h).
  A file is kept forever, or in a cache of bounded size with least-recently-used order: a
  \<^verbatim>\<open>std::list\<close> of names, most recent first, and a map from names to files. A \<^verbatim>\<open>File\<close> is
  its descriptor, negative if it is not open; it closes it when it is destroyed.

  The operating system's table of descriptors is \<open>fds\<close>. What \<^verbatim>\<open>open(2)\<close> returns is an
  argument of the operations that call it: a negative number, or a descriptor that was not in
  use (\<open>open_result\<close>). \<open>None\<close> is a failing assertion or a dangling iterator.
\<close>

section \<open>The code\<close>

datatype CacheLevel = kNoCache | kLRU | kKeep

record file_cache =
  keep :: "string \<rightharpoonup> int"
  maxFiles :: nat
  lru_list :: "string list"
  lru_map :: "string \<rightharpoonup> int"
  fds :: "int set"

definition open_result :: "file_cache \<Rightarrow> int \<Rightarrow> bool" where
  "open_result c fd \<longleftrightarrow> (0 \<le> fd \<longrightarrow> fd \<notin> fds c)"

definition new_cache :: "nat \<Rightarrow> int set \<Rightarrow> file_cache" where
  "new_cache n others = \<lparr>keep = Map.empty, maxFiles = n, lru_list = [], lru_map = Map.empty, fds = others\<rparr>"

text \<open>The constructor and the destructor of \<^verbatim>\<open>File\<close>.\<close>

definition File_open :: "int \<Rightarrow> file_cache \<Rightarrow> file_cache" where
  "File_open fd c = (if 0 \<le> fd then c\<lparr>fds := insert fd (fds c)\<rparr> else c)"

definition File_close :: "int \<Rightarrow> file_cache \<Rightarrow> file_cache" where
  "File_close fd c = (if 0 \<le> fd then c\<lparr>fds := fds c - {fd}\<rparr> else c)"

text \<open>\<^verbatim>\<open>map_.erase(name)\<close> destroys the file.\<close>

definition map_erase :: "string \<Rightarrow> file_cache \<Rightarrow> file_cache" where
  "map_erase name c =
     (case lru_map c name of
        None \<Rightarrow> c
      | Some fd \<Rightarrow> (File_close fd c)\<lparr>lru_map := (lru_map c)(name := None)\<rparr>)"

definition getKeep :: "int \<Rightarrow> string \<Rightarrow> file_cache \<Rightarrow> int \<times> file_cache" where
  "getKeep opened filename c =
     (let f = (case keep c filename of None \<Rightarrow> -1 | Some fd \<Rightarrow> fd)
      in if f < 0
         then (opened, (File_open opened c)\<lparr>keep := (keep c)(filename \<mapsto> opened)\<rparr>)
         else (f, c\<lparr>keep := (keep c)(filename \<mapsto> f)\<rparr>))"

definition getLRU :: "int \<Rightarrow> string \<Rightarrow> file_cache \<Rightarrow> (int \<times> file_cache) option" where
  "getLRU opened filename c =
     (case lru_map c filename of
        Some fd \<Rightarrow> Some (fd, c\<lparr>lru_list := filename # remove1 filename (lru_list c)\<rparr>)
      | None \<Rightarrow>
          (let c = c\<lparr>lru_list := filename # lru_list c\<rparr>;
               c = (File_open opened c)\<lparr>lru_map := (lru_map c)(filename \<mapsto> opened)\<rparr>;
               c = (if maxFiles c < length (lru_list c)
                    then (map_erase (last (lru_list c)) c)\<lparr>lru_list := butlast (lru_list c)\<rparr>
                    else c)
           in map_option (\<lambda>fd. (fd, c)) (lru_map c filename)))"

definition getFile :: "int \<Rightarrow> string \<Rightarrow> CacheLevel \<Rightarrow> file_cache \<Rightarrow> (int \<times> file_cache) option" where
  "getFile opened filename cache c =
     (case cache of
        kKeep \<Rightarrow> Some (getKeep opened filename c)
      | kLRU \<Rightarrow> getLRU opened filename c
      | kNoCache \<Rightarrow> None)"

definition closeFile :: "string \<Rightarrow> file_cache \<Rightarrow> file_cache" where
  "closeFile filename c =
     (case lru_map c filename of
        None \<Rightarrow> c
      | Some fd \<Rightarrow> map_erase filename (c\<lparr>lru_list := remove1 filename (lru_list c)\<rparr>))"

definition setSentryFile :: "int \<Rightarrow> string \<Rightarrow> file_cache \<Rightarrow> file_cache option" where
  "setSentryFile opened sentry c = map_option snd (getFile opened sentry kLRU c)"

function close_until :: "string \<Rightarrow> file_cache \<Rightarrow> file_cache" where
  "close_until sentry c =
     (if lru_list c \<noteq> [] \<and> last (lru_list c) \<noteq> sentry
      then close_until sentry ((map_erase (last (lru_list c)) c)\<lparr>lru_list := butlast (lru_list c)\<rparr>)
      else c)"
  by pat_completeness auto
termination by (relation "measure (length \<circ> lru_list \<circ> snd)") auto

declare close_until.simps [simp del]

definition closeUnusedFiles :: "string \<Rightarrow> file_cache \<Rightarrow> file_cache" where
  "closeUnusedFiles sentry c = (if lru_map c sentry \<noteq> None then close_until sentry c else c)"

section \<open>The invariant: no descriptor leaks, none is shared\<close>

text \<open>The open descriptors of the two maps are disjoint, each belongs to one name, and together
  with those that the program opened elsewhere (\<open>others\<close>) they are all that is open.\<close>

definition owned :: "(string \<rightharpoonup> int) \<Rightarrow> int set" where
  "owned m = {fd. 0 \<le> fd \<and> (\<exists>name. m name = Some fd)}"

definition single :: "(string \<rightharpoonup> int) \<Rightarrow> bool" where
  "single m \<longleftrightarrow> (\<forall>a b fd. 0 \<le> fd \<longrightarrow> m a = Some fd \<longrightarrow> m b = Some fd \<longrightarrow> a = b)"

definition cache_ok :: "int set \<Rightarrow> file_cache \<Rightarrow> bool" where
  "cache_ok others c \<longleftrightarrow>
     distinct (lru_list c) \<and> set (lru_list c) = dom (lru_map c) \<and> length (lru_list c) \<le> maxFiles c \<and>
     single (keep c) \<and> single (lru_map c) \<and> owned (keep c) \<inter> owned (lru_map c) = {} \<and>
     others \<inter> (owned (keep c) \<union> owned (lru_map c)) = {} \<and>
     fds c = others \<union> owned (keep c) \<union> owned (lru_map c)"

lemma cache_ok_new: "cache_ok others (new_cache n others)"
  by (simp add: cache_ok_def new_cache_def single_def owned_def)

lemma owned_iff: "fd \<in> owned m \<longleftrightarrow> 0 \<le> fd \<and> (\<exists>name. m name = Some fd)"
  by (simp add: owned_def)

lemma owned_erase:
  assumes "single m" "m name = Some fd"
  shows "owned (m(name := None)) = owned m - {fd}"
proof (rule set_eqI)
  fix x
  show "x \<in> owned (m(name := None)) \<longleftrightarrow> x \<in> owned m - {fd}"
  proof
    assume "x \<in> owned (m(name := None))"
    then obtain n where n: "n \<noteq> name" "m n = Some x" "0 \<le> x"
      by (auto simp: owned_iff split: if_splits)
    then have "x \<noteq> fd" using assms by (auto simp: single_def)
    with n show "x \<in> owned m - {fd}" by (auto simp: owned_iff)
  next
    assume "x \<in> owned m - {fd}"
    then obtain n where "m n = Some x" "0 \<le> x" "x \<noteq> fd" by (auto simp: owned_iff)
    moreover from this have "n \<noteq> name" using assms(2) by auto
    ultimately show "x \<in> owned (m(name := None))" by (auto simp: owned_iff)
  qed
qed

lemma owned_add: "m name = None \<or> (\<exists>x<0. m name = Some x) \<Longrightarrow>
    owned (m(name \<mapsto> fd)) = (if 0 \<le> fd then insert fd (owned m) else owned m)"
proof (rule set_eqI)
  fix x
  assume "m name = None \<or> (\<exists>x<0. m name = Some x)"
  then have other: "m n = Some x \<Longrightarrow> 0 \<le> x \<Longrightarrow> n \<noteq> name" for n by auto
  show "x \<in> owned (m(name \<mapsto> fd)) \<longleftrightarrow> x \<in> (if 0 \<le> fd then insert fd (owned m) else owned m)"
  proof
    assume "x \<in> owned (m(name \<mapsto> fd))"
    then show "x \<in> (if 0 \<le> fd then insert fd (owned m) else owned m)"
      by (auto simp: owned_iff split: if_splits)
  next
    assume "x \<in> (if 0 \<le> fd then insert fd (owned m) else owned m)"
    then consider "x = fd" "0 \<le> fd" | n where "m n = Some x" "0 \<le> x"
      by (auto simp: owned_iff split: if_splits)
    then show "x \<in> owned (m(name \<mapsto> fd))"
    proof cases
      case 1
      then show ?thesis by (auto simp: owned_iff intro: exI [of _ name])
    next
      case 2
      then show ?thesis using other by (auto simp: owned_iff intro: exI [of _ n])
    qed
  qed
qed

lemma single_erase: "single m \<Longrightarrow> single (m(name := None))"
  by (auto simp: single_def split: if_splits)

lemma single_add: "single m \<Longrightarrow> 0 \<le> fd \<longrightarrow> fd \<notin> owned m \<Longrightarrow> single (m(name \<mapsto> fd))"
  by (auto simp: single_def owned_def split: if_splits)

lemma map_erase_sel:
  "lru_list (map_erase name c) = lru_list c" "lru_map (map_erase name c) = (lru_map c)(name := None)"
  "keep (map_erase name c) = keep c" "maxFiles (map_erase name c) = maxFiles c"
  by (auto simp: map_erase_def File_close_def split: option.split)

text \<open>The table without the bound on its size, as it is in the middle of an operation.\<close>

definition table_ok :: "int set \<Rightarrow> file_cache \<Rightarrow> bool" where
  "table_ok others c \<longleftrightarrow> cache_ok others (c\<lparr>maxFiles := length (lru_list c)\<rparr>)"

lemma cache_ok_table: "cache_ok others c \<longleftrightarrow> table_ok others c \<and> length (lru_list c) \<le> maxFiles c"
  by (auto simp: cache_ok_def table_ok_def)

lemma table_ok_drop:
  assumes ok: "table_ok others c" and xs: "lru_list c = us @ name # vs"
  shows "table_ok others ((map_erase name c)\<lparr>lru_list := us @ vs\<rparr>)"
proof -
  have "name \<in> dom (lru_map c)" using ok xs by (auto simp: table_ok_def cache_ok_def)
  then obtain fd where fd: "lru_map c name = Some fd" by blast
  have own: "owned ((lru_map c)(name := None)) = owned (lru_map c) - {fd}"
    using ok fd by (intro owned_erase) (auto simp: table_ok_def cache_ok_def)
  have nonneg: "fd \<in> owned (lru_map c) \<longleftrightarrow> 0 \<le> fd" using fd by (auto simp: owned_def)
  have "set (us @ vs) = dom (lru_map c) - {name}" "distinct (us @ vs)"
    using ok xs by (auto simp: table_ok_def cache_ok_def)
  with ok own nonneg fd show ?thesis
    by (auto simp: table_ok_def cache_ok_def map_erase_def File_close_def single_erase)
qed

lemma table_ok_insert:
  assumes ok: "table_ok others c" and new: "lru_map c name = None" and opened: "open_result c fd"
  shows "table_ok others ((File_open fd (c\<lparr>lru_list := name # lru_list c\<rparr>))\<lparr>lru_map := (lru_map c)(name \<mapsto> fd)\<rparr>)"
proof -
  have own: "owned ((lru_map c)(name \<mapsto> fd)) = (if 0 \<le> fd then insert fd (owned (lru_map c)) else owned (lru_map c))"
    using new by (intro owned_add) simp
  have "0 \<le> fd \<longrightarrow> fd \<notin> owned (lru_map c) \<union> owned (keep c) \<union> others"
    using ok opened by (auto simp: table_ok_def cache_ok_def open_result_def)
  moreover from this have "single ((lru_map c)(name \<mapsto> fd))"
    using ok by (intro single_add) (auto simp: table_ok_def cache_ok_def)
  moreover have "name \<notin> set (lru_list c)" using ok new by (auto simp: table_ok_def cache_ok_def)
  ultimately show ?thesis
    using ok own by (auto simp: table_ok_def cache_ok_def File_open_def)
qed

lemma getLRU_hit:
  assumes "cache_ok others c" "lru_map c name = Some fd"
  shows "getLRU opened name c = Some (fd, c\<lparr>lru_list := name # remove1 name (lru_list c)\<rparr>)"
    "cache_ok others (c\<lparr>lru_list := name # remove1 name (lru_list c)\<rparr>)"
    "take (maxFiles c) (name # remove1 name (lru_list c)) = name # remove1 name (lru_list c)"
proof -
  have "name \<in> set (lru_list c)" using assms by (auto simp: cache_ok_def)
  then have len: "length (name # remove1 name (lru_list c)) = length (lru_list c)"
    using length_pos_if_in_set [of name "lru_list c"] by (simp add: length_remove1)
  with assms show "take (maxFiles c) (name # remove1 name (lru_list c)) = name # remove1 name (lru_list c)"
    by (simp add: cache_ok_def)
  show "cache_ok others (c\<lparr>lru_list := name # remove1 name (lru_list c)\<rparr>)"
    using assms len by (auto simp: cache_ok_def)
qed (simp add: getLRU_def assms(2))

lemma getLRU_miss:
  assumes ok: "cache_ok others c" and new: "lru_map c name = None" and opened: "open_result c fd"
    and max: "0 < maxFiles c"
  obtains c' where "getLRU fd name c = Some (fd, c')" "cache_ok others c'" "maxFiles c' = maxFiles c"
    "lru_list c' = take (maxFiles c) (name # lru_list c)" "lru_map c' name = Some fd" "keep c' = keep c"
proof -
  define c1 where "c1 = (File_open fd (c\<lparr>lru_list := name # lru_list c\<rparr>))\<lparr>lru_map := (lru_map c)(name \<mapsto> fd)\<rparr>"
  have c1: "table_ok others c1"
    unfolding c1_def using ok by (intro table_ok_insert [OF _ new opened]) (simp add: cache_ok_table)
  have sel: "lru_list c1 = name # lru_list c" "lru_map c1 = (lru_map c)(name \<mapsto> fd)"
    "maxFiles c1 = maxFiles c" "keep c1 = keep c"
    by (simp_all add: c1_def File_open_def)
  have len: "length (lru_list c) \<le> maxFiles c" using ok by (simp add: cache_ok_def)
  have unfold: "getLRU fd name c =
      (let c = (if maxFiles c1 < length (lru_list c1)
                then (map_erase (last (lru_list c1)) c1)\<lparr>lru_list := butlast (lru_list c1)\<rparr> else c1)
       in map_option (\<lambda>fd. (fd, c)) (lru_map c name))"
    by (simp add: getLRU_def new c1_def Let_def File_open_def)
  show thesis
  proof (cases "maxFiles c < length (lru_list c1)")
    case False
    with c1 sel len show thesis
      by (intro that [of c1]) (simp_all add: unfold Let_def cache_ok_table)
  next
    case True
    then have full: "length (lru_list c) = maxFiles c" using sel len by simp
    then have "lru_list c \<noteq> []" using max by auto
    then have last: "last (lru_list c1) = last (lru_list c)" "last (lru_list c) \<noteq> name"
      and split: "lru_list c1 = butlast (lru_list c1) @ last (lru_list c1) # []"
      using sel ok new by (auto simp: cache_ok_def) (metis domIff last_in_set option.distinct(1))
    have "butlast (lru_list c1) = take (maxFiles c) (name # lru_list c)"
      using sel full by (simp add: butlast_conv_take)
    moreover have "cache_ok others ((map_erase (last (lru_list c1)) c1)\<lparr>lru_list := butlast (lru_list c1)\<rparr>)"
      using table_ok_drop [OF c1 split] sel full max by (simp add: cache_ok_table map_erase_sel)
    ultimately show thesis
      using True sel last
      by (intro that [of "(map_erase (last (lru_list c1)) c1)\<lparr>lru_list := butlast (lru_list c1)\<rparr>"])
         (simp_all add: unfold Let_def map_erase_sel)
  qed
qed

lemma getKeep_ok:
  assumes ok: "cache_ok others c" and opened: "open_result c fd"
  shows "cache_ok others (snd (getKeep fd name c))"
proof (cases "\<exists>x\<ge>0. keep c name = Some x")
  case True
  then obtain x where "0 \<le> x" "keep c name = Some x" by blast
  then have "snd (getKeep fd name c) = c" by (auto simp: getKeep_def Let_def fun_upd_idem)
  with ok show ?thesis by simp
next
  case False
  then have none: "keep c name = None \<or> (\<exists>x<0. keep c name = Some x)"
    by (cases "keep c name") force+
  then have eq: "snd (getKeep fd name c) = (File_open fd c)\<lparr>keep := (keep c)(name \<mapsto> fd)\<rparr>"
    by (auto simp: getKeep_def Let_def split: option.split)
  have "0 \<le> fd \<longrightarrow> fd \<notin> owned (lru_map c) \<union> owned (keep c) \<union> others"
    using ok opened by (auto simp: cache_ok_def open_result_def)
  moreover from this have "single ((keep c)(name \<mapsto> fd))"
    using ok by (intro single_add) (auto simp: cache_ok_def)
  ultimately show ?thesis
    using ok owned_add [of "keep c" name fd] none by (auto simp: eq cache_ok_def File_open_def)
qed

lemma closeFile_ok:
  assumes ok: "cache_ok others c"
  shows "cache_ok others (closeFile name c)" "lru_list (closeFile name c) = remove1 name (lru_list c)"
proof -
  have "lru_map c name = None \<Longrightarrow> name \<notin> set (lru_list c)" using ok by (auto simp: cache_ok_def)
  then show "lru_list (closeFile name c) = remove1 name (lru_list c)"
    by (auto simp: closeFile_def map_erase_sel remove1_idem split: option.split)
  show "cache_ok others (closeFile name c)"
  proof (cases "lru_map c name")
    case (Some fd)
    then have "name \<in> set (lru_list c)" using ok by (auto simp: cache_ok_def)
    then obtain us vs where xs: "lru_list c = us @ name # vs" "name \<notin> set us"
      by (meson split_list_first)
    then have rem: "remove1 name (lru_list c) = us @ vs" by (simp add: remove1_append)
    have "closeFile name c = (map_erase name c)\<lparr>lru_list := us @ vs\<rparr>"
      using Some by (simp add: closeFile_def map_erase_def rem File_close_def)
    with table_ok_drop [OF _ xs(1)] ok xs show ?thesis
      by (simp add: cache_ok_table map_erase_sel)
  qed (use ok in \<open>simp add: closeFile_def\<close>)
qed

lemma close_until_ok:
  assumes "cache_ok others c" "sentry \<in> set (lru_list c)"
  shows "cache_ok others (close_until sentry c) \<and>
    lru_list (close_until sentry c) = takeWhile (\<lambda>x. x \<noteq> sentry) (lru_list c) @ [sentry] \<and>
    maxFiles (close_until sentry c) = maxFiles c"
  using assms
proof (induction sentry c rule: close_until.induct)
  case (1 sentry c)
  have ne: "lru_list c \<noteq> []" using "1.prems" by auto
  then have split: "lru_list c = butlast (lru_list c) @ last (lru_list c) # []" by simp
  show ?case
  proof (cases "last (lru_list c) = sentry")
    case True
    then have "sentry \<notin> set (butlast (lru_list c))"
      using "1.prems"(1) split by (metis cache_ok_def distinct_append disjoint_insert(1) list.simps(15))
    moreover have "takeWhile (\<lambda>x. x \<noteq> y) (xs @ [y]) = xs" if "y \<notin> set xs" for y and xs :: "string list"
      using that by (induction xs) auto
    ultimately have "takeWhile (\<lambda>x. x \<noteq> sentry) (lru_list c) @ [sentry] = lru_list c"
      using True split by metis
    with True "1.prems" show ?thesis by (simp add: close_until.simps [of sentry c])
  next
    case False
    let ?c = "(map_erase (last (lru_list c)) c)\<lparr>lru_list := butlast (lru_list c)\<rparr>"
    have in_bl: "sentry \<in> set (butlast (lru_list c))"
      using "1.prems"(2) False split by (metis Un_iff list.set(1) list.set(2) set_append singletonD)
    have "table_ok others ((map_erase (last (lru_list c)) c)\<lparr>lru_list := butlast (lru_list c) @ []\<rparr>)"
      using "1.prems"(1) by (intro table_ok_drop split) (simp add: cache_ok_table)
    then have "cache_ok others ?c"
      using "1.prems"(1) by (auto simp: cache_ok_table map_erase_sel)
    with "1.IH" ne False in_bl have IH: "cache_ok others (close_until sentry ?c) \<and>
        lru_list (close_until sentry ?c) = takeWhile (\<lambda>x. x \<noteq> sentry) (butlast (lru_list c)) @ [sentry] \<and>
        maxFiles (close_until sentry ?c) = maxFiles c"
      by (simp add: map_erase_sel)
    have "takeWhile (\<lambda>x. x \<noteq> sentry) (butlast (lru_list c)) = takeWhile (\<lambda>x. x \<noteq> sentry) (lru_list c)"
      by (subst (2) split) (rule takeWhile_append1 [symmetric, OF in_bl], simp)
    with IH ne False show ?thesis by (simp add: close_until.simps [of sentry c])
  qed
qed

section \<open>Reachable caches\<close>

inductive cache_reachable :: "nat \<Rightarrow> int set \<Rightarrow> file_cache \<Rightarrow> bool" for n others where
  cache_new: "cache_reachable n others (new_cache n others)"
| cache_get: "cache_reachable n others c \<Longrightarrow> open_result c fd \<Longrightarrow> getFile fd name level c = Some (r, c') \<Longrightarrow>
     cache_reachable n others c'"
| cache_close: "cache_reachable n others c \<Longrightarrow> cache_reachable n others (closeFile name c)"
| cache_sentry: "cache_reachable n others c \<Longrightarrow> open_result c fd \<Longrightarrow> setSentryFile fd name c = Some c' \<Longrightarrow>
     cache_reachable n others c'"
| cache_close_unused: "cache_reachable n others c \<Longrightarrow> cache_reachable n others (closeUnusedFiles name c)"

lemma getLRU_ok:
  assumes "cache_ok others c" "open_result c fd" "0 < maxFiles c"
  obtains r c' where "getLRU fd name c = Some (r, c')" "cache_ok others c'" "maxFiles c' = maxFiles c"
    "lru_list c' = take (maxFiles c) (name # remove1 name (lru_list c))"
    "r = (case lru_map c name of None \<Rightarrow> fd | Some x \<Rightarrow> x)" "lru_map c' name = Some r"
proof (cases "lru_map c name")
  case None
  then have "name \<notin> set (lru_list c)" using assms(1) by (auto simp: cache_ok_def)
  then have rem: "remove1 name (lru_list c) = lru_list c" by (rule remove1_idem)
  obtain c' where "getLRU fd name c = Some (fd, c')" "cache_ok others c'" "maxFiles c' = maxFiles c"
    "lru_list c' = take (maxFiles c) (name # lru_list c)" "lru_map c' name = Some fd"
    using getLRU_miss [OF assms(1) None assms(2,3)] by metis
  with None rem show thesis by (intro that) auto
next
  case (Some x)
  show thesis
    by (rule that [OF getLRU_hit(1,2) [OF assms(1) Some]])
       (use getLRU_hit(3) [OF assms(1) Some] Some in simp_all)
qed

lemma getFile_ok:
  assumes "cache_ok others c" "open_result c fd" "0 < maxFiles c" "getFile fd name level c = Some (r, c')"
  shows "cache_ok others c'" "maxFiles c' = maxFiles c"
proof -
  have "cache_ok others c' \<and> maxFiles c' = maxFiles c"
  proof (cases level)
    case kKeep
    with assms(4) have "c' = snd (getKeep fd name c)" by (simp add: getFile_def)
    moreover have "maxFiles (snd (getKeep fd name c)) = maxFiles c"
      by (simp add: getKeep_def Let_def File_open_def)
    ultimately show ?thesis using getKeep_ok [OF assms(1,2)] by simp
  next
    case kLRU
    then show ?thesis using getLRU_ok [OF assms(1-3), of name] assms(4)
      by (metis CacheLevel.simps(8) Pair_inject getFile_def option.inject)
  qed (use assms(4) in \<open>simp add: getFile_def\<close>)
  then show "cache_ok others c'" "maxFiles c' = maxFiles c" by simp_all
qed

lemma closeUnusedFiles_ok:
  assumes "cache_ok others c"
  shows "cache_ok others (closeUnusedFiles name c)" "maxFiles (closeUnusedFiles name c) = maxFiles c"
proof -
  have "lru_map c name \<noteq> None \<Longrightarrow> name \<in> set (lru_list c)" using assms by (auto simp: cache_ok_def)
  then show "cache_ok others (closeUnusedFiles name c)" "maxFiles (closeUnusedFiles name c) = maxFiles c"
    using close_until_ok [OF assms, of name] assms by (auto simp: closeUnusedFiles_def)
qed

lemma cache_reachable_ok:
  "cache_reachable n others c \<Longrightarrow> 0 < n \<Longrightarrow> cache_ok others c \<and> maxFiles c = n"
proof (induction rule: cache_reachable.induct)
  case cache_new
  then show ?case by (simp add: cache_ok_new) (simp add: new_cache_def)
next
  case (cache_get c fd name level r c')
  then show ?case using getFile_ok [of others c fd name level r c'] by simp
next
  case (cache_close c name)
  moreover have "maxFiles (closeFile name c) = maxFiles c"
    by (simp add: closeFile_def map_erase_sel split: option.split)
  ultimately show ?case by (simp add: closeFile_ok)
next
  case (cache_sentry c fd name c')
  then obtain r where "getFile fd name kLRU c = Some (r, c')" by (auto simp: setSentryFile_def)
  with cache_sentry show ?case using getFile_ok [of others c fd name kLRU r c'] by simp
next
  case (cache_close_unused c name)
  then show ?case using closeUnusedFiles_ok [of others c name] by simp
qed

text \<open>C6: The file cache leaks no descriptor and never closes one it does not own: in every state
  it reaches, the open descriptors are exactly those of its two maps and those that were open
  before, no two names share one, it holds at most \<open>maxFiles\<close> files besides the kept ones, and
  no request fails an assertion or returns a dangling descriptor.\<close>

theorem cache_no_leak:
  assumes "cache_reachable n others c" "0 < n"
  shows "fds c = others \<union> owned (keep c) \<union> owned (lru_map c) \<and>
    owned (keep c) \<inter> owned (lru_map c) = {} \<and> others \<inter> (owned (keep c) \<union> owned (lru_map c)) = {} \<and>
    single (keep c) \<and> single (lru_map c) \<and> length (lru_list c) \<le> n \<and>
    (open_result c fd \<and> level \<noteq> kNoCache \<longrightarrow> (\<exists>r c'. getFile fd name level c = Some (r, c') \<and>
      (0 \<le> r \<longrightarrow> r \<in> fds c')))"
proof -
  have ok: "cache_ok others c" "maxFiles c = n" using cache_reachable_ok [OF assms] by simp_all
  have "\<exists>r c'. getFile fd name level c = Some (r, c') \<and> (0 \<le> r \<longrightarrow> r \<in> fds c')"
    if op: "open_result c fd" "level \<noteq> kNoCache"
  proof (cases level)
    case kLRU
    obtain r c' where "getLRU fd name c = Some (r, c')" "cache_ok others c'" "lru_map c' name = Some r"
      using getLRU_ok [OF ok(1) op(1)] ok(2) assms(2) by metis
    with kLRU show ?thesis by (auto simp: getFile_def cache_ok_def owned_iff)
  next
    case kKeep
    let ?c = "snd (getKeep fd name c)"
    have "keep ?c name = Some (fst (getKeep fd name c))" by (simp add: getKeep_def Let_def)
    moreover have "cache_ok others ?c" by (rule getKeep_ok [OF ok(1) op(1)])
    ultimately have "0 \<le> fst (getKeep fd name c) \<longrightarrow> fst (getKeep fd name c) \<in> fds ?c"
      by (auto simp: cache_ok_def owned_iff)
    with kKeep show ?thesis by (simp add: getFile_def prod_eq_iff)
  qed (use op in simp)
  with ok show ?thesis by (simp add: cache_ok_def)
qed

theorem cache_no_leak_witness:
  "\<exists>c. cache_reachable 1 {0, 1, 2} c \<and> lru_list c = [''b''] \<and> fds c = {0, 1, 2, 4}"
proof -
  let ?c0 = "new_cache 1 {0, 1, 2}"
  let ?c1 = "snd (the (getFile 3 ''a'' kLRU ?c0))"
  let ?c2 = "snd (the (getFile 4 ''b'' kLRU ?c1))"
  have 1: "getFile 3 ''a'' kLRU ?c0 = Some (3, ?c1)" "getFile 4 ''b'' kLRU ?c1 = Some (4, ?c2)"
    by (simp_all add: getFile_def getLRU_def new_cache_def File_open_def map_erase_def)
  have "open_result ?c0 3" "open_result ?c1 4"
    by (simp_all add: open_result_def getFile_def getLRU_def new_cache_def File_open_def)
  then have r: "cache_reachable 1 {0, 1, 2} ?c2"
    using 1 by (blast intro: cache_new cache_get)
  have "lru_list ?c2 = [''b'']" "keep ?c2 = Map.empty" "lru_map ?c2 = [''b'' \<mapsto> 4]"
    by (auto simp: getFile_def getLRU_def new_cache_def File_open_def File_close_def map_erase_def)
  moreover from this have "owned (keep ?c2) = {}" "owned (lru_map ?c2) = {4}"
    by (auto simp: owned_def)
  ultimately show ?thesis using cache_no_leak [OF r] r by (intro exI [of _ ?c2]) auto
qed

section \<open>Least recently used\<close>

text \<open>A sequence of requests, each with the result of \<^verbatim>\<open>open(2)\<close> in case it is called.\<close>

fun lru_gets :: "(string \<times> int) list \<Rightarrow> file_cache \<Rightarrow> file_cache option" where
  "lru_gets [] c = Some c"
| "lru_gets ((name, opened) # rs) c =
     (if open_result c opened
      then (case getFile opened name kLRU c of None \<Rightarrow> None | Some (r, c') \<Rightarrow> lru_gets rs c')
      else None)"

lemma remdups_snoc: "remdups (xs @ [x]) = remove1 x (remdups xs) @ [x]"
  by (induction xs) (auto simp: remove1_append remove1_idem)

lemma take_move_front:
  assumes "distinct xs" "0 < n"
  shows "take n (x # remove1 x (take n xs)) = take n (x # remove1 x xs)"
proof (cases "x \<in> set (take n xs)")
  case True
  have xs: "xs = take n xs @ drop n xs" by simp
  have "remove1 x xs = remove1 x (take n xs) @ drop n xs"
    using True by (subst xs) (simp only: remove1_append if_True)
  moreover have "length (remove1 x (take n xs)) = length (take n xs) - 1"
    using True by (simp add: length_remove1)
  moreover have "drop n xs \<noteq> [] \<longrightarrow> length (take n xs) = n" by auto
  ultimately show ?thesis
    using assms(2) by (cases n) (auto simp: min_def split: if_splits)
next
  case False
  then have "remove1 x (take n xs) = take n xs" by (rule remove1_idem)
  moreover have "take (n - 1) (remove1 x xs) = take (n - 1) xs"
    using False
  proof (induction xs arbitrary: n)
    case (Cons y ys)
    show ?case
    proof (cases "n - 1")
      case (Suc m)
      then have "n = Suc (Suc m)" by simp
      with Cons.IH [of "Suc m"] Cons.prems show ?thesis by simp
    qed simp
  qed simp
  ultimately show ?thesis using assms(2) by (cases n) auto
qed

lemma lru_gets_snoc:
  "lru_gets (rs @ [(name, opened)]) c =
     (case lru_gets rs c of None \<Rightarrow> None | Some c' \<Rightarrow> lru_gets [(name, opened)] c')"
proof (induction rs arbitrary: c)
  case (Cons r rs)
  obtain name' fd where "r = (name', fd)" by (cases r)
  with Cons show ?case by (simp split: option.split)
qed simp

lemma lru_gets_spec:
  assumes "0 < n" "lru_gets rs (new_cache n others) = Some c"
  shows "lru_list c = take n (rev (remdups (map fst rs))) \<and> cache_ok others c \<and> maxFiles c = n"
  using assms(2)
proof (induction rs arbitrary: c rule: rev_induct)
  case Nil
  then show ?case using cache_ok_new [of others n] by (auto simp: new_cache_def)
next
  case (snoc r rs)
  obtain name fd where r: "r = (name, fd)" by (cases r)
  obtain c1 where c1: "lru_gets rs (new_cache n others) = Some c1" "lru_gets [(name, fd)] c1 = Some c"
    using snoc.prems by (auto simp: r lru_gets_snoc split: option.splits)
  note IH = snoc.IH [OF c1(1)]
  have op: "open_result c1 fd" using c1(2) by (simp split: if_splits)
  obtain x c' where "getLRU fd name c1 = Some (x, c')" "cache_ok others c'" "maxFiles c' = maxFiles c1"
    "lru_list c' = take (maxFiles c1) (name # remove1 name (lru_list c1))"
    using getLRU_ok [of others c1 fd name] IH op assms(1) by metis
  then have "cache_ok others c" "maxFiles c = n"
    "lru_list c = take n (name # remove1 name (take n (rev (remdups (map fst rs)))))"
    using c1(2) IH op by (simp_all add: getFile_def)
  moreover have "take n (name # remove1 name (take n (rev (remdups (map fst rs))))) =
      take n (name # remove1 name (rev (remdups (map fst rs))))"
    by (rule take_move_front [OF _ assms(1)]) simp
  moreover have "remove1 name (rev (remdups (map fst rs))) = rev (remove1 name (remdups (map fst rs)))"
    by (simp add: distinct_remove1_removeAll removeAll_filter_not_eq rev_filter)
  ultimately show ?case by (simp add: r remdups_snoc)
qed

text \<open>C11: The cache is least-recently-used: after any sequence of requests it holds the
  \<open>maxFiles\<close> names that were requested last, in the order of their last requests.\<close>

theorem cache_is_lru:
  assumes "0 < n" "lru_gets rs (new_cache n others) = Some c"
  shows "lru_list c = take n (rev (remdups (map fst rs))) \<and>
    dom (lru_map c) = set (take n (rev (remdups (map fst rs))))"
  using lru_gets_spec [OF assms] by (auto simp: cache_ok_def)

theorem cache_is_lru_witness:
  "map_option lru_list (lru_gets [(''a'', 3), (''b'', 4), (''a'', 5), (''c'', 6)] (new_cache 2 {})) =
     Some [''c'', ''a'']"
proof -
  have "lru_gets [(''a'', 3), (''b'', 4), (''a'', 5), (''c'', 6)] (new_cache 2 {}) \<noteq> None"
    by (simp add: getFile_def getLRU_def new_cache_def File_open_def File_close_def map_erase_def open_result_def)
  then obtain c where c: "lru_gets [(''a'', 3), (''b'', 4), (''a'', 5), (''c'', 6)] (new_cache 2 {}) = Some c"
    by blast
  show ?thesis using cache_is_lru [OF _ c] unfolding c by simp
qed

text \<open>One snapshot keeps what it used: after the sentry file is requested, then files \<open>fs\<close>
  (fewer distinct ones than the cache holds), and the unused files are closed, the cache holds
  exactly the files of this snapshot and the sentry, and every other one was closed.\<close>

theorem snapshot_closes_unused:
  assumes "lru_gets (before @ (sentry, fd) # rs) (new_cache n others) = Some c"
    and "sentry \<notin> fst ` set rs" "card (fst ` set rs) < n"
  shows "lru_list (closeUnusedFiles sentry c) = rev (remdups (map fst rs)) @ [sentry] \<and>
    fds (closeUnusedFiles sentry c) = others \<union> owned (lru_map (closeUnusedFiles sentry c)) \<union> owned (keep c)"
proof -
  let ?us = "rev (remdups (map fst rs))"
  have n: "0 < n" using assms(3) by simp
  note spec = lru_gets_spec [OF n assms(1)]
  have rem: "remdups (xs @ ys) = filter (\<lambda>x. x \<notin> set ys) (remdups xs) @ remdups ys" for xs ys :: "string list"
    by (induction xs) auto
  obtain vs where "rev (remdups (map fst (before @ (sentry, fd) # rs))) = ?us @ sentry # vs"
    using assms(2) rem [of "map fst before" "sentry # map fst rs"] by (auto simp: image_iff)
  moreover have len: "length ?us < n"
    using assms(3) by (simp add: length_remdups_card_conv)
  ultimately have list: "lru_list c = ?us @ sentry # take (n - Suc (length ?us)) vs"
    using spec by (simp add: take_Cons')
  have sentry: "sentry \<in> set (lru_list c)" by (simp add: list)
  then have "lru_map c sentry \<noteq> None" using spec by (auto simp: cache_ok_def)
  then have eq: "closeUnusedFiles sentry c = close_until sentry c" by (simp add: closeUnusedFiles_def)
  have ok: "cache_ok others (close_until sentry c)"
    and "lru_list (close_until sentry c) = takeWhile (\<lambda>x. x \<noteq> sentry) (lru_list c) @ [sentry]"
    using close_until_ok [of others c sentry] spec sentry by simp_all
  moreover have "takeWhile (\<lambda>x. x \<noteq> sentry) (lru_list c) = ?us"
    using assms(2) by (auto simp: list takeWhile_append image_iff)
  moreover have "keep (close_until sentry c) = keep c"
    by (induction sentry c rule: close_until.induct) (simp add: close_until.simps map_erase_sel)
  ultimately show ?thesis unfolding eq by (auto simp: cache_ok_def)
qed

theorem snapshot_closes_unused_witness:
  "\<exists>c. lru_gets [(''x'', 3), (''/dev/null'', 4), (''y'', 5)] (new_cache 3 {}) = Some c \<and>
     lru_list (closeUnusedFiles ''/dev/null'' c) = [''y'', ''/dev/null'']"
proof -
  have "lru_gets [(''x'', 3), (''/dev/null'', 4), (''y'', 5)] (new_cache 3 {}) \<noteq> None"
    by (simp add: getFile_def getLRU_def new_cache_def File_open_def File_close_def map_erase_def open_result_def)
  then obtain c where "lru_gets [(''x'', 3), (''/dev/null'', 4), (''y'', 5)] (new_cache 3 {}) = Some c"
    by blast
  then have c: "lru_gets ([(''x'', 3)] @ (''/dev/null'', 4) # [(''y'', 5)]) (new_cache 3 {}) = Some c"
    by simp
  from snapshot_closes_unused [OF c] c show ?thesis by (intro exI [of _ c]) simp
qed

text \<open>A failed \<^verbatim>\<open>open(2)\<close> is cached too: the next requests of the name return the error
  without trying again for as long as the name stays in the cache, whereas a kept file is tried
  again.\<close>

theorem failed_open_cached:
  assumes "cache_ok others c" "0 < maxFiles c" "lru_map c name = None"
  shows "\<exists>c'. getFile (-1) name kLRU c = Some (-1, c') \<and>
    (\<forall>fd. \<exists>c''. getFile fd name kLRU c' = Some (-1, c'')) \<and>
    (keep c name = None \<longrightarrow> (\<forall>fd. fst (getKeep fd name (snd (getKeep (-1) name c))) = fd))"
proof -
  have op: "open_result c (-1)" by (simp add: open_result_def)
  obtain c' where c': "getLRU (-1) name c = Some (-1, c')" "lru_map c' name = Some (-1)"
    using getLRU_miss [OF assms(1,3) op assms(2)] by metis
  have "getLRU fd name c' = Some (-1, c'\<lparr>lru_list := name # remove1 name (lru_list c')\<rparr>)" for fd
    by (simp add: getLRU_def c'(2))
  moreover have "keep c name = None \<longrightarrow> (\<forall>fd. fst (getKeep fd name (snd (getKeep (-1) name c))) = fd)"
    by (simp add: getKeep_def File_open_def Let_def)
  ultimately show ?thesis using c' by (simp add: getFile_def)
qed

theorem failed_open_cached_witness:
  "\<exists>c'. getFile (-1) ''/proc/7/stat'' kLRU (new_cache 9 {}) = Some (-1, c') \<and>
     (\<exists>c''. getFile 5 ''/proc/7/stat'' kLRU c' = Some (-1, c''))"
  using failed_open_cached [OF cache_ok_new [of "{}" 9], of "''/proc/7/stat''"] by (simp add: new_cache_def) blast

end
