(* ===== verification/ProcFs.thy ===== *)
theory ProcFs
  imports ProcReaders FileCache "HOL-Library.Signed_Division"
begin

text \<open>
  The snapshot of the collect example (examples/collect/ProcFs.h, ProcFs.cc): what it reads of
  /proc and how it fills the messages of collect.proto. The operating system is a record of
  functions (\<open>os\<close>): what opening a file returns, the contents of a file (\<open>None\<close> if it cannot
  be read), the names in /proc, the target of a symbolic link, the clock and the times already
  in milliseconds, and the six numbers of the load average, three of which are floating
  point numbers that the code turns into thousandths.

  \<open>None\<close> is a failing assertion, or, for the loop of \<^verbatim>\<open>fillMemory\<close>, a loop that does not end.
  Products of the kernel's counters are mathematical integers: signed overflow, which is
  undefined, is not modelled.
\<close>

section \<open>Messages\<close>

datatype SnapshotRequest_Level =
  kSystemInfoOnly | kSystemInfoAndProcesses | kSystemInfoAndThreads | kSystemInfoInitialSnapshot

definition level_number :: "SnapshotRequest_Level \<Rightarrow> nat" where
  "level_number l = (case l of kSystemInfoOnly \<Rightarrow> 0 | kSystemInfoAndProcesses \<Rightarrow> 1
     | kSystemInfoAndThreads \<Rightarrow> 2 | kSystemInfoInitialSnapshot \<Rightarrow> 3)"

text \<open>The levels are compared by their numbers.\<close>

instantiation SnapshotRequest_Level :: linorder
begin

definition less_eq_SnapshotRequest_Level :: "SnapshotRequest_Level \<Rightarrow> SnapshotRequest_Level \<Rightarrow> bool" where
  "less_eq_SnapshotRequest_Level a b \<longleftrightarrow> level_number a \<le> level_number b"

definition less_SnapshotRequest_Level :: "SnapshotRequest_Level \<Rightarrow> SnapshotRequest_Level \<Rightarrow> bool" where
  "less_SnapshotRequest_Level a b \<longleftrightarrow> level_number a < level_number b"

instance
proof
  fix a b c :: SnapshotRequest_Level
  have inj: "level_number a = level_number b \<Longrightarrow> a = b" for a b
    by (cases a; cases b) (simp_all add: level_number_def)
  show "a < b \<longleftrightarrow> a \<le> b \<and> \<not> b \<le> a"
    by (auto simp: less_eq_SnapshotRequest_Level_def less_SnapshotRequest_Level_def)
  show "a \<le> a" by (simp add: less_eq_SnapshotRequest_Level_def)
  show "a \<le> b \<Longrightarrow> b \<le> c \<Longrightarrow> a \<le> c" by (simp add: less_eq_SnapshotRequest_Level_def)
  show "a \<le> b \<Longrightarrow> b \<le> a \<Longrightarrow> a = b" by (simp add: less_eq_SnapshotRequest_Level_def inj)
  show "a \<le> b \<or> b \<le> a" by (auto simp: less_eq_SnapshotRequest_Level_def)
qed

end

record memory_info =
  mi_total_kb :: "int option"
  mi_free_kb :: "int option"
  mi_buffers_kb :: "int option"
  mi_cached_kb :: "int option"
  mi_swap_total_kb :: "int option"
  mi_swap_free_kb :: "int option"
  mi_swap_cached_kb :: "int option"

definition no_memory :: memory_info where
  "no_memory = \<lparr>mi_total_kb = None, mi_free_kb = None, mi_buffers_kb = None, mi_cached_kb = None,
     mi_swap_total_kb = None, mi_swap_free_kb = None, mi_swap_cached_kb = None\<rparr>"

text \<open>The seven times of a processor, in the order of the message, if they were read.\<close>

type_synonym cpu_info = "int list option"

record performance =
  pf_loadavg :: "(int \<times> int \<times> int) option"
  pf_tasks :: "(int \<times> int \<times> int) option"
  pf_boot_time :: "int option"
  pf_context_switches :: "int option"
  pf_processes_created :: "int option"
  pf_processes_running :: "int option"
  pf_processes_blocked :: "int option"

definition no_performance :: performance where
  "no_performance = \<lparr>pf_loadavg = None, pf_tasks = None, pf_boot_time = None,
     pf_context_switches = None, pf_processes_created = None, pf_processes_running = None,
     pf_processes_blocked = None\<rparr>"

record process_basic =
  pb_ppid :: int
  pb_starttime :: int
  pb_name :: string
  pb_cmdline :: "string list"
  pb_executable :: "string option"

record process_info =
  pi_pid :: int
  pi_state :: char
  pi_minor_page_faults :: int
  pi_major_page_faults :: int
  pi_user_cpu_ms :: int
  pi_sys_cpu_ms :: int
  pi_num_threads :: int
  pi_vsize_kb :: int
  pi_rss_kb :: int
  pi_last_processor :: int
  pi_basic :: "process_basic option"

record system_info =
  si_kernel_version :: "string option"
  si_kernel_cmdline :: "string option"
  si_cpuinfo :: "string option"
  si_performance :: performance
  si_all_cpu :: "cpu_info option"
  si_cpus :: "cpu_info list"
  si_muduo_timestamp :: "int option"
  si_memory :: memory_info
  si_processes :: "process_info list"
  si_user_cpu_ms :: "int option"
  si_sys_cpu_ms :: "int option"

definition no_info :: system_info where
  "no_info = \<lparr>si_kernel_version = None, si_kernel_cmdline = None, si_cpuinfo = None,
     si_performance = no_performance, si_all_cpu = None, si_cpus = [], si_muduo_timestamp = None,
     si_memory = no_memory, si_processes = [], si_user_cpu_ms = None, si_sys_cpu_ms = None\<rparr>"

section \<open>State and files\<close>

record os =
  os_open :: "string \<Rightarrow> file_cache \<Rightarrow> int"
  os_content :: "string \<Rightarrow> string option"
  os_proc_dir :: "string list"
  os_readlink :: "string \<Rightarrow> string option"
  os_now :: int
  os_user_ms :: int
  os_sys_ms :: int
  os_loadavg :: "string \<Rightarrow> ((int \<times> int \<times> int) \<times> int \<times> int \<times> int) option"

record procfs =
  millisecondsPerTick :: int
  kbPerPage :: int
  file_cache :: file_cache
  starttimes :: "int \<rightharpoonup> int"
  snapshots :: int
  scratch_name :: string
  scratch_content :: string

text \<open>The constructor, with the clock ticks per second, the page size and the limit of open
  files; it aborts (\<open>None\<close>) if one of the first two does not divide.\<close>

definition new_procfs :: "int \<Rightarrow> int \<Rightarrow> int \<Rightarrow> int set \<Rightarrow> procfs option" where
  "new_procfs hz pageSize maxOpenFiles others =
     (if 1000 mod hz \<noteq> 0 \<or> pageSize mod 1024 \<noteq> 0 then None
      else Some \<lparr>millisecondsPerTick = 1000 div hz, kbPerPage = pageSize div 1024,
        file_cache = new_cache (nat (min 1000 (maxOpenFiles - 100) mod 2 ^ 32)) others,
        starttimes = Map.empty, snapshots = 0, scratch_name = [], scratch_content = []\<rparr>)"

text \<open>A buffer of 64 KiB takes the beginning of a file.\<close>

definition buffer_text :: "string \<Rightarrow> string" where
  "buffer_text content = take (64 * 1024) content"

fun take_int :: "int \<Rightarrow> 'a list \<Rightarrow> 'a list" where
  "take_int n [] = []"
| "take_int n (x # xs) = (if n \<le> 0 then [] else x # take_int (n - 1) xs)"

lemma take_int: "take_int n xs = take (nat n) xs"
  by (induction n xs rule: take_int.induct) (auto simp: take_Cons' nat_diff_distrib)

lemma buffer_text_code [code]: "buffer_text content = take_int 65536 content"
  by (simp add: buffer_text_def take_int)

text \<open>\<^verbatim>\<open>readFile\<close> reads at most 64 KiB; its result says whether it set \<^verbatim>\<open>content_\<close>.\<close>

definition readFile :: "os \<Rightarrow> string \<Rightarrow> CacheLevel \<Rightarrow> procfs \<Rightarrow> (bool \<times> procfs) option" where
  "readFile env filename cache p =
     (if cache = kNoCache then
        Some (case os_content env filename of
            None \<Rightarrow> (False, p)
          | Some text \<Rightarrow> (True, p\<lparr>scratch_content := buffer_text text\<rparr>))
      else
        (case getFile (os_open env filename (file_cache p)) filename cache (file_cache p) of
           None \<Rightarrow> None
         | Some (fd, c) \<Rightarrow>
             (let p = p\<lparr>file_cache := c\<rparr> in
              Some (if 0 \<le> fd then
                (case os_content env filename of
                   Some text \<Rightarrow> (True, p\<lparr>scratch_content := buffer_text text\<rparr>)
                 | None \<Rightarrow> (False, p\<lparr>file_cache := closeFile filename c\<rparr>))
               else (False, p)))))"

definition chomp :: "string \<Rightarrow> string" where
  "chomp text = (if text \<noteq> [] \<and> last text = newline then butlast text else text)"

section \<open>Memory\<close>

text \<open>The part of \<^verbatim>\<open>fillMemory\<close> before its loop, the loop, and the part after it.\<close>

definition memory_head :: "line_reader \<Rightarrow> memory_info \<Rightarrow> line_reader \<times> memory_info" where
  "memory_head r m =
     (let m = (if lr_key r = ''MemTotal:'' then m\<lparr>mi_total_kb := Some (valueAsInt64 r)\<rparr> else m);
          r = line_next r;
          m = (if lr_key r = ''MemFree:'' then m\<lparr>mi_free_kb := Some (valueAsInt64 r)\<rparr> else m);
          r = line_next r;
          m = (if lr_key r = ''Buffers:'' then m\<lparr>mi_buffers_kb := Some (valueAsInt64 r)\<rparr> else m);
          r = line_next r;
          m = (if lr_key r = ''Cached:'' then m\<lparr>mi_cached_kb := Some (valueAsInt64 r)\<rparr> else m);
          r = line_next r;
          m = (if lr_key r = ''SwapCached:'' then m\<lparr>mi_swap_cached_kb := Some (valueAsInt64 r)\<rparr> else m)
      in (line_next r, m))"

partial_function (option) skip_to :: "string \<Rightarrow> line_reader \<Rightarrow> line_reader option" where
  "skip_to key r = (if lr_key r \<noteq> key then skip_to key (line_next r) else Some r)"

declare skip_to.simps [code]

definition memory_tail :: "line_reader \<Rightarrow> memory_info \<Rightarrow> memory_info" where
  "memory_tail r m =
     (let m = (if lr_key r = ''SwapTotal:'' then m\<lparr>mi_swap_total_kb := Some (valueAsInt64 r)\<rparr> else m);
          r = line_next r
      in if lr_key r = ''SwapFree:'' then m\<lparr>mi_swap_free_kb := Some (valueAsInt64 r)\<rparr> else m)"

definition parse_memory :: "string \<Rightarrow> memory_info \<Rightarrow> memory_info option" where
  "parse_memory content m =
     (let (r, m) = memory_head (LineReader content) m
      in map_option (\<lambda>r. memory_tail r m) (skip_to ''SwapTotal:'' r))"

definition fillMemory :: "os \<Rightarrow> system_info \<Rightarrow> procfs \<Rightarrow> (system_info \<times> procfs) option" where
  "fillMemory env info p =
     (case readFile env ''/proc/meminfo'' kKeep p of
        None \<Rightarrow> None
      | Some (ok, p) \<Rightarrow>
          if ok then map_option (\<lambda>m. (info\<lparr>si_memory := m\<rparr>, p)) (parse_memory (scratch_content p) (si_memory info))
          else Some (info, p))"

section \<open>Load, processors and counters\<close>

definition fillInitial :: "os \<Rightarrow> system_info \<Rightarrow> procfs \<Rightarrow> (system_info \<times> procfs) option" where
  "fillInitial env info p = do {
     (ok, p) \<leftarrow> readFile env ''/proc/version'' kNoCache p;
     let info = (if ok then info\<lparr>si_kernel_version := Some (chomp (scratch_content p))\<rparr> else info);
     let p = (if ok then p\<lparr>scratch_content := chomp (scratch_content p)\<rparr> else p);
     (ok, p) \<leftarrow> readFile env ''/proc/cmdline'' kNoCache p;
     let info = (if ok then info\<lparr>si_kernel_cmdline := Some (chomp (scratch_content p))\<rparr> else info);
     let p = (if ok then p\<lparr>scratch_content := chomp (scratch_content p)\<rparr> else p);
     (ok, p) \<leftarrow> readFile env ''/proc/cpuinfo'' kNoCache p;
     let info = (if ok then info\<lparr>si_cpuinfo := Some (scratch_content p)\<rparr> else info);
     Some (info, p)
   }"

definition fillLoadAvg :: "os \<Rightarrow> system_info \<Rightarrow> procfs \<Rightarrow> (system_info \<times> procfs) option" where
  "fillLoadAvg env info p = do {
     (ok, p) \<leftarrow> readFile env ''/proc/loadavg'' kKeep p;
     Some (if ok then
       (case os_loadavg env (scratch_content p) of
          Some (avgs, tasks) \<Rightarrow>
            (info\<lparr>si_performance := (si_performance info)\<lparr>pf_loadavg := Some avgs, pf_tasks := Some tasks\<rparr>\<rparr>, p)
        | None \<Rightarrow> (info, p))
      else (info, p))
   }"

definition fillCpu :: "int \<Rightarrow> string \<Rightarrow> cpu_info \<Rightarrow> cpu_info" where
  "fillCpu msPerTick value' cpu =
     (let xs = scan_longs 7 value'
      in if length xs = 7 then Some (map (\<lambda>x. x * msPerTick) xs) else cpu)"

function fill_cpus :: "int \<Rightarrow> line_reader \<Rightarrow> cpu_info list \<Rightarrow> line_reader \<times> cpu_info list" where
  "fill_cpus msPerTick r cpus =
     (if take 3 (lr_key r) = ''cpu''
      then fill_cpus msPerTick (line_next r) (cpus @ [fillCpu msPerTick (lr_value r) None])
      else (r, cpus))"
  by pat_completeness auto
termination
proof (relation "measure (\<lambda>(ms, r, cpus). line_measure r)", goal_cases)
  case (2 ms r cpus)
  then have "lr_key r \<noteq> []" by auto
  then show ?case by (simp add: line_next_measure)
qed simp

declare fill_cpus.simps [simp del]

definition stat_counters :: "line_reader \<Rightarrow> performance \<Rightarrow> performance" where
  "stat_counters r perf =
     (let r = line_next r;
          perf = (if lr_key r = ''ctxt'' then perf\<lparr>pf_context_switches := Some (valueAsInt64 r)\<rparr> else perf);
          r = line_next r;
          perf = (if lr_key r = ''btime'' then perf\<lparr>pf_boot_time := Some (valueAsInt64 r)\<rparr> else perf);
          r = line_next r;
          perf = (if lr_key r = ''processes'' then perf\<lparr>pf_processes_created := Some (valueAsInt64 r)\<rparr> else perf);
          r = line_next r;
          perf = (if lr_key r = ''procs_running'' then perf\<lparr>pf_processes_running := Some (valueAsInt32 r)\<rparr> else perf);
          r = line_next r
      in if lr_key r = ''procs_blocked'' then perf\<lparr>pf_processes_blocked := Some (valueAsInt32 r)\<rparr> else perf)"

definition parse_stat :: "int \<Rightarrow> string \<Rightarrow> system_info \<Rightarrow> system_info" where
  "parse_stat msPerTick content info =
     (let r = LineReader content;
          info = (if lr_key r = ''cpu''
            then info\<lparr>si_all_cpu := Some (fillCpu msPerTick (lr_value r)
              (case si_all_cpu info of None \<Rightarrow> None | Some c \<Rightarrow> c))\<rparr>
            else info);
          (r, cpus) = fill_cpus msPerTick (line_next r) (si_cpus info)
      in info\<lparr>si_cpus := cpus, si_performance := stat_counters r (si_performance info)\<rparr>)"

definition fillStat :: "os \<Rightarrow> system_info \<Rightarrow> procfs \<Rightarrow> (system_info \<times> procfs) option" where
  "fillStat env info p = do {
     (ok, p) \<leftarrow> readFile env ''/proc/stat'' kKeep p;
     Some (if ok then (parse_stat (millisecondsPerTick p) (scratch_content p) info, p) else (info, p))
   }"

section \<open>Processes\<close>

text \<open>\<^verbatim>\<open>n\<close> calls of \<^verbatim>\<open>next()\<close> in a row.\<close>

fun field_skip :: "nat \<Rightarrow> string \<Rightarrow> string option" where
  "field_skip 0 r = Some r"
| "field_skip (Suc n) r = do { r \<leftarrow> field_next r; field_skip n r }"

record stat_fields =
  sf_pid :: int
  sf_name :: string
  sf_state :: char
  sf_ppid :: int
  sf_minflt :: int
  sf_majflt :: int
  sf_utime :: int
  sf_stime :: int
  sf_num_threads :: int
  sf_starttime :: int
  sf_vsize :: int
  sf_rss :: int
  sf_processor :: int

text \<open>What \<^verbatim>\<open>fillProcess\<close> reads, in its order; the name starts as the scratch name.\<close>

definition read_stat :: "string \<Rightarrow> string \<Rightarrow> stat_fields option" where
  "read_stat content name = do {
     (pid, r) \<leftarrow> readInt32 content;
     (name, r) \<leftarrow> readName r name;
     let state = (if r = [] then CHR 0x00 else hd r);
     r \<leftarrow> field_next r;
     (ppid, r) \<leftarrow> readInt32 r;
     r \<leftarrow> field_skip 5 r;
     (minflt, r) \<leftarrow> readInt64 r;
     r \<leftarrow> field_next r;
     (majflt, r) \<leftarrow> readInt64 r;
     r \<leftarrow> field_next r;
     (utime, r) \<leftarrow> readInt64 r;
     (stime, r) \<leftarrow> readInt64 r;
     r \<leftarrow> field_skip 4 r;
     (num_threads, r) \<leftarrow> readInt32 r;
     r \<leftarrow> field_next r;
     (starttime, r) \<leftarrow> readInt64 r;
     (vsize, r) \<leftarrow> readInt64 r;
     (rss, r) \<leftarrow> readInt64 r;
     r \<leftarrow> field_skip 10 r;
     (wait_channel, r) \<leftarrow> readInt64 r;
     r \<leftarrow> field_skip 3 r;
     (processor, r) \<leftarrow> readInt32 r;
     Some \<lparr>sf_pid = pid, sf_name = name, sf_state = state, sf_ppid = ppid, sf_minflt = minflt,
       sf_majflt = majflt, sf_utime = utime, sf_stime = stime, sf_num_threads = num_threads,
       sf_starttime = starttime, sf_vsize = vsize, sf_rss = rss, sf_processor = processor\<rparr>
   }"

definition proc_path :: "int \<Rightarrow> string \<Rightarrow> string" where
  "proc_path pid file' = ''/proc/'' @ show_int pid @ ''/'' @ file'"

text \<open>The loop of \<^verbatim>\<open>fillCmdline\<close> over the strings that end with a NUL.\<close>

definition cmdline_args :: "string \<Rightarrow> string list" where
  "cmdline_args content =
     (let ps = split_at CHR 0x00 content in if last ps = [] then butlast ps else ps)"

definition fillCmdline :: "os \<Rightarrow> int \<Rightarrow> process_basic \<Rightarrow> procfs \<Rightarrow> (process_basic \<times> procfs) option" where
  "fillCmdline env pid basic p = do {
     (ok, p) \<leftarrow> readFile env (proc_path pid ''cmdline'') kNoCache p;
     let basic = (if ok then basic\<lparr>pb_cmdline := pb_cmdline basic @ cmdline_args (scratch_content p)\<rparr> else basic);
     Some (case os_readlink env (proc_path pid ''exe'') of
         Some target \<Rightarrow> (if target \<noteq> [] then basic\<lparr>pb_executable := Some (take 1024 target)\<rparr> else basic, p)
       | None \<Rightarrow> (basic, p))
   }"

definition fillProcess :: "os \<Rightarrow> procfs \<Rightarrow> (process_info \<times> procfs) option" where
  "fillProcess env p = do {
     f \<leftarrow> read_stat (scratch_content p) (scratch_name p);
     let p = p\<lparr>scratch_name := sf_name f\<rparr>;
     let info = \<lparr>pi_pid = sf_pid f, pi_state = sf_state f, pi_minor_page_faults = sf_minflt f,
       pi_major_page_faults = sf_majflt f, pi_user_cpu_ms = sf_utime f * millisecondsPerTick p,
       pi_sys_cpu_ms = sf_stime f * millisecondsPerTick p, pi_num_threads = sf_num_threads f,
       pi_vsize_kb = sf_vsize f sdiv 1024, pi_rss_kb = sf_rss f * kbPerPage p,
       pi_last_processor = sf_processor f, pi_basic = None\<rparr>;
     if starttimes p (sf_pid f) \<noteq> Some (sf_starttime f) then do {
       let p = p\<lparr>starttimes := (starttimes p)(sf_pid f \<mapsto> sf_starttime f)\<rparr>;
       (basic, p) \<leftarrow> fillCmdline env (sf_pid f) \<lparr>pb_ppid = sf_ppid f, pb_starttime = sf_starttime f,
         pb_name = sf_name f, pb_cmdline = [], pb_executable = None\<rparr> p;
       Some (info\<lparr>pi_basic := Some basic\<rparr>, p)
     }
     else Some (info, p)
   }"

text \<open>The loop over /proc; \<^verbatim>\<open>snprintf\<close> cuts the name at 63 characters.\<close>

fun fill_processes :: "os \<Rightarrow> string list \<Rightarrow> system_info \<Rightarrow> procfs \<Rightarrow> (system_info \<times> procfs) option" where
  "fill_processes env [] info p = Some (info, p)"
| "fill_processes env (name # names) info p =
     (if name \<noteq> [] \<and> isdigit (hd name) then do {
        (ok, p) \<leftarrow> readFile env (take 63 (''/proc/'' @ name @ ''/stat'')) kLRU p;
        if ok then do {
          (proc, p) \<leftarrow> fillProcess env p;
          fill_processes env names (info\<lparr>si_processes := si_processes info @ [proc]\<rparr>) p
        }
        else fill_processes env names info p
      }
      else fill_processes env names info p)"

definition fillProcesses :: "os \<Rightarrow> system_info \<Rightarrow> procfs \<Rightarrow> (system_info \<times> procfs) option" where
  "fillProcesses env info p = fill_processes env (os_proc_dir env) info p"

section \<open>The snapshot\<close>

definition dev_null :: string where
  "dev_null = ''/dev/null''"

definition fill :: "os \<Rightarrow> SnapshotRequest_Level \<Rightarrow> system_info \<Rightarrow> procfs \<Rightarrow> (system_info \<times> procfs) option" where
  "fill env level info p = do {
     let p = p\<lparr>snapshots := snapshots p + 1\<rparr>;
     let p = (if 60 \<le> snapshots p then p\<lparr>snapshots := 0, starttimes := Map.empty\<rparr> else p);
     c \<leftarrow> setSentryFile (os_open env dev_null (file_cache p)) dev_null (file_cache p);
     let p = p\<lparr>file_cache := c\<rparr>;
     let info = info\<lparr>si_muduo_timestamp := Some (os_now env), si_user_cpu_ms := Some (os_user_ms env),
       si_sys_cpu_ms := Some (os_sys_ms env)\<rparr>;
     (info, p) \<leftarrow> (if kSystemInfoAndProcesses \<le> level then fillProcesses env info p else Some (info, p));
     (info, p) \<leftarrow> (if kSystemInfoInitialSnapshot \<le> level then fillInitial env info p else Some (info, p));
     (info, p) \<leftarrow> fillLoadAvg env info p;
     (info, p) \<leftarrow> fillMemory env info p;
     (info, p) \<leftarrow> fillStat env info p;
     Some (info, p\<lparr>file_cache := closeUnusedFiles dev_null (file_cache p)\<rparr>)
   }"

end
