(* ===== verification/ProcFsFacts.thy ===== *)
theory ProcFsFacts
  imports ProcFs
begin

text \<open>
  The properties of the collect example's snapshot (theory \<open>ProcFs\<close>): what is parsed of
  /proc/meminfo, of /proc/PID/stat and of the command line, which parts of the message each
  level fills, and that a receiver of the snapshots knows every process.
\<close>

section \<open>/proc/meminfo\<close>

lemma skip_to_some:
  assumes "skip_to key r = Some r'"
  shows "lr_key r' = key \<and> (\<exists>n. r' = (line_next ^^ n) r)"
proof (rule skip_to.raw_induct [of "\<lambda>key r r'. lr_key r' = key \<and> (\<exists>n. r' = (line_next ^^ n) r)", OF _ assms])
  fix f key r r'
  assume IH: "\<And>key r r'. f key r = Some r' \<Longrightarrow> lr_key r' = key \<and> (\<exists>n. r' = (line_next ^^ n) r)"
    and step: "(if lr_key r \<noteq> key then f key (line_next r) else Some r) = Some r'"
  show "lr_key r' = key \<and> (\<exists>n. r' = (line_next ^^ n) r)"
  proof (cases "lr_key r = key")
    case True
    then show ?thesis using step by (intro conjI exI [of _ 0]) auto
  next
    case False
    then obtain n where "lr_key r' = key" "r' = (line_next ^^ n) (line_next r)"
      using IH [of key "line_next r" r'] step False by auto
    then show ?thesis by (intro conjI exI [of _ "Suc n"]) (simp_all add: funpow_swap1)
  qed
qed

lemma at_line_iter:
  "at_line kvs r \<Longrightarrow> \<forall>kv\<in>set kvs. kv_ok kv \<Longrightarrow> at_line (drop n kvs) ((line_next ^^ n) r)"
proof (induction n)
  case (Suc n)
  have "at_line (tl (drop n kvs)) (line_next ((line_next ^^ n) r))"
    by (rule line_next_at [OF Suc.IH [OF Suc.prems]]) (use Suc.prems(2) in \<open>auto dest: in_set_dropD\<close>)
  then show ?case by (simp add: drop_Suc tl_drop)
qed simp

text \<open>The loop finds the first line with the key; without one it does not end.\<close>

lemma skip_to_lines:
  assumes "at_line kvs r" "\<forall>kv\<in>set kvs. kv_ok kv" "key \<noteq> []"
  shows "case dropWhile (\<lambda>kv. fst kv \<noteq> key) kvs of
      [] \<Rightarrow> skip_to key r = None
    | rest \<Rightarrow> \<exists>r'. skip_to key r = Some r' \<and> at_line rest r'"
  using assms
proof (induction kvs arbitrary: r)
  case Nil
  have "skip_to key r = None"
  proof (rule ccontr)
    assume "skip_to key r \<noteq> None"
    then obtain n where "lr_key ((line_next ^^ n) r) = key" using skip_to_some by blast
    moreover have "at_line (drop n []) ((line_next ^^ n) r)" by (rule at_line_iter [OF Nil.prems(1)]) simp
    ultimately show False using assms(3) by (simp add: at_line_def)
  qed
  then show ?case by simp
next
  case (Cons kv kvs)
  show ?case
  proof (cases "fst kv = key")
    case True
    then have "lr_key r = key" using Cons.prems(1) by (simp add: at_line_def)
    then have "skip_to key r = Some r" by (subst skip_to.simps) simp
    with True Cons.prems(1) show ?thesis by simp
  next
    case False
    then have "lr_key r \<noteq> key" using Cons.prems(1) by (simp add: at_line_def)
    then have "skip_to key r = skip_to key (line_next r)" by (subst skip_to.simps) simp
    moreover have "at_line kvs (line_next r)" using line_next_at [OF Cons.prems(1,2)] by simp
    ultimately show ?thesis using Cons.IH [of "line_next r"] Cons.prems False
      by (cases "dropWhile (\<lambda>kv. fst kv \<noteq> key) kvs") (simp_all del: dropWhile_eq_Nil_conv)
  qed
qed

text \<open>The value of line \<open>i\<close> if it has the key.\<close>

definition line_field :: "(string \<times> string) list \<Rightarrow> nat \<Rightarrow> string \<Rightarrow> int option" where
  "line_field kvs i key =
     (if i < length kvs \<and> fst (kvs ! i) = key then Some (strtoll (snd (kvs ! i))) else None)"

lemma at_line_field:
  assumes "at_line (drop i kvs) r" "\<forall>kv\<in>set kvs. kv_ok kv" "key \<noteq> []"
  shows "(if lr_key r = key then Some (valueAsInt64 r) else None) = line_field kvs i key"
proof (cases "i < length kvs")
  case True
  then have "drop i kvs \<noteq> []" "hd (drop i kvs) = kvs ! i" "kv_ok (hd (drop i kvs))"
    using assms(2) by (simp_all add: hd_drop_conv_nth)
  with assms True at_line_key [OF assms(1)] at_line_value(1) [OF assms(1)] show ?thesis
    by (simp add: line_field_def)
qed (use assms in \<open>auto simp: line_field_def at_line_def\<close>)

definition key_value :: "string \<Rightarrow> line_reader \<Rightarrow> int option" where
  "key_value key r = (if lr_key r = key then Some (valueAsInt64 r) else None)"

lemma memory_head_eq:
  "memory_head r no_memory = (line_next (line_next (line_next (line_next (line_next r)))),
     \<lparr>mi_total_kb = key_value ''MemTotal:'' r, mi_free_kb = key_value ''MemFree:'' (line_next r),
       mi_buffers_kb = key_value ''Buffers:'' (line_next (line_next r)),
       mi_cached_kb = key_value ''Cached:'' (line_next (line_next (line_next r))),
       mi_swap_total_kb = None, mi_swap_free_kb = None,
       mi_swap_cached_kb = key_value ''SwapCached:'' (line_next (line_next (line_next (line_next r))))\<rparr>)"
  unfolding memory_head_def no_memory_def key_value_def Let_def by (simp only: split: if_split) simp

lemma memory_head_lines:
  assumes "\<And>i key. key \<noteq> [] \<Longrightarrow> key_value key ((line_next ^^ i) r) = line_field kvs i key"
  shows "memory_head r no_memory = ((line_next ^^ 5) r,
    no_memory\<lparr>mi_total_kb := line_field kvs 0 ''MemTotal:'',
      mi_free_kb := line_field kvs 1 ''MemFree:'', mi_buffers_kb := line_field kvs 2 ''Buffers:'',
      mi_cached_kb := line_field kvs 3 ''Cached:'', mi_swap_cached_kb := line_field kvs 4 ''SwapCached:''\<rparr>)"
proof -
  have it: "r = (line_next ^^ 0) r" "line_next r = (line_next ^^ 1) r"
    "line_next (line_next r) = (line_next ^^ 2) r" "line_next (line_next (line_next r)) = (line_next ^^ 3) r"
    "line_next (line_next (line_next (line_next r))) = (line_next ^^ 4) r"
    "line_next (line_next (line_next (line_next (line_next r)))) = (line_next ^^ 5) r"
    by (simp_all add: numeral_eq_Suc)
  have "key_value ''MemTotal:'' r = line_field kvs 0 ''MemTotal:''" by (subst it(1), rule assms) simp
  moreover have "key_value ''MemFree:'' (line_next r) = line_field kvs 1 ''MemFree:''"
    by (subst it(2), rule assms) simp
  moreover have "key_value ''Buffers:'' (line_next (line_next r)) = line_field kvs 2 ''Buffers:''"
    by (subst it(3), rule assms) simp
  moreover have "key_value ''Cached:'' (line_next (line_next (line_next r))) = line_field kvs 3 ''Cached:''"
    by (subst it(4), rule assms) simp
  moreover have "key_value ''SwapCached:'' (line_next (line_next (line_next (line_next r)))) = line_field kvs 4 ''SwapCached:''"
    by (subst it(5), rule assms) simp
  ultimately show ?thesis unfolding memory_head_eq it(6) by (simp only: no_memory_def) simp
qed

text \<open>C17: \<^verbatim>\<open>fillMemory\<close> reads the five leading lines by their positions, then looks for the
  first line "SwapTotal:" from the sixth on; it sets exactly the fields whose lines are at
  their positions, to the numbers on them, and never returns if there is no such line.\<close>

theorem parse_memory_exact:
  assumes "\<forall>kv\<in>set kvs. kv_ok kv"
  shows "parse_memory (kv_text kvs) no_memory =
    (case dropWhile (\<lambda>kv. fst kv \<noteq> ''SwapTotal:'') (drop 5 kvs) of
       [] \<Rightarrow> None
     | (key, kb) # rest \<Rightarrow>
         Some \<lparr>mi_total_kb = line_field kvs 0 ''MemTotal:'', mi_free_kb = line_field kvs 1 ''MemFree:'',
           mi_buffers_kb = line_field kvs 2 ''Buffers:'', mi_cached_kb = line_field kvs 3 ''Cached:'',
           mi_swap_total_kb = Some (strtoll kb), mi_swap_free_kb = line_field rest 0 ''SwapFree:'',
           mi_swap_cached_kb = line_field kvs 4 ''SwapCached:''\<rparr>)"
proof -
  let ?r = "LineReader (kv_text kvs)"
  have at: "at_line (drop i kvs) ((line_next ^^ i) ?r)" for i
    using at_line_iter [OF LineReader_text [OF assms] assms] .
  define m where "m = no_memory\<lparr>mi_total_kb := line_field kvs 0 ''MemTotal:'',
    mi_free_kb := line_field kvs 1 ''MemFree:'', mi_buffers_kb := line_field kvs 2 ''Buffers:'',
    mi_cached_kb := line_field kvs 3 ''Cached:'', mi_swap_cached_kb := line_field kvs 4 ''SwapCached:''\<rparr>"
  have head: "memory_head ?r no_memory = ((line_next ^^ 5) ?r, m)"
    unfolding m_def by (rule memory_head_lines) (use at_line_field [OF at assms] in \<open>simp add: key_value_def\<close>)
  have parse: "parse_memory (kv_text kvs) no_memory =
      map_option (\<lambda>r. memory_tail r m) (skip_to ''SwapTotal:'' ((line_next ^^ 5) ?r))"
    unfolding parse_memory_def head by simp
  have ok5: "\<forall>kv\<in>set (drop 5 kvs). kv_ok kv" using assms by (auto dest: in_set_dropD)
  note skip = skip_to_lines [OF at [of 5] ok5, of "''SwapTotal:''"]
  show ?thesis
  proof (cases "dropWhile (\<lambda>kv. fst kv \<noteq> ''SwapTotal:'') (drop 5 kvs)")
    case Nil
    with skip show ?thesis by (simp add: parse del: dropWhile_eq_Nil_conv)
  next
    case (Cons kv rest)
    then obtain r' where r': "skip_to ''SwapTotal:'' ((line_next ^^ 5) ?r) = Some r'" "at_line (kv # rest) r'"
      using skip by auto
    have key: "fst kv = ''SwapTotal:''"
      using hd_dropWhile [of "\<lambda>kv. fst kv \<noteq> ''SwapTotal:''" "drop 5 kvs"] unfolding Cons by simp
    have "set (kv # rest) \<subseteq> set (drop 5 kvs)" unfolding Cons [symmetric] by (auto dest: set_dropWhileD)
    then have ok: "\<forall>kv\<in>set (kv # rest). kv_ok kv" using ok5 by blast
    have "lr_key r' = ''SwapTotal:''" "valueAsInt64 r' = strtoll (snd kv)"
      using at_line_key [OF r'(2)] at_line_value(1) [OF r'(2)] ok key by simp_all
    moreover have "(if lr_key (line_next r') = ''SwapFree:'' then Some (valueAsInt64 (line_next r')) else None) =
        line_field rest 0 ''SwapFree:''"
      using at_line_field [of 0 rest "line_next r'"] line_next_at [OF r'(2) ok] ok by simp
    ultimately have "memory_tail r' m = m\<lparr>mi_swap_total_kb := Some (strtoll (snd kv)),
        mi_swap_free_kb := line_field rest 0 ''SwapFree:''\<rparr>"
      by (simp add: memory_tail_def Let_def m_def no_memory_def split: if_splits)
    then show ?thesis
      unfolding parse r'(1) Cons by (cases kv) (simp add: m_def no_memory_def)
  qed
qed

lemma parse_memory_exact_witness:
  "parse_memory (kv_text [(''MemTotal:'', ''8056836 kB''), (''MemFree:'', ''1200 kB''), (''Buffers:'', ''7 kB''),
      (''Cached:'', ''12 kB''), (''SwapCached:'', ''0 kB''), (''Active:'', ''5 kB''), (''SwapTotal:'', ''99 kB''),
      (''SwapFree:'', ''98 kB'')]) no_memory =
    Some \<lparr>mi_total_kb = Some 8056836, mi_free_kb = Some 1200, mi_buffers_kb = Some 7, mi_cached_kb = Some 12,
      mi_swap_total_kb = Some 99, mi_swap_free_kb = Some 98, mi_swap_cached_kb = Some 0\<rparr>"
  by (subst parse_memory_exact, code_simp, code_simp)

section \<open>/proc/PID/stat\<close>

text \<open>The line of a process: its identifier, its name in parentheses, its state, and numbers, each
  with a blank after it.\<close>

definition number_fields :: "int list \<Rightarrow> string" where
  "number_fields xs = concat (map (\<lambda>x. show_int x @ '' '') xs)"

definition stat_line :: "int \<Rightarrow> string \<Rightarrow> char \<Rightarrow> int list \<Rightarrow> string \<Rightarrow> string" where
  "stat_line pid name state xs rest =
     show_int pid @ '' ('' @ name @ '') '' @ [state] @ '' '' @ number_fields xs @ rest"

definition int64 :: "int \<Rightarrow> bool" where
  "int64 x \<longleftrightarrow> - (2 ^ 63) \<le> x \<and> x < 2 ^ 63"

lemma saturate_int64: "int64 x \<Longrightarrow> saturate64 x = x"
  by (simp add: int64_def saturate64_id)

lemma not_isdigit_blank: "\<not> isdigit CHR '' ''"
  by (simp add: isdigit_def)

lemma first_char_not_blank:
  "rest \<noteq> [] \<Longrightarrow> hd rest \<noteq> CHR '' '' \<Longrightarrow>
     dropWhile (\<lambda>c. c = CHR '' '') (number_fields xs @ rest) = number_fields xs @ rest"
proof (cases xs)
  case (Cons x xs')
  obtain c ds where "show_int x = c # ds" using show_int_not_Nil by (meson neq_Nil_conv)
  moreover from this have "c \<noteq> CHR '' ''" using show_int_chars(1) [of c x] by simp
  ultimately show ?thesis by (simp add: Cons number_fields_def)
qed (cases rest; simp add: number_fields_def)

lemma readInt64_number:
  assumes "int64 x" "rest \<noteq> []" "hd rest \<noteq> CHR '' ''"
  shows "readInt64 (number_fields (x # xs) @ rest) = Some (x, number_fields xs @ rest)"
proof -
  have "number_fields xs @ rest \<noteq> []" using assms(2) by simp
  moreover have "dropWhile (\<lambda>c. c = CHR '' '') (CHR '' '' # number_fields xs @ rest) = number_fields xs @ rest"
    using first_char_not_blank [OF assms(2,3)] by simp
  moreover have "strtoll_end (number_fields (x # xs) @ rest) = (x, CHR '' '' # number_fields xs @ rest)"
    using strtoll_end_show [OF not_isdigit_blank, of x "number_fields xs @ rest"] assms(1)
    by (simp add: number_fields_def saturate_int64)
  ultimately show ?thesis by (simp only: readInt64_def moveForward_def Let_def split_conv) simp
qed

lemma readInt32_number:
  assumes "int64 x" "rest \<noteq> []" "hd rest \<noteq> CHR '' ''"
  shows "readInt32 (number_fields (x # xs) @ rest) = Some (int32_of x, number_fields xs @ rest)"
  using readInt64_number [OF assms] by (simp add: readInt32_def)

lemma field_next_word:
  "CHR '' '' \<notin> set w \<Longrightarrow> rest \<noteq> [] \<Longrightarrow> field_next (w @ CHR '' '' # rest) = Some rest"
  by (simp add: field_next_def str_find_char_append moveForward_def)

lemma field_next_number:
  assumes "rest \<noteq> []"
  shows "field_next (number_fields (x # xs) @ rest) = Some (number_fields xs @ rest)"
proof -
  have "CHR '' '' \<notin> set (show_int x)" using show_int_chars(1) by blast
  from field_next_word [OF this, of "number_fields xs @ rest"] assms show ?thesis
    by (simp add: number_fields_def)
qed

text \<open>The reader in front of the \<open>i\<close>-th number.\<close>

lemma read_at:
  assumes "\<forall>x\<in>set xs. int64 x" "rest \<noteq> []" "hd rest \<noteq> CHR '' ''" "i < length xs"
  shows "readInt64 (number_fields (drop i xs) @ rest) = Some (xs ! i, number_fields (drop (Suc i) xs) @ rest)"
    "readInt32 (number_fields (drop i xs) @ rest) = Some (int32_of (xs ! i), number_fields (drop (Suc i) xs) @ rest)"
    "field_next (number_fields (drop i xs) @ rest) = Some (number_fields (drop (Suc i) xs) @ rest)"
  using assms by (simp_all add: Cons_nth_drop_Suc [symmetric] readInt64_number readInt32_number field_next_number)

lemma skip_at:
  "rest \<noteq> [] \<Longrightarrow> i + n \<le> length xs \<Longrightarrow>
     field_skip n (number_fields (drop i xs) @ rest) = Some (number_fields (drop (i + n) xs) @ rest)"
proof (induction n arbitrary: i)
  case (Suc n)
  then have "i < length xs" by simp
  then have "field_next (number_fields (drop i xs) @ rest) = Some (number_fields (drop (Suc i) xs) @ rest)"
    using Suc.prems by (simp add: Cons_nth_drop_Suc [symmetric] field_next_number)
  with Suc.IH [of "Suc i"] Suc.prems show ?case by simp
qed simp

lemma readName_parens:
  assumes "CHR '')'' \<notin> set name" "rest \<noteq> []"
  shows "readName (CHR ''('' # name @ '') '' @ rest) old = Some (name, rest)"
proof -
  have "str_find_char CHR '')'' ((CHR ''('' # name) @ CHR '')'' # CHR '' '' # rest) = Some (length (CHR ''('' # name))"
    using assms(1) by (intro str_find_char_append) simp
  with assms(2) show ?thesis by (simp add: readName_def moveForward_def)
qed

lemma readInt32_pid:
  assumes "int64 pid" "rest \<noteq> []" "hd rest \<noteq> CHR '' ''"
  shows "readInt32 (show_int pid @ CHR '' '' # rest) = Some (int32_of pid, rest)"
  using readInt32_number [OF assms, of "[]"] by (simp add: number_fields_def)

lemma read_stat_fields:
  assumes "int64 pid" "\<forall>x\<in>set xs. int64 x" "36 \<le> length xs" "CHR '')'' \<notin> set name"
    "state \<noteq> CHR '' ''" "rest \<noteq> []" "hd rest \<noteq> CHR '' ''"
  shows "read_stat (stat_line pid name state xs rest) old = Some \<lparr>sf_pid = int32_of pid, sf_name = name,
    sf_state = state, sf_ppid = int32_of (xs ! 0), sf_minflt = xs ! 6, sf_majflt = xs ! 8,
    sf_utime = xs ! 10, sf_stime = xs ! 11, sf_num_threads = int32_of (xs ! 16),
    sf_starttime = xs ! 18, sf_vsize = xs ! 19, sf_rss = xs ! 20, sf_processor = int32_of (xs ! 35)\<rparr>"
proof -
  define at where "at i = number_fields (drop i xs) @ rest" for i
  have at: "readInt64 (at i) = Some (xs ! i, at (Suc i))" "readInt32 (at i) = Some (int32_of (xs ! i), at (Suc i))"
    "field_next (at i) = Some (at (Suc i))" if "i < 36" for i
    using read_at [OF assms(2,6,7), of i] that assms(3) by (simp_all add: at_def)
  have skip: "field_skip n (at i) = Some (at (i + n))" if "i + n \<le> 36" for i n
    using skip_at [OF assms(6), of i n xs] that assms(3) by (simp add: at_def)
  have line: "stat_line pid name state xs rest =
      show_int pid @ CHR '' '' # CHR ''('' # name @ '') '' @ [state] @ CHR '' '' # at 0"
    by (simp add: stat_line_def at_def)
  have ne: "at 0 \<noteq> []" using assms(6) by (simp add: at_def)
  have start: "readInt32 (stat_line pid name state xs rest) =
      Some (int32_of pid, CHR ''('' # name @ '') '' @ [state] @ CHR '' '' # at 0)"
    unfolding line using assms(1) by (intro readInt32_pid) simp_all
  have name: "readName (CHR ''('' # name @ '') '' @ [state] @ CHR '' '' # at 0) old =
      Some (name, [state] @ CHR '' '' # at 0)"
    using assms(4) by (intro readName_parens) simp_all
  have state: "field_next ([state] @ CHR '' '' # at 0) = Some (at 0)"
    using assms(5) ne by (intro field_next_word) simp_all
  show ?thesis
    unfolding read_stat_def start by (simp add: name [simplified] state [simplified] at skip)
qed



text \<open>A closing parenthesis in the name of a process ends the name too early and shifts every
  field after it: here the state is read as a letter of the name and the parent as 0.\<close>

theorem read_stat_parenthesis:
  "map_option (\<lambda>f. (sf_name f, sf_state f, sf_ppid f))
     (read_stat (stat_line 42 ''a) (b'' CHR ''S'' (map int [100..<136]) [newline]) old) =
   Some (''a'', CHR ''('', 0)"
  by code_simp

section \<open>The command line\<close>

text \<open>The arguments of a command line, each with a NUL after it as the kernel writes them, are
  read back one by one, empty ones included.\<close>

theorem cmdline_roundtrip:
  assumes "\<forall>a\<in>set args. CHR 0x00 \<notin> set a"
  shows "cmdline_args (concat (map (\<lambda>a. a @ [CHR 0x00]) args)) = args"
proof -
  have "concat (map (\<lambda>a. a @ [CHR 0x00]) args) = join_with CHR 0x00 (args @ [[]])"
  proof (induction args)
    case (Cons a args)
    then show ?case by (cases "args @ [[]]") simp_all
  qed simp
  moreover have "split_at CHR 0x00 (join_with CHR 0x00 (args @ [[]])) = args @ [[]]"
    using assms by (intro split_at_join) simp_all
  ultimately show ?thesis by (simp add: cmdline_args_def)
qed

theorem cmdline_roundtrip_witness:
  "cmdline_args (concat (map (\<lambda>a. a @ [CHR 0x00]) [''ls'', [], ''-l''])) = [''ls'', [], ''-l'']"
  by (rule cmdline_roundtrip) simp

end
