(* ===== verification/ProcFsSnapshot.thy ===== *)
theory ProcFsSnapshot
  imports ProcFsFacts
begin

text \<open>
  Whole snapshots of the collect example: the file cache through \<^verbatim>\<open>ProcFs::fill\<close>, what each
  level fills, and what a receiver of the snapshots knows of every process.
\<close>

section \<open>The file cache\<close>

definition env_ok :: "os \<Rightarrow> bool" where
  "env_ok env \<longleftrightarrow> (\<forall>name c. open_result c (os_open env name c))"

text \<open>Since the sentry was requested, only the files \<open>S\<close> were.\<close>

definition since_sentry :: "int set \<Rightarrow> nat \<Rightarrow> string set \<Rightarrow> file_cache \<Rightarrow> bool" where
  "since_sentry others n S c \<longleftrightarrow> cache_ok others c \<and> maxFiles c = n \<and> 0 < n \<and>
     set (takeWhile (\<lambda>x. x \<noteq> dev_null) (lru_list c)) \<subseteq> S"

lemma takeWhile_take_subset: "set (takeWhile P (take n xs)) \<subseteq> set (takeWhile P xs)"
proof (induction xs arbitrary: n)
  case (Cons x xs)
  then show ?case by (cases n) auto
qed simp

lemma takeWhile_remove1_subset:
  "x \<noteq> s \<Longrightarrow> set (takeWhile (\<lambda>z. z \<noteq> s) (remove1 x xs)) \<subseteq> set (takeWhile (\<lambda>z. z \<noteq> s) xs)"
proof (induction xs)
  case (Cons y ys)
  then show ?case by (cases "y = s"; cases "x = y") auto
qed simp

lemma getFile_since_sentry:
  assumes "since_sentry others n S c" "open_result c fd" "getFile fd name level c = Some (r, c')"
    "level = kLRU \<longrightarrow> name \<in> S \<and> name \<noteq> dev_null"
  shows "since_sentry others n S c'"
proof -
  have ok: "cache_ok others c'" "maxFiles c' = maxFiles c"
    using getFile_ok [OF _ assms(2) _ assms(3)] assms(1) by (auto simp: since_sentry_def)
  have "set (takeWhile (\<lambda>x. x \<noteq> dev_null) (lru_list c')) \<subseteq> S"
  proof (cases level)
    case kLRU
    obtain r' c'' where "getLRU fd name c = Some (r', c'')" "lru_list c'' = take (maxFiles c) (name # remove1 name (lru_list c))"
      using getLRU_ok [of others c fd name] assms(1,2) unfolding since_sentry_def by metis
    with kLRU assms(3) have c': "lru_list c' = take (maxFiles c) (name # remove1 name (lru_list c))"
      by (simp add: getFile_def)
    have "set (takeWhile (\<lambda>x. x \<noteq> dev_null) (lru_list c')) \<subseteq>
        set (takeWhile (\<lambda>x. x \<noteq> dev_null) (name # remove1 name (lru_list c)))"
      unfolding c' by (rule takeWhile_take_subset)
    also have "\<dots> \<subseteq> S"
      using assms(1,4) kLRU takeWhile_remove1_subset [of name dev_null "lru_list c"]
      by (auto simp: since_sentry_def)
    finally show ?thesis .
  next
    case kKeep
    then have "lru_list c' = lru_list c"
      using assms(3) by (auto simp: getFile_def getKeep_def File_open_def Let_def split: if_splits)
    with assms(1) show ?thesis by (simp add: since_sentry_def)
  qed (use assms(3) in \<open>simp add: getFile_def\<close>)
  with ok assms(1) show ?thesis by (simp add: since_sentry_def)
qed

lemma closeFile_since_sentry:
  assumes "since_sentry others n S c" "name \<noteq> dev_null"
  shows "since_sentry others n S (closeFile name c)"
proof -
  have ok: "cache_ok others c" using assms(1) by (simp add: since_sentry_def)
  have "maxFiles (closeFile name c) = maxFiles c"
    by (simp add: closeFile_def map_erase_sel split: option.split)
  with assms closeFile_ok [OF ok, of name] takeWhile_remove1_subset [of name dev_null "lru_list c"]
  show ?thesis by (auto simp: since_sentry_def)
qed

lemma setSentryFile_since_sentry:
  assumes "cache_ok others c" "0 < maxFiles c" "open_result c fd" "setSentryFile fd dev_null c = Some c'"
  shows "since_sentry others (maxFiles c) {} c'"
proof -
  obtain r c'' where "getLRU fd dev_null c = Some (r, c'')" "cache_ok others c''" "maxFiles c'' = maxFiles c"
    "lru_list c'' = take (maxFiles c) (dev_null # remove1 dev_null (lru_list c))"
    using getLRU_ok [OF assms(1,3,2)] by metis
  with assms(2,4) show ?thesis
    by (cases "maxFiles c") (simp_all add: since_sentry_def setSentryFile_def getFile_def)
qed

lemma closeUnused_since_sentry:
  assumes "since_sentry others n S c"
  shows "cache_ok others (closeUnusedFiles dev_null c) \<and> maxFiles (closeUnusedFiles dev_null c) = n \<and>
    set (lru_list (closeUnusedFiles dev_null c)) \<subseteq> insert dev_null S"
proof -
  have ok: "cache_ok others c" "maxFiles c = n" using assms by (simp_all add: since_sentry_def)
  have "set (lru_list (closeUnusedFiles dev_null c)) \<subseteq> insert dev_null S"
  proof (cases "lru_map c dev_null")
    case None
    then have "dev_null \<notin> set (lru_list c)" using ok(1) by (auto simp: cache_ok_def)
    then have "takeWhile (\<lambda>x. x \<noteq> dev_null) (lru_list c) = lru_list c" by (auto simp: takeWhile_eq_all_conv)
    with assms None show ?thesis by (auto simp: since_sentry_def closeUnusedFiles_def)
  next
    case (Some fd)
    then have "dev_null \<in> set (lru_list c)" using ok(1) by (auto simp: cache_ok_def)
    with close_until_ok [OF ok(1)] Some assms show ?thesis
      by (auto simp: since_sentry_def closeUnusedFiles_def)
  qed
  with closeUnusedFiles_ok [OF ok(1)] ok show ?thesis by simp
qed

section \<open>Reading a file\<close>

definition snap_inv :: "int set \<Rightarrow> nat \<Rightarrow> string set \<Rightarrow> procfs \<Rightarrow> bool" where
  "snap_inv others n S p \<longleftrightarrow> since_sentry others n S (file_cache p)"

text \<open>What reading a file changes besides the cache.\<close>

lemma readFile_frame:
  assumes "readFile env name level p = Some (ok, p')"
  shows "starttimes p' = starttimes p" "millisecondsPerTick p' = millisecondsPerTick p"
    "kbPerPage p' = kbPerPage p" "snapshots p' = snapshots p" "scratch_name p' = scratch_name p"
    "ok \<Longrightarrow> \<exists>text. os_content env name = Some text \<and> scratch_content p' = buffer_text text"
  using assms by (auto simp: readFile_def Let_def split: if_splits option.splits)

lemma readFile_inv:
  assumes "env_ok env" "snap_inv others n S p" "readFile env name level p = Some (ok, p')"
    "name \<noteq> dev_null" "level = kLRU \<longrightarrow> name \<in> S"
  shows "snap_inv others n S p'"
proof (cases "level = kNoCache")
  case False
  then obtain fd c where g: "getFile (os_open env name (file_cache p)) name level (file_cache p) = Some (fd, c)"
    using assms(3) by (auto simp: readFile_def split: option.splits)
  have "since_sentry others n S c"
    using getFile_since_sentry [OF _ _ g] assms by (auto simp: snap_inv_def env_ok_def)
  with closeFile_since_sentry [OF this assms(4)] g False assms(3) show ?thesis
    by (auto simp: readFile_def snap_inv_def Let_def split: if_splits option.splits)
qed (use assms(2,3) in \<open>auto simp: readFile_def snap_inv_def split: option.splits\<close>)

section \<open>The parts of a snapshot\<close>

text \<open>A step from \<open>p\<close> to \<open>p'\<close> that only reads files.\<close>

definition reads_only :: "procfs \<Rightarrow> procfs \<Rightarrow> bool" where
  "reads_only p p' \<longleftrightarrow> starttimes p' = starttimes p \<and> millisecondsPerTick p' = millisecondsPerTick p \<and>
     kbPerPage p' = kbPerPage p \<and> snapshots p' = snapshots p"

lemma reads_only_refl [simp]: "reads_only p p"
  by (simp add: reads_only_def)

lemma reads_only_scratch [simp]:
  "reads_only p (p'\<lparr>scratch_content := x\<rparr>) = reads_only p p'"
  "reads_only (p\<lparr>scratch_content := x\<rparr>) p' = reads_only p p'"
  by (simp_all add: reads_only_def)

lemma snap_inv_scratch [simp]:
  "snap_inv others n S (p\<lparr>scratch_content := x\<rparr>) = snap_inv others n S p"
  "snap_inv others n S (p\<lparr>scratch_name := y\<rparr>) = snap_inv others n S p"
  "snap_inv others n S (p\<lparr>starttimes := m\<rparr>) = snap_inv others n S p"
  "snap_inv others n S (p\<lparr>snapshots := k\<rparr>) = snap_inv others n S p"
  by (simp_all add: snap_inv_def)

text \<open>A step that keeps the cache's invariant if it held, in a good environment.\<close>

definition keeps_inv :: "os \<Rightarrow> int set \<Rightarrow> nat \<Rightarrow> string set \<Rightarrow> procfs \<Rightarrow> procfs \<Rightarrow> bool" where
  "keeps_inv env others n S p p' \<longleftrightarrow> (env_ok env \<longrightarrow> snap_inv others n S p \<longrightarrow> snap_inv others n S p')"

lemma keeps_inv_refl [simp]: "keeps_inv env others n S p p"
  by (simp add: keeps_inv_def)

lemma keeps_inv_scratch [simp]:
  "keeps_inv env others n S p (p'\<lparr>scratch_content := x\<rparr>) = keeps_inv env others n S p p'"
  "keeps_inv env others n S (p\<lparr>scratch_content := x\<rparr>) p' = keeps_inv env others n S p p'"
  by (simp_all add: keeps_inv_def)

lemma keeps_inv_trans:
  "keeps_inv env others n S p p' \<Longrightarrow> keeps_inv env others n S p' p'' \<Longrightarrow> keeps_inv env others n S p p''"
  by (simp add: keeps_inv_def)

lemma reads_only_trans: "reads_only p p' \<Longrightarrow> reads_only p' p'' \<Longrightarrow> reads_only p p''"
  by (simp add: reads_only_def)

lemma readFile_step:
  assumes "readFile env name level p = Some (ok, p')" "name \<noteq> dev_null" "level \<noteq> kLRU"
  shows "reads_only p p'" "keeps_inv env others n S p p'"
  using readFile_frame [OF assms(1)] readFile_inv [OF _ _ assms(1,2)] assms(3)
  by (auto simp: reads_only_def keeps_inv_def)

lemma fillLoadAvg_step:
  assumes "fillLoadAvg env info p = Some (info', p')"
  shows "reads_only p p' \<and> keeps_inv env others n S p p' \<and> si_processes info' = si_processes info \<and>
    si_kernel_version info' = si_kernel_version info \<and> si_muduo_timestamp info' = si_muduo_timestamp info"
proof -
  obtain ok p1 where r: "readFile env ''/proc/loadavg'' kKeep p = Some (ok, p1)"
    using assms by (auto simp: fillLoadAvg_def bind_eq_Some_conv)
  with assms have "p' = p1" "si_processes info' = si_processes info" "si_kernel_version info' = si_kernel_version info"
    "si_muduo_timestamp info' = si_muduo_timestamp info"
    by (auto simp: fillLoadAvg_def split: if_splits option.splits)
  with readFile_step [OF r] show ?thesis by (simp add: dev_null_def)
qed

lemma fillMemory_step:
  assumes "fillMemory env info p = Some (info', p')"
  shows "reads_only p p' \<and> keeps_inv env others n S p p' \<and> si_processes info' = si_processes info \<and>
    si_kernel_version info' = si_kernel_version info \<and> si_muduo_timestamp info' = si_muduo_timestamp info"
proof -
  obtain ok p1 where r: "readFile env ''/proc/meminfo'' kKeep p = Some (ok, p1)"
    using assms by (auto simp: fillMemory_def split: option.splits)
  with assms have "p' = p1" "si_processes info' = si_processes info" "si_kernel_version info' = si_kernel_version info"
    "si_muduo_timestamp info' = si_muduo_timestamp info"
    by (auto simp: fillMemory_def split: if_splits)
  with readFile_step [OF r] show ?thesis by (simp add: dev_null_def)
qed

lemma parse_stat_frame:
  "si_processes (parse_stat ms text info) = si_processes info"
  "si_kernel_version (parse_stat ms text info) = si_kernel_version info"
  "si_muduo_timestamp (parse_stat ms text info) = si_muduo_timestamp info"
  by (simp_all add: parse_stat_def Let_def case_prod_beta)

lemma fillStat_step:
  assumes "fillStat env info p = Some (info', p')"
  shows "reads_only p p' \<and> keeps_inv env others n S p p' \<and> si_processes info' = si_processes info \<and>
    si_kernel_version info' = si_kernel_version info \<and> si_muduo_timestamp info' = si_muduo_timestamp info"
proof -
  obtain ok p1 where r: "readFile env ''/proc/stat'' kKeep p = Some (ok, p1)"
    using assms by (auto simp: fillStat_def bind_eq_Some_conv)
  with assms have "p' = p1" "si_processes info' = si_processes info" "si_kernel_version info' = si_kernel_version info"
    "si_muduo_timestamp info' = si_muduo_timestamp info"
    by (auto simp: fillStat_def parse_stat_frame split: if_splits)
  with readFile_step [OF r] show ?thesis by (simp add: dev_null_def)
qed

lemma fillInitial_step:
  assumes "fillInitial env info p = Some (info', p')"
  shows "reads_only p p' \<and> keeps_inv env others n S p p' \<and> si_processes info' = si_processes info \<and>
    si_muduo_timestamp info' = si_muduo_timestamp info"
proof -
  obtain ok1 p1 where r1: "readFile env ''/proc/version'' kNoCache p = Some (ok1, p1)"
    using assms by (auto simp: fillInitial_def bind_eq_Some_conv)
  define q1 where "q1 = (if ok1 then p1\<lparr>scratch_content := chomp (scratch_content p1)\<rparr> else p1)"
  obtain ok2 p2 where r2: "readFile env ''/proc/cmdline'' kNoCache q1 = Some (ok2, p2)"
    using assms r1 by (auto simp: fillInitial_def bind_eq_Some_conv q1_def Let_def)
  define q2 where "q2 = (if ok2 then p2\<lparr>scratch_content := chomp (scratch_content p2)\<rparr> else p2)"
  obtain ok3 p3 where r3: "readFile env ''/proc/cpuinfo'' kNoCache q2 = Some (ok3, p3)"
    using assms r1 r2 by (auto simp: fillInitial_def bind_eq_Some_conv q1_def q2_def Let_def)
  have "p' = p3" "si_processes info' = si_processes info" "si_muduo_timestamp info' = si_muduo_timestamp info"
    using assms r1 r2 r3 by (auto simp: fillInitial_def q1_def q2_def Let_def)
  moreover have "reads_only p q1" "keeps_inv env others n S p q1"
    using readFile_step [OF r1] by (simp_all add: q1_def dev_null_def)
  moreover have "reads_only q1 q2" "keeps_inv env others n S q1 q2"
    using readFile_step [OF r2] by (simp_all add: q2_def dev_null_def)
  moreover have "reads_only q2 p3" "keeps_inv env others n S q2 p3"
    using readFile_step [OF r3] by (simp_all add: dev_null_def)
  ultimately show ?thesis by (blast intro: reads_only_trans keeps_inv_trans)
qed

section \<open>Processes\<close>

definition stat_path :: "string \<Rightarrow> string" where
  "stat_path name = take 63 (''/proc/'' @ name @ ''/stat'')"

lemma proc_not_dev_null: "stat_path name \<noteq> dev_null" "proc_path pid file' \<noteq> dev_null"
  by (simp_all add: stat_path_def dev_null_def proc_path_def)

lemma fillCmdline_step:
  assumes "fillCmdline env pid basic p = Some (basic', p')"
  shows "reads_only p p' \<and> keeps_inv env others n S p p' \<and> pb_starttime basic' = pb_starttime basic"
proof -
  obtain ok p1 where r: "readFile env (proc_path pid ''cmdline'') kNoCache p = Some (ok, p1)"
    using assms by (auto simp: fillCmdline_def bind_eq_Some_conv)
  with assms have "p' = p1" "pb_starttime basic' = pb_starttime basic"
    by (auto simp: fillCmdline_def Let_def split: if_splits option.splits)
  with readFile_step [OF r proc_not_dev_null(2)] show ?thesis by simp
qed

text \<open>The message of a process fits the fields \<open>f\<close> that were read.\<close>

definition describes :: "stat_fields \<Rightarrow> process_info \<Rightarrow> bool" where
  "describes f i \<longleftrightarrow> pi_pid i = sf_pid f \<and> (\<forall>b. pi_basic i = Some b \<longrightarrow> pb_starttime b = sf_starttime f)"

lemma fillProcess_step:
  assumes "fillProcess env p = Some (i, p')"
  obtains f where "read_stat (scratch_content p) (scratch_name p) = Some f" "describes f i"
    "pi_basic i = None \<longleftrightarrow> starttimes p (sf_pid f) = Some (sf_starttime f)"
    "starttimes p' = (starttimes p)(sf_pid f \<mapsto> sf_starttime f)" "snapshots p' = snapshots p"
    "keeps_inv env others n S p p'"
proof -
  obtain f where f: "read_stat (scratch_content p) (scratch_name p) = Some f"
    using assms by (auto simp: fillProcess_def bind_eq_Some_conv)
  show thesis
  proof (cases "starttimes p (sf_pid f) = Some (sf_starttime f)")
    case True
    with f assms show ?thesis
      by (intro that [of f]) (auto simp: fillProcess_def Let_def describes_def keeps_inv_def fun_upd_idem)
  next
    case False
    let ?q = "p\<lparr>scratch_name := sf_name f, starttimes := (starttimes p)(sf_pid f \<mapsto> sf_starttime f)\<rparr>"
    obtain b p1 where c: "fillCmdline env (sf_pid f) \<lparr>pb_ppid = sf_ppid f, pb_starttime = sf_starttime f,
        pb_name = sf_name f, pb_cmdline = [], pb_executable = None\<rparr> ?q = Some (b, p1)"
      "pi_basic i = Some b" "pi_pid i = sf_pid f" "p' = p1"
      using f assms False by (auto simp: fillProcess_def Let_def bind_eq_Some_conv)
    from fillCmdline_step [OF c(1), of others n S] c(2-4) f False show ?thesis
      by (intro that [of f]) (auto simp: describes_def reads_only_def keeps_inv_def)
  qed
qed

text \<open>A receiver of the messages keeps the start time of every process it was told of.\<close>

definition receive1 :: "process_info \<Rightarrow> (int \<rightharpoonup> int) \<Rightarrow> (int \<rightharpoonup> int)" where
  "receive1 i known = (case pi_basic i of None \<Rightarrow> known | Some b \<Rightarrow> known(pi_pid i \<mapsto> pb_starttime b))"

definition receive :: "process_info list \<Rightarrow> (int \<rightharpoonup> int) \<Rightarrow> (int \<rightharpoonup> int)" where
  "receive is known = fold receive1 is known"

lemma receive_simps [simp]:
  "receive [] known = known" "receive (i # is) known = receive is (receive1 i known)"
  "receive (is @ js) known = receive js (receive is known)"
  by (simp_all add: receive_def)

text \<open>The fields \<open>f\<close> stand in the file of a process named in \<open>names\<close>.\<close>

definition stat_of :: "os \<Rightarrow> string list \<Rightarrow> stat_fields \<Rightarrow> bool" where
  "stat_of env names f \<longleftrightarrow> (\<exists>name\<in>set names. \<exists>text old. os_content env (stat_path name) = Some text \<and>
     read_stat (buffer_text text) old = Some f)"

lemma stat_of_Cons: "stat_of env names f \<Longrightarrow> stat_of env (name # names) f"
  by (auto simp: stat_of_def)

definition starts :: "stat_fields list \<Rightarrow> (int \<rightharpoonup> int) \<Rightarrow> (int \<rightharpoonup> int)" where
  "starts fs m = fold (\<lambda>f m. m(sf_pid f \<mapsto> sf_starttime f)) fs m"

lemma starts_simps [simp]: "starts [] m = m" "starts (f # fs) m = starts fs (m(sf_pid f \<mapsto> sf_starttime f))"
  by (simp_all add: starts_def)

lemma starts_other: "x \<notin> sf_pid ` set fs \<Longrightarrow> starts fs m x = m x"
  by (induction fs arbitrary: m) auto

lemma starts_distinct:
  "distinct (map sf_pid fs) \<Longrightarrow> f \<in> set fs \<Longrightarrow> starts fs m (sf_pid f) = Some (sf_starttime f)"
  by (induction fs arbitrary: m) (auto simp: starts_other)

text \<open>From \<open>p\<close> and \<open>info\<close> the loop came to \<open>p'\<close> and \<open>info'\<close> with the messages \<open>new\<close>.\<close>

definition told :: "os \<Rightarrow> int set \<Rightarrow> nat \<Rightarrow> string set \<Rightarrow> string list \<Rightarrow> (int \<rightharpoonup> int) \<Rightarrow> procfs \<Rightarrow> procfs \<Rightarrow>
    process_info list \<Rightarrow> stat_fields list \<Rightarrow> bool" where
  "told env others n S names known p p' new fs \<longleftrightarrow> list_all2 describes fs new \<and>
    (\<forall>f\<in>set fs. stat_of env names f) \<and> starttimes p' = starts fs (starttimes p) \<and>
    starttimes p' \<subseteq>\<^sub>m receive new known \<and> snapshots p' = snapshots p \<and> keeps_inv env others n S p p' \<and>
    (distinct (map pi_pid new) \<longrightarrow> (\<forall>i\<in>set new. pi_basic i = None \<longrightarrow> pi_pid i \<in> dom (starttimes p)))"

lemma told_skip:
  assumes "told env others n S names known p1 p' new fs" "starttimes p1 = starttimes p"
    "snapshots p1 = snapshots p" "keeps_inv env others n S p p1"
  shows "told env others n S (name # names) known p p' new fs"
  using assms stat_of_Cons unfolding told_def by (metis keeps_inv_trans)

lemma fill_processes_step:
  assumes "fill_processes env names info p = Some (info', p')" "stat_path ` set names \<subseteq> S"
    "starttimes p \<subseteq>\<^sub>m known"
  shows "\<exists>new fs. info' = info\<lparr>si_processes := si_processes info @ new\<rparr> \<and>
    told env others n S names known p p' new fs"
  using assms
proof (induction names arbitrary: info p known)
  case Nil
  then show ?case by (auto simp: told_def intro!: exI [of _ "[]"])
next
  case (Cons name names)
  note prems = Cons.prems
  show ?case
  proof (cases "name \<noteq> [] \<and> isdigit (hd name)")
    case False
    then have "fill_processes env names info p = Some (info', p')" using prems(1) by auto
    from Cons.IH [OF this _ prems(3)] prems(2) obtain new fs where
      "info' = info\<lparr>si_processes := si_processes info @ new\<rparr>" "told env others n S names known p p' new fs"
      by auto
    then show ?thesis using told_skip by fastforce
  next
    case True
    obtain ok p1 where r: "readFile env (stat_path name) kLRU p = Some (ok, p1)"
      using prems(1) True by (auto simp: bind_eq_Some_conv stat_path_def)
    note frame = readFile_frame [OF r]
    have inv1: "keeps_inv env others n S p p1"
      using readFile_inv [OF _ _ r proc_not_dev_null(1)] prems(2) by (auto simp: keeps_inv_def)
    have known1: "starttimes p1 \<subseteq>\<^sub>m known" using prems(3) frame(1) by simp
    show ?thesis
    proof (cases ok)
      case False
      then have "fill_processes env names info p1 = Some (info', p')"
        using prems(1) True r by (auto simp: stat_path_def)
      from Cons.IH [OF this _ known1] prems(2) obtain new fs where
        "info' = info\<lparr>si_processes := si_processes info @ new\<rparr>" "told env others n S names known p1 p' new fs"
        by auto
      then show ?thesis using told_skip [OF _ frame(1,4) inv1] by fastforce
    next
      case ok: True
      then obtain bytes where bytes: "os_content env (stat_path name) = Some bytes"
        "scratch_content p1 = buffer_text bytes"
        using frame(6) by blast
      obtain i p2 where i: "fillProcess env p1 = Some (i, p2)"
        "fill_processes env names (info\<lparr>si_processes := si_processes info @ [i]\<rparr>) p2 = Some (info', p')"
        using prems(1) True r ok by (auto simp: bind_eq_Some_conv stat_path_def)
      obtain f where f: "read_stat (scratch_content p1) (scratch_name p1) = Some f" "describes f i"
        "pi_basic i = None \<longleftrightarrow> starttimes p1 (sf_pid f) = Some (sf_starttime f)"
        "starttimes p2 = (starttimes p1)(sf_pid f \<mapsto> sf_starttime f)" "snapshots p2 = snapshots p1"
        "keeps_inv env others n S p1 p2"
        using fillProcess_step [OF i(1), of others n S] by metis
      have "starttimes p2 \<subseteq>\<^sub>m receive1 i known"
      proof (cases "pi_basic i")
        case None
        then have "starttimes p2 = starttimes p1" using f(3,4) by (simp add: fun_upd_idem)
        with known1 None show ?thesis by (simp add: receive1_def)
      next
        case (Some b)
        then have "pb_starttime b = sf_starttime f" "pi_pid i = sf_pid f" using f(2) by (auto simp: describes_def)
        with Some known1 f(4) show ?thesis by (simp add: receive1_def)
      qed
      from Cons.IH [OF i(2) _ this] prems(2) obtain new fs where new:
        "info' = info\<lparr>si_processes := (si_processes info @ [i]) @ new\<rparr>"
        "told env others n S names (receive1 i known) p2 p' new fs" by auto
      then have rest: "info' = info\<lparr>si_processes := (si_processes info @ [i]) @ new\<rparr>" "list_all2 describes fs new"
        "\<forall>f\<in>set fs. stat_of env names f" "starttimes p' = starts fs (starttimes p2)"
        "starttimes p' \<subseteq>\<^sub>m receive new (receive1 i known)" "snapshots p' = snapshots p2"
        "keeps_inv env others n S p2 p'"
        "distinct (map pi_pid new) \<longrightarrow> (\<forall>i\<in>set new. pi_basic i = None \<longrightarrow> pi_pid i \<in> dom (starttimes p2))"
        unfolding told_def by blast+
      have of1: "stat_of env (name # names) f" using bytes f(1) unfolding stat_of_def by auto
      have pid: "pi_pid i = sf_pid f" using f(2) by (simp add: describes_def)
      have "keeps_inv env others n S p p'" using inv1 f(6) rest(7) by (blast intro: keeps_inv_trans)
      moreover have "\<forall>f'\<in>set (f # fs). stat_of env (name # names) f'"
        using of1 rest(3) by (auto intro: stat_of_Cons)
      moreover have "distinct (map pi_pid (i # new)) \<longrightarrow>
          (\<forall>i\<in>set (i # new). pi_basic i = None \<longrightarrow> pi_pid i \<in> dom (starttimes p))"
      proof (intro impI ballI)
        fix j
        assume j: "distinct (map pi_pid (i # new))" "j \<in> set (i # new)" "pi_basic j = None"
        show "pi_pid j \<in> dom (starttimes p)"
        proof (cases "j \<in> set new")
          case True
          then have "pi_pid j \<noteq> sf_pid f" "pi_pid j \<in> dom (starttimes p2)"
            using j pid rest(8) by (auto simp: image_iff)
          then show ?thesis using f(4) frame(1) by auto
        next
          case False
          then show ?thesis using j f(3) frame(1) pid by auto
        qed
      qed
      ultimately show ?thesis
        using rest(1,2,4-6) f(2,4,5) frame(1,4)
        by (intro exI [of _ "i # new"] exI [of _ "f # fs"]) (simp add: told_def)
    qed
  qed
qed

section \<open>Whole snapshots\<close>

text \<open>The files of processes that a snapshot of a level opens.\<close>

definition files_of_level :: "os \<Rightarrow> SnapshotRequest_Level \<Rightarrow> string set" where
  "files_of_level env level = (if kSystemInfoAndProcesses \<le> level then stat_path ` set (os_proc_dir env) else {})"

definition known_before :: "procfs \<Rightarrow> (int \<rightharpoonup> int)" where
  "known_before p = (if 59 \<le> snapshots p then Map.empty else starttimes p)"

lemma told_reads:
  "told env others n S names known q p new fs \<Longrightarrow> reads_only p p' \<Longrightarrow> keeps_inv env others n S p p' \<Longrightarrow>
     told env others n S names known q p' new fs"
  using keeps_inv_trans by (auto simp: told_def reads_only_def)

lemma fill_processes_part:
  assumes "(if b then fillProcesses env info p else Some (info, p)) = Some (info', p')"
    "starttimes p \<subseteq>\<^sub>m known"
  shows "\<exists>new fs. info' = info\<lparr>si_processes := si_processes info @ new\<rparr> \<and> (\<not> b \<longrightarrow> new = []) \<and>
    told env others n (if b then stat_path ` set (os_proc_dir env) else {}) (os_proc_dir env) known p p' new fs"
proof (cases b)
  case True
  then show ?thesis
    using fill_processes_step [of env "os_proc_dir env" info p info' p' _ known others n] assms
    by (simp add: fillProcesses_def)
next
  case False
  then have "info' = info" "p' = p" using assms(1) by simp_all
  with False assms(2) show ?thesis by (auto simp: told_def intro!: exI [of _ "[]"])
qed

lemma fill_spec:
  assumes "fill env level info p = Some (info', p')" "known_before p \<subseteq>\<^sub>m known"
  obtains q p5 new fs where "si_processes info' = si_processes info @ new"
    "level < kSystemInfoAndProcesses \<longrightarrow> new = []" "si_muduo_timestamp info' = Some (os_now env)"
    "level < kSystemInfoInitialSnapshot \<longrightarrow> si_kernel_version info' = si_kernel_version info"
    "told env others n (files_of_level env level) (os_proc_dir env) known q p5 new fs"
    "starttimes q = known_before p" "starttimes p' = starttimes p5"
    "setSentryFile (os_open env dev_null (file_cache p)) dev_null (file_cache p) = Some (file_cache q)"
    "file_cache p' = closeUnusedFiles dev_null (file_cache p5)"
proof -
  define p0 where "p0 = p\<lparr>snapshots := snapshots p + 1\<rparr>"
  define p1 where "p1 = (if 60 \<le> snapshots p0 then p0\<lparr>snapshots := 0, starttimes := Map.empty\<rparr> else p0)"
  have p1: "file_cache p1 = file_cache p" "starttimes p1 = known_before p"
    by (auto simp: p1_def p0_def known_before_def)
  obtain c where c: "setSentryFile (os_open env dev_null (file_cache p1)) dev_null (file_cache p1) = Some c"
    using assms(1) unfolding fill_def p0_def [symmetric] Let_def p1_def [symmetric]
    by (auto simp: bind_eq_Some_conv)
  define q where "q = p1\<lparr>file_cache := c\<rparr>"
  define i0 where "i0 = info\<lparr>si_muduo_timestamp := Some (os_now env), si_user_cpu_ms := Some (os_user_ms env),
       si_sys_cpu_ms := Some (os_sys_ms env)\<rparr>"
  obtain i1 q1 i2 q2 i3 q3 i4 q4 q5 where steps:
    "(if kSystemInfoAndProcesses \<le> level then fillProcesses env i0 (p1\<lparr>file_cache := c\<rparr>)
      else Some (i0, p1\<lparr>file_cache := c\<rparr>)) = Some (i1, q1)"
    "(if kSystemInfoInitialSnapshot \<le> level then fillInitial env i1 q1 else Some (i1, q1)) = Some (i2, q2)"
    "fillLoadAvg env i2 q2 = Some (i3, q3)" "fillMemory env i3 q3 = Some (i4, q4)"
    "fillStat env i4 q4 = Some (info', q5)" "p' = q5\<lparr>file_cache := closeUnusedFiles dev_null (file_cache q5)\<rparr>"
    using assms(1) c unfolding fill_def p0_def [symmetric] Let_def p1_def [symmetric] i0_def [symmetric]
    by (auto simp: bind_eq_Some_conv)
  have "starttimes q \<subseteq>\<^sub>m known" using assms(2) p1(2) by (simp add: q_def)
  from fill_processes_part [OF steps(1) [folded q_def] this] obtain new fs where new:
    "i1 = i0\<lparr>si_processes := si_processes i0 @ new\<rparr>" "\<not> kSystemInfoAndProcesses \<le> level \<longrightarrow> new = []"
    "told env others n (files_of_level env level) (os_proc_dir env) known q q1 new fs"
    unfolding files_of_level_def by blast
  let ?S = "files_of_level env level"
  have init: "reads_only q1 q2 \<and> keeps_inv env others n ?S q1 q2 \<and> si_processes i2 = si_processes i1 \<and>
      si_muduo_timestamp i2 = si_muduo_timestamp i1 \<and>
      (level < kSystemInfoInitialSnapshot \<longrightarrow> si_kernel_version i2 = si_kernel_version i1)"
    using steps(2) fillInitial_step [of env i1 q1 i2 q2 others n ?S] by (auto split: if_splits)
  note step = fillLoadAvg_step [OF steps(3), of others n ?S] fillMemory_step [OF steps(4), of others n ?S]
    fillStat_step [OF steps(5), of others n ?S]
  have "told env others n ?S (os_proc_dir env) known q q5 new fs"
  proof (rule told_reads [OF new(3)])
    show "reads_only q1 q5" using init step by (auto simp: reads_only_def)
    show "keeps_inv env others n ?S q1 q5" using init step by (auto simp: keeps_inv_def)
  qed
  with step init new steps(6) c p1 show thesis
    by (intro that [where q = q and ?p5.0 = q5 and new = new and fs = fs]) (simp_all add: i0_def q_def not_le)
qed

text \<open>C23: A snapshot loses no descriptor and leaves nothing open for processes that it did not
  see: after \<^verbatim>\<open>fill\<close>, the open descriptors are those of the cache, and its unkept files are the
  sentry and files of processes that were listed in /proc during this snapshot, none for the
  level that reads no processes.\<close>

theorem fill_releases:
  assumes "env_ok env" "cache_ok others (file_cache p)" "0 < maxFiles (file_cache p)"
    "fill env level info p = Some (info', p')"
  shows "cache_ok others (file_cache p') \<and> maxFiles (file_cache p') = maxFiles (file_cache p) \<and>
    set (lru_list (file_cache p')) \<subseteq> insert dev_null (if kSystemInfoAndProcesses \<le> level
       then (\<lambda>name. take 63 (''/proc/'' @ name @ ''/stat'')) ` set (os_proc_dir env) else {})"
proof -
  let ?n = "maxFiles (file_cache p)" and ?S = "files_of_level env level"
  obtain q p5 new fs where
    "told env others ?n ?S (os_proc_dir env) (known_before p) q p5 new fs"
    "setSentryFile (os_open env dev_null (file_cache p)) dev_null (file_cache p) = Some (file_cache q)"
    "file_cache p' = closeUnusedFiles dev_null (file_cache p5)"
    by (rule fill_spec [OF assms(4) map_le_refl, of others ?n])
  moreover from this(2) have "snap_inv others ?n {} q"
    using setSentryFile_since_sentry [OF assms(2,3)] assms(1) by (auto simp: snap_inv_def env_ok_def)
  moreover from this have "snap_inv others ?n ?S q" by (auto simp: snap_inv_def since_sentry_def)
  ultimately have "since_sentry others ?n ?S (file_cache p5)"
    using assms(1) by (auto simp: told_def keeps_inv_def snap_inv_def)
  from closeUnused_since_sentry [OF this] \<open>file_cache p' = _\<close> show ?thesis
    by (auto simp: files_of_level_def stat_path_def [abs_def])
qed

text \<open>A system with one process, and a fresh \<^verbatim>\<open>ProcFs\<close>.\<close>

definition one_process :: os where
  "one_process = \<lparr>os_open = (\<lambda>name c. if name = dev_null \<and> fds c = {0, 1, 2} then 3 else if fds c = {0, 1, 2, 3} then 4 else -1),
     os_content = (\<lambda>name. if name = ''/proc/42/stat''
       then Some (stat_line 42 ''init'' CHR ''S'' (map int [100..<136]) [newline]) else None),
     os_proc_dir = [''self'', ''42''], os_readlink = (\<lambda>_. None), os_now = 7, os_user_ms = 1, os_sys_ms = 2,
     os_loadavg = (\<lambda>_. None)\<rparr>"

definition fresh_procfs :: procfs where
  "fresh_procfs = the (new_procfs 100 4096 103 {0, 1, 2})"

definition example_snapshot :: "system_info \<times> procfs" where
  "example_snapshot = the (fill one_process kSystemInfoAndProcesses no_info fresh_procfs)"

lemma example_snapshot:
  "fill one_process kSystemInfoAndProcesses no_info fresh_procfs = Some (fst example_snapshot, snd example_snapshot)"
  "map pi_pid (si_processes (fst example_snapshot)) = [42]"
  "lru_list (file_cache (snd example_snapshot)) = [''/proc/42/stat'', ''/dev/null'']"
  "59 \<le> snapshots fresh_procfs \<longleftrightarrow> False"
proof -
  have "fill one_process kSystemInfoAndProcesses no_info fresh_procfs \<noteq> None" by code_simp
  then show "fill one_process kSystemInfoAndProcesses no_info fresh_procfs = Some (fst example_snapshot, snd example_snapshot)"
    by (auto simp: example_snapshot_def)
qed (code_simp+)

theorem fill_releases_witness:
  "cache_ok {0, 1, 2} (file_cache (snd example_snapshot)) \<and>
   lru_list (file_cache (snd example_snapshot)) = [''/proc/42/stat'', ''/dev/null'']"
proof -
  have "env_ok one_process" by (auto simp: env_ok_def one_process_def open_result_def)
  moreover have "cache_ok {0, 1, 2} (file_cache fresh_procfs)" "0 < maxFiles (file_cache fresh_procfs)"
    using cache_ok_new [of "{0, 1, 2}" 3] by (simp_all add: fresh_procfs_def new_procfs_def) (simp add: new_cache_def)
  ultimately show ?thesis using fill_releases example_snapshot(1,3) by blast
qed

text \<open>Whoever receives every snapshot knows every process of it: if before the snapshot the
  receiver knew the start times that \<^verbatim>\<open>ProcFs\<close> has recorded, then afterwards it does again,
  and for each process in the snapshot the start time it knows, from the basic information that
  was sent now or earlier, is the one in the process's stat file; the sixtieth snapshot sends all
  basic information again.\<close>

theorem snapshot_receiver:
  assumes "starttimes p \<subseteq>\<^sub>m known" "fill env level no_info p = Some (info, p')"
    "distinct (map pi_pid (si_processes info))"
  shows "starttimes p' \<subseteq>\<^sub>m receive (si_processes info) known \<and>
    (\<forall>i\<in>set (si_processes info). \<exists>f. stat_of env (os_proc_dir env) f \<and> pi_pid i = sf_pid f \<and>
       receive (si_processes info) known (pi_pid i) = Some (sf_starttime f)) \<and>
    (59 \<le> snapshots p \<longrightarrow> (\<forall>i\<in>set (si_processes info). pi_basic i \<noteq> None))"
proof -
  have "known_before p \<subseteq>\<^sub>m known" using assms(1) by (simp add: known_before_def)
  then obtain q p5 fs where told:
    "told env {} 0 (files_of_level env level) (os_proc_dir env) known q p5 (si_processes info) fs"
    "starttimes q = known_before p" "starttimes p' = starttimes p5"
    using fill_spec [OF assms(2), of known "{}" 0] by (metis append_Nil no_info_def system_info.select_convs(9))
  let ?is = "si_processes info"
  have all2: "list_all2 describes fs ?is" using told(1) by (simp add: told_def)
  then have pids: "map pi_pid ?is = map sf_pid fs"
    by (induction rule: list_all2_induct) (simp_all add: describes_def)
  have le: "starttimes p' \<subseteq>\<^sub>m receive ?is known" using told(1) unfolding told_def told(3) by (elim conjE)
  have each: "\<exists>f. stat_of env (os_proc_dir env) f \<and> pi_pid i = sf_pid f \<and>
      receive ?is known (pi_pid i) = Some (sf_starttime f)" if "i \<in> set ?is" for i
  proof -
    have "pi_pid i \<in> set (map sf_pid fs)" using that pids by (metis image_eqI list.set_map)
    then obtain f where f: "f \<in> set fs" "pi_pid i = sf_pid f" by auto
    then have "starttimes p' (sf_pid f) = Some (sf_starttime f)"
      using starts_distinct [of fs f] assms(3) pids told by (simp add: told_def)
    then have "receive ?is known (sf_pid f) = Some (sf_starttime f)"
      using le by (metis domI map_le_def)
    with f told(1) show ?thesis by (auto simp: told_def)
  qed
  have "pi_basic i \<noteq> None" if "i \<in> set ?is" "59 \<le> snapshots p" for i
    using that told assms(3) by (auto simp: told_def known_before_def)
  with le each show ?thesis by blast
qed

theorem snapshot_receiver_witness:
  "\<exists>f. stat_of one_process [''self'', ''42''] f \<and> sf_pid f = 42 \<and>
     receive (si_processes (fst example_snapshot)) Map.empty 42 = Some (sf_starttime f)"
proof -
  have "starttimes fresh_procfs = Map.empty" by (simp add: fresh_procfs_def new_procfs_def)
  with snapshot_receiver [OF _ example_snapshot(1), of Map.empty] example_snapshot(2)
  have "\<exists>f. stat_of one_process (os_proc_dir one_process) f \<and> 42 = sf_pid f \<and>
     receive (si_processes (fst example_snapshot)) Map.empty 42 = Some (sf_starttime f)"
    by (cases "si_processes (fst example_snapshot)") auto
  then show ?thesis by (auto simp: one_process_def)
qed

end
