(* ===== verification/Collector.thy ===== *)
theory Collector
  imports ProcFsSnapshot
begin

text \<open>
  The collector of the collect example (examples/collect/collector.cc): the logger, which takes a
  snapshot every second and writes it to a log file, and the service, which takes snapshots for its
  clients with the same \<^verbatim>\<open>ProcFs\<close>. The log file is the sequence of the calls on muduo's
  \<^verbatim>\<open>LogFile\<close>; the encoding of a message by the codec is the parameter \<open>encode\<close>. \<open>None\<close> is
  a failing assertion.
\<close>

section \<open>The logger\<close>

datatype 'b file_call = Append 'b | Flush | RollFile

record 'b logger =
  lg_proc :: procfs
  lg_calls :: "'b file_call list"
  lg_output :: "'b option"
  lg_info :: system_info

definition new_logger :: "procfs \<Rightarrow> 'b logger" where
  "new_logger p = \<lparr>lg_proc = p, lg_calls = [], lg_output = None, lg_info = no_info\<rparr>"

definition fillEmptyBuffer :: "(system_info \<Rightarrow> 'b) \<Rightarrow> system_info \<Rightarrow> 'b option \<Rightarrow> 'b option" where
  "fillEmptyBuffer encode message output = (case output of None \<Rightarrow> Some (encode message) | Some _ \<Rightarrow> None)"

definition save :: "(system_info \<Rightarrow> 'b) \<Rightarrow> 'b logger \<Rightarrow> 'b logger option" where
  "save encode l =
     (case fillEmptyBuffer encode (lg_info l) (lg_output l) of
        None \<Rightarrow> None
      | Some bytes \<Rightarrow> Some (l\<lparr>lg_calls := lg_calls l @ [Append bytes], lg_output := None\<rparr>))"

definition flush :: "'b logger \<Rightarrow> 'b logger" where
  "flush l = l\<lparr>lg_calls := lg_calls l @ [Flush]\<rparr>"

definition roll :: "bool \<Rightarrow> 'b logger \<Rightarrow> bool \<times> 'b logger" where
  "roll rolled l = (rolled, l\<lparr>lg_calls := lg_calls l @ [RollFile]\<rparr>)"

text \<open>\<^verbatim>\<open>fill\<close> of \<^verbatim>\<open>ProcFs\<close> always returns true.\<close>

definition logger_start :: "(system_info \<Rightarrow> 'b) \<Rightarrow> os \<Rightarrow> 'b logger \<Rightarrow> 'b logger option" where
  "logger_start encode env l = do {
     (info, p) \<leftarrow> fill env kSystemInfoInitialSnapshot (lg_info l) (lg_proc l);
     l \<leftarrow> save encode (l\<lparr>lg_info := info, lg_proc := p\<rparr>);
     Some ((flush l)\<lparr>lg_info := no_info\<rparr>)
   }"

definition logger_snapshot :: "(system_info \<Rightarrow> 'b) \<Rightarrow> os \<Rightarrow> 'b logger \<Rightarrow> 'b logger option" where
  "logger_snapshot encode env l = do {
     (info, p) \<leftarrow> fill env kSystemInfoAndThreads (lg_info l) (lg_proc l);
     l \<leftarrow> save encode (l\<lparr>lg_info := info, lg_proc := p\<rparr>);
     Some (l\<lparr>lg_info := no_info\<rparr>)
   }"

definition logger_fill :: "os \<Rightarrow> SnapshotRequest_Level \<Rightarrow> system_info \<Rightarrow> 'b logger \<Rightarrow> (system_info \<times> 'b logger) option" where
  "logger_fill env level info l =
     map_option (\<lambda>(info, p). (info, l\<lparr>lg_proc := p\<rparr>)) (fill env level info (lg_proc l))"

section \<open>The service\<close>

datatype collect_reply = Snapshot system_info | Empty | Result bool "string option"

record ('b, 'c) collector =
  co_logger :: "'b logger"
  co_allowQuit :: bool
  co_quit :: bool
  co_replies :: "('c \<times> collect_reply) list"

definition new_collector :: "bool \<Rightarrow> 'b logger \<Rightarrow> ('b, 'c) collector" where
  "new_collector isDebugBuild l = \<lparr>co_logger = l, co_allowQuit = isDebugBuild, co_quit = False, co_replies = []\<rparr>"

definition reply :: "'c \<Rightarrow> collect_reply \<Rightarrow> ('b, 'c) collector \<Rightarrow> ('b, 'c) collector" where
  "reply c r s = s\<lparr>co_replies := co_replies s @ [(c, r)]\<rparr>"

definition getSnapshot :: "os \<Rightarrow> SnapshotRequest_Level \<Rightarrow> 'c \<Rightarrow> ('b, 'c) collector \<Rightarrow> ('b, 'c) collector option" where
  "getSnapshot env level c s =
     map_option (\<lambda>(info, l). reply c (Snapshot info) (s\<lparr>co_logger := l\<rparr>)) (logger_fill env level no_info (co_logger s))"

definition flushFile :: "'c \<Rightarrow> ('b, 'c) collector \<Rightarrow> ('b, 'c) collector" where
  "flushFile c s = reply c Empty (s\<lparr>co_logger := flush (co_logger s)\<rparr>)"

definition rollFile :: "bool \<Rightarrow> 'c \<Rightarrow> ('b, 'c) collector \<Rightarrow> ('b, 'c) collector" where
  "rollFile rolled c s =
     (let (succeed, l) = roll rolled (co_logger s) in reply c (Result succeed None) (s\<lparr>co_logger := l\<rparr>))"

definition version :: "string \<Rightarrow> 'c \<Rightarrow> ('b, 'c) collector \<Rightarrow> ('b, 'c) collector" where
  "version g_build_version c s = reply c (Result True (Some g_build_version)) s"

definition quit :: "'c \<Rightarrow> ('b, 'c) collector \<Rightarrow> ('b, 'c) collector" where
  "quit c s =
     (let s = reply c (Result (co_allowQuit s) None) s
      in if co_allowQuit s then s\<lparr>co_quit := True\<rparr> else s)"

definition restart :: "'c \<Rightarrow> ('b, 'c) collector \<Rightarrow> ('b, 'c) collector" where
  "restart c s = reply c (Result False None) s"

text \<open>What the event loop calls: the timer, or a method for a client.\<close>

datatype collect_request =
    GetSnapshot os SnapshotRequest_Level | FlushFile | RollFile_request bool | Version string | Quit | Restart

definition serve :: "collect_request \<Rightarrow> 'c \<Rightarrow> ('b, 'c) collector \<Rightarrow> ('b, 'c) collector option" where
  "serve r c s =
     (case r of
        GetSnapshot env level \<Rightarrow> getSnapshot env level c s
      | FlushFile \<Rightarrow> Some (flushFile c s)
      | RollFile_request rolled \<Rightarrow> Some (rollFile rolled c s)
      | Version v \<Rightarrow> Some (version v c s)
      | Quit \<Rightarrow> Some (quit c s)
      | Restart \<Rightarrow> Some (restart c s))"

datatype 'c collector_event = Second os | Request 'c collect_request

definition collector_step :: "(system_info \<Rightarrow> 'b) \<Rightarrow> 'c collector_event \<Rightarrow> ('b, 'c) collector \<Rightarrow> ('b, 'c) collector option" where
  "collector_step encode e s =
     (case e of
        Second env \<Rightarrow> map_option (\<lambda>l. s\<lparr>co_logger := l\<rparr>) (logger_snapshot encode env (co_logger s))
      | Request c r \<Rightarrow> serve r c s)"

text \<open>The loop handles no event after the one in which it was told to quit.\<close>

fun collector_loop :: "(system_info \<Rightarrow> 'b) \<Rightarrow> 'c collector_event list \<Rightarrow> ('b, 'c) collector \<Rightarrow> ('b, 'c) collector option" where
  "collector_loop encode [] s = Some s"
| "collector_loop encode (e # es) s =
     (if co_quit s then Some s
      else case collector_step encode e s of None \<Rightarrow> None | Some s \<Rightarrow> collector_loop encode es s)"

definition collector_main :: "(system_info \<Rightarrow> 'b) \<Rightarrow> bool \<Rightarrow> procfs \<Rightarrow> os \<Rightarrow> 'c collector_event list \<Rightarrow>
    ('b, 'c) collector option" where
  "collector_main encode isDebugBuild p env es = do {
     l \<leftarrow> logger_start encode env (new_logger p);
     collector_loop encode es (new_collector isDebugBuild l)
   }"

section \<open>The log\<close>

definition log_of :: "'b logger \<Rightarrow> 'b list" where
  "log_of l = concat (map (\<lambda>c. case c of Append b \<Rightarrow> [b] | _ \<Rightarrow> []) (lg_calls l))"

text \<open>The processes of messages, in order.\<close>

definition processes_of :: "system_info list \<Rightarrow> process_info list" where
  "processes_of ms = concat (map si_processes ms)"

text \<open>A receiver of the messages so far knows the start time of each process of each.\<close>

definition all_known :: "system_info list \<Rightarrow> bool" where
  "all_known ms \<longleftrightarrow> (\<forall>n<length ms. \<forall>i\<in>set (si_processes (ms ! n)).
     receive (processes_of (take (Suc n) ms)) Map.empty (pi_pid i) \<noteq> None)"

lemma starts_dom: "dom (starts fs m) = dom m \<union> sf_pid ` set fs"
  by (induction fs arbitrary: m) auto

lemma fill_tells:
  assumes "starttimes p \<subseteq>\<^sub>m known" "fill env level no_info p = Some (info, p')"
  shows "starttimes p' \<subseteq>\<^sub>m receive (si_processes info) known \<and>
    (\<forall>i\<in>set (si_processes info). receive (si_processes info) known (pi_pid i) \<noteq> None) \<and>
    (level = kSystemInfoOnly \<longrightarrow> si_processes info = [] \<and> starttimes p' \<subseteq>\<^sub>m starttimes p)"
proof -
  have "known_before p \<subseteq>\<^sub>m known" using assms(1) by (simp add: known_before_def)
  then obtain q p5 fs where t:
    "told env {} 0 (files_of_level env level) (os_proc_dir env) known q p5 (si_processes info) fs"
    "starttimes q = known_before p" "starttimes p' = starttimes p5"
    "level < kSystemInfoAndProcesses \<longrightarrow> si_processes info = []"
    using fill_spec [OF assms(2), of known "{}" 0] by (metis append_Nil no_info_def system_info.select_convs(9))
  have all2: "list_all2 describes fs (si_processes info)" and st: "starttimes p' = starts fs (starttimes q)"
    and le: "starttimes p' \<subseteq>\<^sub>m receive (si_processes info) known"
    using t(1) unfolding told_def t(3) by blast+
  have pids: "map pi_pid (si_processes info) = map sf_pid fs"
    using all2 by (induction rule: list_all2_induct) (simp_all add: describes_def)
  have "receive (si_processes info) known (pi_pid i) \<noteq> None" if "i \<in> set (si_processes info)" for i
  proof -
    have "pi_pid i \<in> dom (starttimes p')"
      using that pids by (metis UnI2 image_eqI list.set_map st starts_dom)
    with le show ?thesis by (metis domIff map_le_def)
  qed
  moreover have "si_processes info = [] \<and> starttimes p' \<subseteq>\<^sub>m starttimes p" if "level = kSystemInfoOnly"
  proof -
    have "si_processes info = []" using t(4) that by (simp add: less_SnapshotRequest_Level_def level_number_def)
    with all2 have "starttimes p' = known_before p" using st t(2) by simp
    with \<open>si_processes info = []\<close> show ?thesis by (simp add: known_before_def)
  qed
  ultimately show ?thesis using le by blast
qed

lemma processes_of_simps [simp]:
  "processes_of [] = []" "processes_of (ms @ [m]) = processes_of ms @ si_processes m"
  by (simp_all add: processes_of_def)

lemma all_known_snoc:
  "all_known (ms @ [m]) \<longleftrightarrow> all_known ms \<and>
     (\<forall>i\<in>set (si_processes m). receive (processes_of (ms @ [m])) Map.empty (pi_pid i) \<noteq> None)"
proof -
  have "receive (processes_of (take (Suc n) (ms @ [m]))) Map.empty =
      receive (processes_of (take (Suc n) ms)) Map.empty" if "n < length ms" for n
    using that by simp
  then show ?thesis by (auto simp: all_known_def nth_append less_Suc_eq)
qed

text \<open>The log so far holds the messages \<open>ms\<close>, and whoever read them knows all that \<^verbatim>\<open>ProcFs\<close>
  has recorded.\<close>

definition log_ok :: "(system_info \<Rightarrow> 'b) \<Rightarrow> system_info list \<Rightarrow> 'b logger \<Rightarrow> bool" where
  "log_ok encode ms l \<longleftrightarrow> log_of l = map encode ms \<and> all_known ms \<and>
     starttimes (lg_proc l) \<subseteq>\<^sub>m receive (processes_of ms) Map.empty \<and> lg_info l = no_info \<and> lg_output l = None"

lemma log_of_append [simp]:
  "log_of (l\<lparr>lg_calls := lg_calls l @ [Append b], lg_output := x\<rparr>) = log_of l @ [b]"
  "log_of (flush l) = log_of l" "log_of (snd (roll rolled l)) = log_of l"
  "log_of (l\<lparr>lg_info := i\<rparr>) = log_of l" "log_of (l\<lparr>lg_proc := p\<rparr>) = log_of l"
  by (simp_all add: log_of_def flush_def roll_def)

lemma log_ok_fill:
  assumes "log_ok encode ms l" "fill env level (lg_info l) (lg_proc l) = Some (info, p)"
    "save encode (l\<lparr>lg_info := info, lg_proc := p\<rparr>) = Some l'"
  shows "log_ok encode (ms @ [info]) (l'\<lparr>lg_info := no_info\<rparr>)"
proof -
  note tells = fill_tells [of "lg_proc l" "receive (processes_of ms) Map.empty" env level info p]
  have "l' = l\<lparr>lg_info := info, lg_proc := p, lg_calls := lg_calls l @ [Append (encode info)], lg_output := None\<rparr>"
    using assms(1,3) by (simp add: log_ok_def save_def fillEmptyBuffer_def)
  then show ?thesis
    using assms(1,2) tells by (auto simp: log_ok_def all_known_snoc log_of_def)
qed

lemma log_ok_flush [simp]: "log_ok encode ms (flush l) = log_ok encode ms l"
  by (simp add: log_ok_def) (simp add: flush_def)

lemma log_ok_roll [simp]: "log_ok encode ms (snd (roll rolled l)) = log_ok encode ms l"
  by (simp add: log_ok_def) (simp add: roll_def)

text \<open>Requests that ask for no processes.\<close>

definition quiet :: "'c collector_event \<Rightarrow> bool" where
  "quiet e = (case e of Request c (GetSnapshot env level) \<Rightarrow> level = kSystemInfoOnly | _ \<Rightarrow> True)"

lemma reply_sel [simp]:
  "co_logger (reply c r s) = co_logger s" "co_allowQuit (reply c r s) = co_allowQuit s"
  "co_quit (reply c r s) = co_quit s" "co_replies (reply c r s) = co_replies s @ [(c, r)]"
  by (simp_all add: reply_def)

lemma collector_step_log:
  assumes "log_ok encode ms (co_logger s)" "quiet e" "collector_step encode e s = Some s'"
  shows "\<exists>ms. log_ok encode ms (co_logger s')"
proof (cases e)
  case (Second env)
  with assms(3) obtain info p l where "fill env kSystemInfoAndThreads (lg_info (co_logger s)) (lg_proc (co_logger s)) = Some (info, p)"
    "save encode ((co_logger s)\<lparr>lg_info := info, lg_proc := p\<rparr>) = Some l" "co_logger s' = l\<lparr>lg_info := no_info\<rparr>"
    by (auto simp: collector_step_def logger_snapshot_def bind_eq_Some_conv)
  with log_ok_fill [OF assms(1)] show ?thesis by metis
next
  case (Request c r)
  show ?thesis
  proof (cases r)
    case (GetSnapshot env level)
    with Request assms(2) have "level = kSystemInfoOnly" by (simp add: quiet_def)
    with Request GetSnapshot assms(3) obtain info p where f:
      "fill env kSystemInfoOnly no_info (lg_proc (co_logger s)) = Some (info, p)"
      "co_logger s' = (co_logger s)\<lparr>lg_proc := p\<rparr>"
      by (auto simp: collector_step_def serve_def getSnapshot_def logger_fill_def)
    have "starttimes p \<subseteq>\<^sub>m starttimes (lg_proc (co_logger s))"
      using fill_tells [OF map_le_refl f(1)] by simp
    with assms(1) have "log_ok encode ms (co_logger s')"
      using map_le_trans by (auto simp: log_ok_def f(2))
    then show ?thesis ..
  qed (use Request assms in \<open>auto simp: collector_step_def serve_def flushFile_def rollFile_def version_def quit_def
      restart_def Let_def split_beta\<close>)
qed

lemma collector_loop_log:
  "collector_loop encode es s = Some s' \<Longrightarrow> \<forall>e\<in>set es. quiet e \<Longrightarrow> log_ok encode ms (co_logger s) \<Longrightarrow>
     \<exists>ms. log_ok encode ms (co_logger s')"
proof (induction es arbitrary: s ms)
  case (Cons e es)
  show ?case
  proof (cases "co_quit s")
    case False
    with Cons.prems obtain s1 where step: "collector_step encode e s = Some s1" "collector_loop encode es s1 = Some s'"
      by (auto split: option.splits)
    moreover obtain ms1 where "log_ok encode ms1 (co_logger s1)"
      using collector_step_log [OF Cons.prems(3) _ step(1)] Cons.prems(2) by auto
    ultimately show ?thesis using Cons by auto
  qed (use Cons.prems in auto)
qed auto

lemma logger_start_log:
  assumes "starttimes p = Map.empty" "logger_start encode env (new_logger p) = Some l"
  shows "\<exists>m. log_ok encode [m] l \<and> fill env kSystemInfoInitialSnapshot no_info p = Some (m, lg_proc l)"
proof -
  obtain info q l1 where f: "fill env kSystemInfoInitialSnapshot no_info p = Some (info, q)"
    "save encode ((new_logger p)\<lparr>lg_info := info, lg_proc := q\<rparr>) = Some l1" "l = (flush l1)\<lparr>lg_info := no_info\<rparr>"
    using assms(2) by (auto simp: logger_start_def bind_eq_Some_conv new_logger_def)
  have "log_ok encode [] (new_logger p)"
    by (simp add: log_ok_def log_of_def new_logger_def all_known_def assms(1))
  from log_ok_fill [OF this _ f(2)] f(1) have "log_ok encode [info] (l1\<lparr>lg_info := no_info\<rparr>)"
    by (simp add: new_logger_def)
  moreover have "lg_proc l1 = q" using f(2) by (auto simp: save_def split: option.splits)
  moreover have "l = flush (l1\<lparr>lg_info := no_info\<rparr>)" "lg_proc l = lg_proc l1" by (simp_all add: f(3) flush_def)
  ultimately show ?thesis using f(1) by auto
qed

section \<open>Properties\<close>


definition any_process :: os where
  "any_process = one_process\<lparr>os_open := (\<lambda>name c. if name = dev_null \<or> name = stat_path ''42''
     then (if 3 \<notin> fds c then 3 else if 4 \<notin> fds c then 4 else if 5 \<notin> fds c then 5 else -1) else -1)\<rparr>"

definition no_process :: os where
  "no_process = any_process\<lparr>os_proc_dir := []\<rparr>"

definition client_and_log :: "(system_info, string) collector option" where
  "client_and_log = collector_main (\<lambda>m. m) True fresh_procfs no_process
     [Request ''client'' (GetSnapshot any_process kSystemInfoAndProcesses), Second any_process]"

definition log_only :: "(system_info, string) collector option" where
  "log_only = collector_main (\<lambda>m. m) True fresh_procfs no_process
     [Second any_process, Request ''client'' (GetSnapshot any_process kSystemInfoOnly), Second any_process]"

lemma fresh_starttimes: "starttimes fresh_procfs = Map.empty"
  by (simp add: fresh_procfs_def new_procfs_def)


text \<open>Otherwise it may not: a process that a client's snapshot was the first to see, here
  process 42, comes to the log without its basic information, because the logger and the service
  share one table of the processes already described.\<close>

theorem log_misses_process:
  "case client_and_log of None \<Rightarrow> False
   | Some s \<Rightarrow> map (map (\<lambda>i. (pi_pid i, pi_basic i = None)) \<circ> si_processes) (log_of (co_logger s)) = [[], [(42, True)]] \<and>
       \<not> all_known (log_of (co_logger s))"
  by code_simp

text \<open>The events that are handled: those up to the first permitted request to quit.\<close>

fun quits :: "'c collector_event \<Rightarrow> bool" where
  "quits (Request c Quit) = True"
| "quits e = False"

fun handled :: "bool \<Rightarrow> 'c collector_event list \<Rightarrow> 'c collector_event list" where
  "handled allowed [] = []"
| "handled allowed (e # es) = e # (if allowed \<and> quits e then [] else handled allowed es)"

fun client_of_event :: "'c collector_event \<Rightarrow> 'c list" where
  "client_of_event (Second env) = []"
| "client_of_event (Request c r) = [c]"

fun log_entries :: "'c collector_event \<Rightarrow> nat" where
  "log_entries (Second env) = 1"
| "log_entries (Request c r) = 0"

lemma collector_step_serves:
  assumes "collector_step encode e s = Some s'" "lg_output (co_logger s) = None"
  shows "map fst (co_replies s') = map fst (co_replies s) @ client_of_event e \<and>
    length (log_of (co_logger s')) = length (log_of (co_logger s)) + log_entries e \<and>
    lg_output (co_logger s') = None \<and> co_allowQuit s' = co_allowQuit s \<and>
    co_quit s' = (co_quit s \<or> co_allowQuit s \<and> quits e)"
proof (cases e)
  case (Second env)
  with assms show ?thesis
    by (auto simp: collector_step_def logger_snapshot_def bind_eq_Some_conv save_def fillEmptyBuffer_def log_of_def)
next
  case (Request c r)
  with assms show ?thesis
    by (cases r) (auto simp: collector_step_def serve_def getSnapshot_def logger_fill_def flushFile_def rollFile_def
      version_def quit_def restart_def Let_def flush_def roll_def log_of_def split: if_splits)
qed

lemma collector_loop_serves:
  "collector_loop encode es s = Some s' \<Longrightarrow> lg_output (co_logger s) = None \<Longrightarrow> \<not> co_quit s \<Longrightarrow>
     map fst (co_replies s') = map fst (co_replies s) @ concat (map client_of_event (handled (co_allowQuit s) es)) \<and>
     length (log_of (co_logger s')) = length (log_of (co_logger s)) + sum_list (map log_entries (handled (co_allowQuit s) es))"
proof (induction es arbitrary: s)
  case (Cons e es)
  then obtain s1 where step: "collector_step encode e s = Some s1" "collector_loop encode es s1 = Some s'"
    by (auto split: option.splits)
  note one = collector_step_serves [OF step(1) Cons.prems(2)]
  show ?case
  proof (cases "co_quit s1")
    case True
    then have "s' = s1" using step(2) by (cases es) auto
    with one True Cons.prems(3) show ?thesis by simp
  next
    case False
    with one Cons.prems(3) have go: "handled (co_allowQuit s) (e # es) = e # handled (co_allowQuit s) es" by auto
    from Cons.IH [OF step(2)] one False show ?thesis unfolding go by simp
  qed
qed simp

text \<open>The collector answers every request it handles once, in the order of the requests, writes
  one message to the log at its start and one for each second, and handles nothing after the first
  permitted request to quit, which it still answers.\<close>

theorem collector_serves:
  assumes "collector_main encode isDebugBuild p env es = Some s"
  shows "map fst (co_replies s) = concat (map client_of_event (handled isDebugBuild es)) \<and>
    length (log_of (co_logger s)) = 1 + sum_list (map log_entries (handled isDebugBuild es))"
proof -
  obtain l where l: "logger_start encode env (new_logger p) = Some l"
    "collector_loop encode es (new_collector isDebugBuild l) = Some s"
    using assms by (auto simp: collector_main_def bind_eq_Some_conv)
  have "lg_output l = None \<and> length (log_of l) = 1"
    using l(1) by (auto simp: logger_start_def bind_eq_Some_conv new_logger_def save_def fillEmptyBuffer_def log_of_def flush_def)
  with collector_loop_serves [OF l(2)] show ?thesis by (simp add: new_collector_def)
qed

definition log_then_quit :: "(system_info, string) collector option" where
  "log_then_quit = collector_main (\<lambda>m. m) True fresh_procfs no_process
     [Request ''a'' (Version ''1''), Second no_process, Request ''b'' Quit, Request ''c'' Restart]"

theorem collector_serves_witness:
  "\<exists>s. log_then_quit = Some s \<and> map fst (co_replies s) = [''a'', ''b''] \<and> length (log_of (co_logger s)) = 2"
proof -
  have "map_option co_quit log_then_quit = Some True" by code_simp
  then obtain s where s: "log_then_quit = Some s" by (cases log_then_quit) auto
  from collector_serves [OF s [unfolded log_then_quit_def]] s show ?thesis
    by (intro exI [of _ s]) (simp add: numeral_eq_Suc)
qed

end
