(* ===== verification/CollectReader.thy ===== *)
theory CollectReader
  imports Collector "HOL-Library.Sublist"
begin

text \<open>
  The reader of the collect example (examples/collect/reader.cc): it counts the messages of the log
  files that the collector writes. A file is its decompressed bytes; the functions of muduo are
  parameters: \<open>read\<close> of \<^verbatim>\<open>GzipFile\<close>, which tells how many bytes it takes from the rest of
  the file, the free space of the buffer at the \<open>i\<close>-th read, and \<open>onMessage\<close> of the codec, which
  takes complete messages from the front of a buffer and leaves the rest. That the reader finds
  the messages whatever pieces the file is read in is proved with the collector that writes it.
\<close>

section \<open>The program\<close>

partial_function (option) foreach ::
  "(string \<Rightarrow> nat \<Rightarrow> int) \<Rightarrow> (nat \<Rightarrow> nat) \<Rightarrow> (string \<Rightarrow> 'm list \<times> string) \<Rightarrow> ('m \<Rightarrow> 's \<Rightarrow> 's) \<Rightarrow>
     nat \<Rightarrow> string \<Rightarrow> string \<Rightarrow> 's \<Rightarrow> 's option" where
  "foreach read writable onMessage func i f buffer s =
     (let nr = read f (writable i) in
      if nr > 0 then
        let (msgs, buffer') = onMessage (buffer @ take (nat nr) f)
        in foreach read writable onMessage func (i + 1) (drop (nat nr) f) buffer' (fold func msgs s)
      else Some s)"

declare foreach.simps [code]

text \<open>A file that cannot be opened is \<open>None\<close>. The result is what is printed.\<close>

fun count_files :: "(string \<Rightarrow> nat \<Rightarrow> int) \<Rightarrow> (nat \<Rightarrow> nat) \<Rightarrow> (string \<Rightarrow> 'm list \<times> string) \<Rightarrow>
    string option list \<Rightarrow> int \<Rightarrow> int option" where
  "count_files read writable onMessage [] n = Some n"
| "count_files read writable onMessage (None # fs) n = count_files read writable onMessage fs n"
| "count_files read writable onMessage (Some f # fs) n =
     (case foreach read writable onMessage (\<lambda>msg n. n + 1) 0 f [] n of
        None \<Rightarrow> None
      | Some n \<Rightarrow> count_files read writable onMessage fs n)"

definition reader_main :: "(string \<Rightarrow> nat \<Rightarrow> int) \<Rightarrow> (nat \<Rightarrow> nat) \<Rightarrow> (string \<Rightarrow> 'm list \<times> string) \<Rightarrow>
    string option list \<Rightarrow> string option" where
  "reader_main read writable onMessage fs =
     map_option (\<lambda>n. show_int n @ [newline]) (count_files read writable onMessage fs 0)"

section \<open>What the reader relies on\<close>

text \<open>A read into free space takes at least one byte while there are any, and no more than fit.\<close>

definition reads_ok :: "(string \<Rightarrow> nat \<Rightarrow> int) \<Rightarrow> bool" where
  "reads_ok read \<longleftrightarrow> (\<forall>f n. 0 < n \<longrightarrow>
     (if f = [] then read f n \<le> 0 else 0 < read f n \<and> read f n \<le> int (min n (length f))))"

text \<open>The codec decodes a complete frame at the front of the buffer and goes on with the rest; it
  leaves the beginning of a frame alone.\<close>

definition incomplete :: "(string \<Rightarrow> bool) \<Rightarrow> string \<Rightarrow> bool" where
  "incomplete frame p \<longleftrightarrow> p = [] \<or> (\<exists>b. frame b \<and> strict_prefix p b)"

definition codec_ok :: "(string \<Rightarrow> bool) \<Rightarrow> (string \<Rightarrow> 'm) \<Rightarrow> (string \<Rightarrow> 'm list \<times> string) \<Rightarrow> bool" where
  "codec_ok frame decode onMessage \<longleftrightarrow>
     (\<forall>b rest. frame b \<longrightarrow> onMessage (b @ rest) = apfst (Cons (decode b)) (onMessage rest)) \<and>
     (\<forall>p. incomplete frame p \<longrightarrow> onMessage p = ([], p))"

lemma incomplete_prefix: "incomplete frame (p @ q) \<Longrightarrow> incomplete frame p"
  by (auto simp: incomplete_def strict_prefix_def prefix_def)

text \<open>However a sequence of frames is cut, the codec takes the complete ones before the cut.\<close>

lemma codec_cut:
  assumes ok: "codec_ok frame decode onMessage" and tail: "incomplete frame tail"
  shows "\<forall>b\<in>set bs. frame b \<Longrightarrow> x @ rest = concat bs @ tail \<Longrightarrow>
    \<exists>bs1 bs2 p. bs = bs1 @ bs2 \<and> onMessage x = (map decode bs1, p) \<and> incomplete frame p \<and>
      p @ rest = concat bs2 @ tail"
proof (induction bs arbitrary: x)
  case Nil
  then have "incomplete frame x" using tail incomplete_prefix [of frame x rest] by simp
  with ok Nil show ?case by (intro exI [of _ "[]"] exI [of _ x]) (simp add: codec_ok_def)
next
  case (Cons b bs)
  then consider (whole) y where "x = b @ y" "y @ rest = concat bs @ tail"
    | (part) z where "x @ z = b" "z \<noteq> []"
  proof -
    from Cons.prems(2) obtain us where "x = b @ us \<and> us @ rest = concat bs @ tail \<or> x @ us = b \<and> rest = us @ concat bs @ tail"
      by (auto simp: append_eq_append_conv2)
    then show thesis using that by (cases "us = []") auto
  qed
  then show ?case
  proof cases
    case whole
    with Cons.IH [of y] Cons.prems obtain bs1 bs2 p where "bs = bs1 @ bs2" "onMessage y = (map decode bs1, p)"
      "incomplete frame p" "p @ rest = concat bs2 @ tail" by auto
    moreover have "onMessage x = apfst (Cons (decode b)) (onMessage y)"
      using ok Cons.prems(1) whole(1) by (simp add: codec_ok_def)
    ultimately show ?thesis by (intro exI [of _ "b # bs1"] exI [of _ bs2] exI [of _ p]) simp
  next
    case part
    then have "incomplete frame x" using Cons.prems(1) by (auto simp: incomplete_def strict_prefix_def)
    with ok Cons.prems(2) show ?thesis
      by (intro exI [of _ "[]"] exI [of _ "b # bs"] exI [of _ x]) (simp add: codec_ok_def)
  qed
qed

lemma incomplete_no_frame:
  assumes ok: "codec_ok frame decode onMessage" and "incomplete frame (concat bs @ tail)" "\<forall>b\<in>set bs. frame b"
  shows "bs = []"
proof (cases bs)
  case (Cons b bs')
  then have "onMessage (concat bs @ tail) = apfst (Cons (decode b)) (onMessage (concat bs' @ tail))"
    using ok assms(3) by (simp add: codec_ok_def)
  moreover have "onMessage (concat bs @ tail) = ([], concat bs @ tail)"
    using ok assms(2) unfolding codec_ok_def by blast
  ultimately show ?thesis by (cases "onMessage (concat bs' @ tail)") simp
qed

lemma foreach_exact:
  assumes ok: "codec_ok frame decode onMessage" "reads_ok read" "\<forall>i. 0 < writable i"
    and tail: "incomplete frame tail"
  shows "\<forall>b\<in>set bs. frame b \<Longrightarrow> incomplete frame buffer \<Longrightarrow> buffer @ f = concat bs @ tail \<Longrightarrow>
    foreach read writable onMessage func i f buffer s = Some (fold func (map decode bs) s)"
proof (induction "length f" arbitrary: i f buffer bs s rule: less_induct)
  case less
  define nr where "nr = read f (writable i)"
  have nr: "if f = [] then nr \<le> 0 else 0 < nr \<and> nr \<le> int (min (writable i) (length f))"
    using ok(2,3) unfolding reads_ok_def nr_def by blast
  show ?case
  proof (cases "f = []")
    case True
    then have "bs = []" using incomplete_no_frame [OF ok(1)] less.prems by simp
    with nr True show ?thesis by (subst foreach.simps) (simp add: nr_def)
  next
    case False
    have "(buffer @ take (nat nr) f) @ drop (nat nr) f = concat bs @ tail" using less.prems(3) by simp
    from codec_cut [OF ok(1) tail less.prems(1) this] obtain bs1 bs2 p where cut: "bs = bs1 @ bs2"
      "onMessage (buffer @ take (nat nr) f) = (map decode bs1, p)" "incomplete frame p"
      "p @ drop (nat nr) f = concat bs2 @ tail" by blast
    have "foreach read writable onMessage func (i + 1) (drop (nat nr) f) p (fold func (map decode bs1) s) =
        Some (fold func (map decode bs2) (fold func (map decode bs1) s))"
      using less.hyps [of "drop (nat nr) f" bs2 p] nr False less.prems(1) cut by auto
    with nr False cut(1,2) show ?thesis by (subst foreach.simps) (simp add: nr_def Let_def)
  qed
qed

text \<open>A log file: its messages, and what has been written of one more.\<close>

type_synonym log_file = "string list \<times> string"

definition bytes_of :: "log_file \<Rightarrow> string" where
  "bytes_of f = concat (fst f) @ snd f"

definition messages_of :: "log_file option list \<Rightarrow> string list" where
  "messages_of fs = concat (map (\<lambda>f. case f of None \<Rightarrow> [] | Some f \<Rightarrow> fst f) fs)"

lemma fold_count: "fold (\<lambda>msg n. n + 1) ms (n::int) = n + int (length ms)"
  by (induction ms arbitrary: n) auto

lemma count_files_exact:
  assumes ok: "codec_ok frame decode onMessage" "reads_ok read" "\<forall>i. 0 < writable i"
  shows "\<forall>bs tail. Some (bs, tail) \<in> set fs \<longrightarrow> (\<forall>b\<in>set bs. frame b) \<and> incomplete frame tail \<Longrightarrow>
    count_files read writable onMessage (map (map_option bytes_of) fs) n = Some (n + int (length (messages_of fs)))"
proof (induction fs arbitrary: n)
  case (Cons f fs)
  show ?case
  proof (cases f)
    case None
    with Cons show ?thesis by (simp add: messages_of_def)
  next
    case (Some g)
    obtain bs tail where g: "g = (bs, tail)" by (cases g)
    have "foreach read writable onMessage (\<lambda>msg n. n + 1) 0 (bytes_of g) [] n =
        Some (fold (\<lambda>msg n. n + 1) (map decode bs) n)"
      using Cons.prems Some g by (intro foreach_exact [OF ok, of tail]) (auto simp: bytes_of_def incomplete_def)
    then have "count_files read writable onMessage (map (map_option bytes_of) (f # fs)) n =
        count_files read writable onMessage (map (map_option bytes_of) fs) (n + int (length bs))"
      by (simp add: Some fold_count)
    also have "\<dots> = Some (n + int (length bs) + int (length (messages_of fs)))"
      using Cons.prems by (intro Cons.IH) auto
    finally show ?thesis by (simp add: messages_of_def Some g)
  qed
qed (simp add: messages_of_def)

section \<open>The collector and the reader\<close>

lemma collector_step_frames:
  assumes "collector_step encode e s = Some s'" "lg_output (co_logger s) = None"
  shows "lg_output (co_logger s') = None \<and> (\<exists>ms. log_of (co_logger s') = log_of (co_logger s) @ map encode ms)"
proof (cases e)
  case (Second env)
  with assms obtain m where "log_of (co_logger s') = log_of (co_logger s) @ map encode [m]" "lg_output (co_logger s') = None"
    by (auto simp: collector_step_def logger_snapshot_def bind_eq_Some_conv save_def fillEmptyBuffer_def log_of_def)
  then show ?thesis by blast
next
  case (Request c r)
  with assms have "log_of (co_logger s') = log_of (co_logger s) @ map encode [] \<and> lg_output (co_logger s') = None"
    by (cases r) (auto simp: collector_step_def serve_def getSnapshot_def logger_fill_def flushFile_def rollFile_def
      version_def quit_def restart_def Let_def flush_def roll_def log_of_def split: if_splits)
  then show ?thesis by blast
qed

lemma collector_loop_frames:
  "collector_loop encode es s = Some s' \<Longrightarrow> lg_output (co_logger s) = None \<Longrightarrow>
     \<exists>ms. log_of (co_logger s') = log_of (co_logger s) @ map encode ms"
proof (induction es arbitrary: s)
  case (Cons e es)
  show ?case
  proof (cases "co_quit s")
    case True
    with Cons.prems(1) show ?thesis by (intro exI [of _ "[]"]) simp
  next
    case False
    with Cons.prems obtain s1 where one: "collector_step encode e s = Some s1" "collector_loop encode es s1 = Some s'"
      by (auto split: option.splits)
    from collector_step_frames [OF one(1) Cons.prems(2)] Cons.IH [OF one(2)] obtain ms ms' where
      "log_of (co_logger s1) = log_of (co_logger s) @ map encode ms"
      "log_of (co_logger s') = log_of (co_logger s1) @ map encode ms'" by blast
    then show ?thesis by (intro exI [of _ "ms @ ms'"]) simp
  qed
qed (auto intro: exI [of _ "[]"])

lemma collector_log_frames:
  assumes "collector_main encode isDebugBuild p env es = Some s"
  shows "set (log_of (co_logger s)) \<subseteq> range encode"
proof -
  obtain l where l: "logger_start encode env (new_logger p) = Some l"
    "collector_loop encode es (new_collector isDebugBuild l) = Some s"
    using assms by (auto simp: collector_main_def bind_eq_Some_conv)
  have "lg_output l = None \<and> set (log_of l) \<subseteq> range encode"
    using l(1) by (auto simp: logger_start_def bind_eq_Some_conv new_logger_def save_def fillEmptyBuffer_def log_of_def flush_def)
  with collector_loop_frames [OF l(2)] show ?thesis by (auto simp: new_collector_def)
qed

text \<open>C34: The reader returns, whatever pieces the files are read in, and prints the number of the
  snapshots that the collector has written: one at its start and one for each second up to the
  request to quit, if its log files together have the messages of the log. Of a file that ends in
  the middle of a message it counts the complete ones, and a file that cannot be opened adds
  nothing.\<close>

theorem reader_counts_snapshots:
  assumes "collector_main encode isDebugBuild p env es = Some s"
    "codec_ok (\<lambda>b. b \<in> range encode) decode onMessage" "reads_ok read" "\<forall>i. 0 < writable i"
    "messages_of fs = log_of (co_logger s)"
    "\<forall>bs tail. Some (bs, tail) \<in> set fs \<longrightarrow> incomplete (\<lambda>b. b \<in> range encode) tail"
  shows "reader_main read writable onMessage (map (map_option bytes_of) fs) =
    Some (show_int (1 + int (sum_list (map log_entries (handled isDebugBuild es)))) @ [newline])"
proof -
  have "\<forall>bs tail. Some (bs, tail) \<in> set fs \<longrightarrow> (\<forall>b\<in>set bs. b \<in> range encode) \<and> incomplete (\<lambda>b. b \<in> range encode) tail"
  proof (intro allI impI conjI)
    fix bs tail assume f: "Some (bs, tail) \<in> set fs"
    then have "set bs \<subseteq> set (messages_of fs)" by (force simp: messages_of_def)
    then show "\<forall>b\<in>set bs. b \<in> range encode" using assms(5) collector_log_frames [OF assms(1)] by auto
    show "incomplete (\<lambda>b. b \<in> range encode) tail" using assms(6) f by blast
  qed
  from count_files_exact [OF assms(2-4) this] have "count_files read writable onMessage (map (map_option bytes_of) fs) 0 =
      Some (int (length (log_of (co_logger s))))"
    using assms(5) by simp
  then show ?thesis using collector_serves [OF assms(1)] by (simp add: reader_main_def)
qed

text \<open>A codec for the instance: a frame is some \<^verbatim>\<open>a\<close>s and a full stop.\<close>

definition dots :: "string \<Rightarrow> nat list \<times> string" where
  "dots s = (map length (butlast (split_at CHR ''.'' s)), last (split_at CHR ''.'' s))"

definition dotted :: "system_info \<Rightarrow> string" where
  "dotted m = replicate (length (si_processes m)) CHR ''a'' @ ''.''"

lemma dotted_ok: "codec_ok (\<lambda>b. b \<in> range dotted) (\<lambda>b. length b - 1) dots"
proof -
  have "dots ((replicate k CHR ''a'' @ ''.'') @ rest) = apfst (Cons k) (dots rest)" for k rest
    by (simp add: dots_def split_at_append split_at_not_Nil)
  moreover have "dots p = ([], p)" if "incomplete (\<lambda>b. b \<in> range dotted) p" for p
  proof -
    have "CHR ''.'' \<notin> set p"
    proof (cases "p = []")
      case False
      with that obtain b where "strict_prefix p (dotted b)" by (auto simp: incomplete_def)
      then obtain k z where "replicate k CHR ''a'' @ ''.'' = p @ z" "z \<noteq> []"
        unfolding dotted_def by (metis append_Nil2 prefixE strict_prefix_def)
      then have "butlast (replicate k CHR ''a'' @ ''.'') = p @ butlast z" by (metis butlast_append)
      then have "set p \<subseteq> set (replicate k CHR ''a'')" by (metis butlast_snoc set_append sup.cobounded1)
      then show ?thesis by (auto simp: set_replicate_conv_if split: if_splits)
    qed simp
    then show ?thesis by (simp add: dots_def split_at_no_sep)
  qed
  ultimately show ?thesis by (auto simp: codec_ok_def dotted_def)
qed

definition pairs :: "string \<Rightarrow> nat \<Rightarrow> int" where
  "pairs f n = int (min 2 (min n (length f)))"

lemma pairs_ok: "reads_ok pairs"
  by (auto simp: reads_ok_def pairs_def)

text \<open>The log of two messages in two files, of which the second has the beginning of a third.\<close>

definition one_second :: "(string, string) collector option" where
  "one_second = collector_main dotted True fresh_procfs no_process
     [Second any_process, Request ''b'' Quit, Second no_process]"

theorem reader_counts_snapshots_witness:
  "reader_main pairs (\<lambda>i. 4096) dots [Some ''.'', None, Some ''a.a''] = Some (show_int 2 @ [newline])"
proof -
  have "map_option (\<lambda>s. log_of (co_logger s)) one_second = Some [''.'', ''a.'']" by code_simp
  then obtain s where s: "one_second = Some s" "log_of (co_logger s) = [''.'', ''a.'']" by (cases one_second) auto
  have "strict_prefix ''a'' (dotted (no_info\<lparr>si_processes := [p]\<rparr>))" for p by (simp add: dotted_def)
  then have "incomplete (\<lambda>b. b \<in> range dotted) ''a''" "incomplete (\<lambda>b. b \<in> range dotted) []"
    by (auto simp: incomplete_def)
  from reader_counts_snapshots [OF s(1) [unfolded one_second_def] dotted_ok pairs_ok,
      of "\<lambda>i. 4096" "[Some ([''.''], []), None, Some ([''a.''], ''a'')]"] s(2) this
  show ?thesis by (simp add: messages_of_def bytes_of_def)
qed

end
