(* ===== verification/Heartbeat.thy ===== *)
theory Heartbeat
  imports CLib "HOL-Library.Sublist"
begin

text \<open>
  The heartbeat of the zurg slave (examples/zurg/slave/Heartbeat.cc): the functions that shorten
  the text of three files of /proc before it is sent, and the messages themselves. Muduo's
  \<^verbatim>\<open>ReadSmallFile\<close> is a parameter: what opening one gives, and the error and the bytes of a
  read. \<open>None\<close> is a failing assertion.
\<close>

section \<open>/proc/diskstats\<close>

definition diskstats_zeros :: string where
  "diskstats_zeros = '' 0 0 0 0 0 0 0 0 0 0 0'' @ [newline]"

text \<open>The loop over the lines: what is left at its end, and the result.\<close>

function diskstats_loop :: "string \<Rightarrow> string \<Rightarrow> string \<times> string" where
  "diskstats_loop p result =
     (case str_find_char newline p of
        None \<Rightarrow> (p, result)
      | Some nl \<Rightarrow>
          (let line = take (nl + 1) p;
               end' = drop (length line - length diskstats_zeros) line;
               result = (if length diskstats_zeros < length line \<and> end' \<noteq> diskstats_zeros
                         then result @ line else result)
           in diskstats_loop (drop (nl + 1) p) result))"
  by pat_completeness auto
termination
  by (relation "measure (length \<circ> fst)") (auto dest: str_find_char_Some)

declare diskstats_loop.simps [simp del]

definition strip_diskstats :: "string \<Rightarrow> string option" where
  "strip_diskstats diskstats =
     (let (p, result) = diskstats_loop (c_str diskstats) []
      in if p = [] \<and> length (c_str diskstats) = length diskstats then Some result else None)"

section \<open>/proc/meminfo\<close>

definition AreBothSpaces :: "char \<Rightarrow> char \<Rightarrow> bool" where
  "AreBothSpaces x y \<longleftrightarrow> x = CHR '' '' \<and> y = CHR '' ''"

text \<open>\<^verbatim>\<open>std::unique\<close> compares each element with the last one it kept.\<close>

fun unique_by :: "('a \<Rightarrow> 'a \<Rightarrow> bool) \<Rightarrow> 'a list \<Rightarrow> 'a list" where
  "unique_by P (x # y # xs) = (if P x y then unique_by P (x # xs) else x # unique_by P (y # xs))"
| "unique_by P xs = xs"

definition strip_meminfo :: "string \<Rightarrow> string" where
  "strip_meminfo meminfo = unique_by AreBothSpaces meminfo"

section \<open>/proc/stat\<close>

definition intr_mark :: string where
  "intr_mark = newline # ''intr ''"

text \<open>The loop that moves \<^verbatim>\<open>p\<close> back over \<^verbatim>\<open>" 0"\<close>. It stops at the latest before
  \<^verbatim>\<open>"intr"\<close>, so the bound on \<open>p\<close> only serves the definition.\<close>

fun zeros_start :: "string \<Rightarrow> nat \<Rightarrow> nat" where
  "zeros_start s p =
     (if 2 \<le> p \<and> s ! (p - 1) = CHR ''0'' \<and> s ! (p - 2) = CHR '' '' then zeros_start s (p - 2) else p)"

declare zeros_start.simps [simp del]

text \<open>\<^verbatim>\<open>erase(pos, len)\<close> with a negative \<^verbatim>\<open>len\<close>, a large number after its conversion,
  erases to the end.\<close>

definition erase_range :: "string \<Rightarrow> nat \<Rightarrow> int \<Rightarrow> string" where
  "erase_range s pos len =
     (if len < 0 \<or> int (length s) < int pos + len then take pos s else take pos s @ drop (pos + nat len) s)"

definition strip_stat :: "string \<Rightarrow> string option" where
  "strip_stat proc_stat =
     (case str_find intr_mark (c_str proc_stat) of
        None \<Rightarrow> Some proc_stat
      | Some intr \<Rightarrow>
          (case str_find_char newline (drop (intr + 1) (c_str proc_stat)) of
             None \<Rightarrow> None
           | Some k \<Rightarrow>
               (let nl = intr + 1 + k;
                    p = zeros_start proc_stat nl + 1
                in Some (erase_range proc_stat p (int nl - int p)))))"

section \<open>The messages\<close>

record uname_info =
  un_sysname :: string
  un_nodename :: string
  un_release :: string
  un_version :: string
  un_machine :: string
  un_domainname :: string

record slave_heartbeat =
  hb_slave_name :: string
  hb_send_time_us :: "int option"
  hb_host_name :: "string option"
  hb_listen_port :: "int option"
  hb_slave_pid :: "int option"
  hb_start_time_us :: "int option"
  hb_slave_version :: "string option"
  hb_cpuinfo :: "string option"
  hb_version :: "string option"
  hb_etc_mtab :: "string option"
  hb_uname :: "uname_info option"
  hb_meminfo :: "string option"
  hb_proc_stat :: "string option"
  hb_loadavg :: "string option"
  hb_diskstats :: "string option"
  hb_net_dev :: "string option"
  hb_net_tcp :: "string option"

text \<open>The system: \<^verbatim>\<open>ReadSmallFile\<close>'s constructor and \<^verbatim>\<open>readToBuffer\<close>, the result of
  \<^verbatim>\<open>uname\<close>, the clock, and what \<^verbatim>\<open>ProcessInfo\<close> tells.\<close>

record 'f host =
  new_small_file :: "string \<Rightarrow> 'f"
  read_small_file :: "'f \<Rightarrow> int \<times> string"
  host_uname :: "uname_info option"
  host_now :: int
  host_hostname :: string
  host_pid :: int
  host_start_time :: int
  host_slave_version :: string

record 'f heartbeat =
  hb_name :: string
  hb_port :: int
  hb_files :: "string \<rightharpoonup> 'f"
  hb_beating :: bool

definition new_heartbeat :: "string \<Rightarrow> int \<Rightarrow> 'f heartbeat" where
  "new_heartbeat name port = \<lparr>hb_name = name, hb_port = port, hb_files = Map.empty, hb_beating = False\<rparr>"

text \<open>\<^verbatim>\<open>ProcFs::readTo\<close> opens each file once.\<close>

definition readTo :: "'f host \<Rightarrow> string \<Rightarrow> string \<Rightarrow> (string \<rightharpoonup> 'f) \<Rightarrow> int \<times> string \<times> (string \<rightharpoonup> 'f)" where
  "readTo h filename out files =
     (let f = (case files filename of None \<Rightarrow> new_small_file h filename | Some f \<Rightarrow> f);
          (err, content) = read_small_file h f
      in (err, if content \<noteq> [] then content else out, files(filename \<mapsto> f)))"

text \<open>\<^verbatim>\<open>FILL_HB\<close>: the field of an empty message, and the files.\<close>

definition fill_hb :: "'f host \<Rightarrow> string \<Rightarrow> (string \<rightharpoonup> 'f) \<Rightarrow> string option \<times> (string \<rightharpoonup> 'f)" where
  "fill_hb h proc_file files =
     (let (err, content, files) = readTo h proc_file [] files
      in (if err \<noteq> 0 then None else Some content, files))"

text \<open>\<^verbatim>\<open>mutable_f()\<close> sets a field that is not there to the empty string.\<close>

definition mutable :: "string option \<Rightarrow> string" where
  "mutable f = (case f of None \<Rightarrow> [] | Some s \<Rightarrow> s)"

definition static_part :: "'f host \<Rightarrow> int \<Rightarrow> slave_heartbeat \<Rightarrow> (string \<rightharpoonup> 'f) \<Rightarrow> slave_heartbeat \<times> (string \<rightharpoonup> 'f)" where
  "static_part h port hb files =
     (let hb = hb\<lparr>hb_host_name := Some (host_hostname h)\<rparr>;
          hb = (if 0 < port then hb\<lparr>hb_listen_port := Some port\<rparr> else hb);
          hb = hb\<lparr>hb_slave_pid := Some (host_pid h), hb_start_time_us := Some (host_start_time h),
            hb_slave_version := Some (host_slave_version h)\<rparr>;
          (cpuinfo, files) = fill_hb h ''/proc/cpuinfo'' files;
          (version, files) = fill_hb h ''/proc/version'' files;
          (mtab, files) = fill_hb h ''/etc/mtab'' files
      in (hb\<lparr>hb_cpuinfo := Some (mutable cpuinfo), hb_version := version, hb_etc_mtab := mtab,
            hb_uname := host_uname h\<rparr>, files))"

definition beat :: "'f host \<Rightarrow> bool \<Rightarrow> 'f heartbeat \<Rightarrow> (slave_heartbeat \<times> 'f heartbeat) option" where
  "beat h showStatic b =
     (let hb = \<lparr>hb_slave_name = hb_name b, hb_send_time_us = None, hb_host_name = None, hb_listen_port = None,
            hb_slave_pid = None, hb_start_time_us = None, hb_slave_version = None, hb_cpuinfo = None,
            hb_version = None, hb_etc_mtab = None, hb_uname = None, hb_meminfo = None, hb_proc_stat = None,
            hb_loadavg = None, hb_diskstats = None, hb_net_dev = None, hb_net_tcp = None\<rparr>;
          (hb, files) = (if showStatic then static_part h (hb_port b) hb (hb_files b) else (hb, hb_files b));
          hb = hb\<lparr>hb_send_time_us := Some (host_now h)\<rparr>;
          (meminfo, files) = fill_hb h ''/proc/meminfo'' files;
          (proc_stat, files) = fill_hb h ''/proc/stat'' files;
          (loadavg, files) = fill_hb h ''/proc/loadavg'' files;
          (diskstats, files) = fill_hb h ''/proc/diskstats'' files;
          (net_dev, files) = fill_hb h ''/proc/net/dev'' files;
          (net_tcp, files) = fill_hb h ''/proc/net/tcp'' files
      in case strip_diskstats (mutable diskstats) of
           None \<Rightarrow> None
         | Some disks \<Rightarrow>
             (let mem = strip_meminfo (mutable meminfo)
              in case strip_stat (mutable proc_stat) of
                   None \<Rightarrow> None
                 | Some st \<Rightarrow>
                     Some (hb\<lparr>hb_meminfo := Some mem, hb_proc_stat := Some st, hb_loadavg := loadavg,
                         hb_diskstats := Some disks, hb_net_dev := net_dev, hb_net_tcp := net_tcp\<rparr>,
                       b\<lparr>hb_files := files\<rparr>)))"

text \<open>The operations give the messages they send.\<close>

definition start :: "'f host \<Rightarrow> 'f heartbeat \<Rightarrow> (slave_heartbeat list \<times> 'f heartbeat) option" where
  "start h b = map_option (\<lambda>(hb, b). ([hb], b)) (beat h True (b\<lparr>hb_beating := True\<rparr>))"

definition stop :: "'f heartbeat \<Rightarrow> 'f heartbeat" where
  "stop b = b\<lparr>hb_beating := False\<rparr>"

definition onTimer :: "'f host \<Rightarrow> 'f heartbeat \<Rightarrow> (slave_heartbeat list \<times> 'f heartbeat) option" where
  "onTimer h b =
     (if hb_beating b then map_option (\<lambda>(hb, b). ([hb], b)) (beat h False b) else Some ([], b))"

section \<open>What the stripping keeps\<close>

definition in_use :: "string \<Rightarrow> bool" where
  "in_use l \<longleftrightarrow> 22 < length l \<and> \<not> suffix '' 0 0 0 0 0 0 0 0 0 0 0'' l"

lemma suffix_drop: "length ys \<le> length xs \<Longrightarrow> suffix ys xs \<longleftrightarrow> drop (length xs - length ys) xs = ys"
  by (metis append_take_drop_id append_eq_conv_conj length_append suffix_def add_diff_cancel_right' suffix_drop)

lemma line_in_use:
  "(length diskstats_zeros < length (l @ [newline]) \<and>
    drop (length (l @ [newline]) - length diskstats_zeros) (l @ [newline]) \<noteq> diskstats_zeros) \<longleftrightarrow> in_use l"
proof (cases "22 < length l")
  case True
  then have "length l - 22 \<le> length l" by simp
  then show ?thesis
    using True suffix_drop [of "'' 0 0 0 0 0 0 0 0 0 0 0''" l]
    by (simp add: diskstats_zeros_def in_use_def)
qed (simp add: diskstats_zeros_def in_use_def)

lemma diskstats_loop_unlines:
  assumes "\<forall>l\<in>set ls. newline \<notin> set l" "newline \<notin> set rest"
  shows "diskstats_loop (unlines ls @ rest) result = (rest, result @ unlines (filter in_use ls))"
  using assms(1)
proof (induction ls arbitrary: result)
  case Nil
  then show ?case using assms(2) by (simp add: diskstats_loop.simps str_find_char_None [THEN iffD2])
next
  case (Cons l ls)
  have nl: "str_find_char newline (unlines (l # ls) @ rest) = Some (length l)"
    using Cons.prems str_find_char_append [of newline l "unlines ls @ rest"] by simp
  have line: "take (length l + 1) (unlines (l # ls) @ rest) = l @ [newline]"
    "drop (length l + 1) (unlines (l # ls) @ rest) = unlines ls @ rest" by simp_all
  have "diskstats_loop (unlines (l # ls) @ rest) result =
      diskstats_loop (unlines ls @ rest) (if in_use l then result @ l @ [newline] else result)"
    unfolding diskstats_loop.simps [of "unlines (l # ls) @ rest"] nl option.case Let_def line line_in_use ..
  with Cons show ?case by simp
qed

text \<open>\<^verbatim>\<open>strip_diskstats\<close> drops exactly the lines of disks that were never used, those
  whose last eleven counters are zero (and lines too short to hold eleven), keeps the others
  unchanged and in order, and fails its assertion if the last line has no end, as when the file
  is longer than the reader's buffer.\<close>

theorem strip_diskstats_exact:
  assumes "\<forall>l\<in>set ls. newline \<notin> set l \<and> CHR 0x00 \<notin> set l" "newline \<notin> set rest" "CHR 0x00 \<notin> set rest"
  shows "strip_diskstats (unlines ls @ rest) = (if rest = [] then Some (unlines (filter in_use ls)) else None)"
proof -
  have "CHR 0x00 \<notin> set (unlines ls @ rest)"
    using assms by (auto simp: unlines_def newline_def)
  then have "c_str (unlines ls @ rest) = unlines ls @ rest" by (rule c_str_id)
  with diskstats_loop_unlines [of ls rest "[]"] assms show ?thesis by (simp add: strip_diskstats_def)
qed

theorem strip_diskstats_exact_witness:
  "strip_diskstats (unlines [''8 0 sda 12 0 96 4 1 0 8 2 0 4 6'', ''7 0 loop0 0 0 0 0 0 0 0 0 0 0 0'',
      ''8 1 sdb 5 0 40 1 0 0 0 0 0 1 1''] @ []) =
   Some (unlines [''8 0 sda 12 0 96 4 1 0 8 2 0 4 6'', ''8 1 sdb 5 0 40 1 0 0 0 0 0 1 1''])"
  by (subst strip_diskstats_exact, code_simp, simp, simp, code_simp)

text \<open>The words of a line, separated by any number of blanks.\<close>

definition words_of :: "string \<Rightarrow> string list" where
  "words_of s = filter (\<lambda>w. w \<noteq> []) (split_at CHR '' '' s)"

lemma words_of_blank: "words_of (CHR '' '' # s) = words_of s"
  by (simp add: words_of_def)

lemma words_of_char:
  "c \<noteq> CHR '' '' \<Longrightarrow> words_of s = words_of t \<Longrightarrow>
     (s \<noteq> [] \<and> hd s \<noteq> CHR '' '') = (t \<noteq> [] \<and> hd t \<noteq> CHR '' '') \<Longrightarrow> words_of (c # s) = words_of (c # t)"
proof -
  have split: "\<exists>p ps. split_at CHR '' '' s = p # ps \<and> (p \<noteq> [] \<longleftrightarrow> s \<noteq> [] \<and> hd s \<noteq> CHR '' '')" for s
    by (cases s) (auto split: list.split)
  assume *: "c \<noteq> CHR '' ''" "words_of s = words_of t"
    "(s \<noteq> [] \<and> hd s \<noteq> CHR '' '') = (t \<noteq> [] \<and> hd t \<noteq> CHR '' '')"
  obtain p ps where p: "split_at CHR '' '' s = p # ps" "p \<noteq> [] \<longleftrightarrow> s \<noteq> [] \<and> hd s \<noteq> CHR '' ''" using split by blast
  obtain q qs where q: "split_at CHR '' '' t = q # qs" "q \<noteq> [] \<longleftrightarrow> t \<noteq> [] \<and> hd t \<noteq> CHR '' ''" using split by blast
  from * p q show ?thesis by (cases "p = []") (auto simp: words_of_def)
qed

text \<open>\<^verbatim>\<open>strip_meminfo\<close> leaves no two blanks in a row and changes no word.\<close>

theorem strip_meminfo_words:
  "words_of (strip_meminfo s) = words_of s \<and>
   successively (\<lambda>x y. \<not> (x = CHR '' '' \<and> y = CHR '' '')) (strip_meminfo s)"
proof -
  have *: "words_of (unique_by AreBothSpaces s) = words_of s \<and>
      (unique_by AreBothSpaces s \<noteq> [] \<longleftrightarrow> s \<noteq> []) \<and> (s \<noteq> [] \<longrightarrow> hd (unique_by AreBothSpaces s) = hd s) \<and>
      successively (\<lambda>x y. \<not> AreBothSpaces x y) (unique_by AreBothSpaces s)"
  proof (induction AreBothSpaces s rule: unique_by.induct)
    case (1 x y xs)
    show ?case
    proof (cases "AreBothSpaces x y")
      case True
      with 1(1) show ?thesis by (auto simp: AreBothSpaces_def words_of_blank)
    next
      case False
      let ?u = "unique_by AreBothSpaces (y # xs)"
      have IH: "words_of ?u = words_of (y # xs)" "?u \<noteq> []" "hd ?u = y"
        "successively (\<lambda>x y. \<not> AreBothSpaces x y) ?u" using 1(2) [OF False] by auto
      have "words_of (x # ?u) = words_of (x # y # xs)"
      proof (cases "x = CHR '' ''")
        case True
        with IH(1) show ?thesis by (simp add: words_of_blank)
      next
        case False
        with IH show ?thesis by (intro words_of_char) auto
      qed
      with IH False show ?thesis by (cases ?u) auto
    qed
  qed auto
  then show ?thesis
    by (simp add: strip_meminfo_def AreBothSpaces_def)
qed

definition zeros :: "nat \<Rightarrow> string" where
  "zeros k = concat (replicate k '' 0'')"

lemma zeros_Suc: "zeros (Suc k) = zeros k @ '' 0''"
  by (induction k) (simp_all add: zeros_def)

lemma length_zeros: "length (zeros k) = 2 * k"
  by (induction k) (simp_all add: zeros_def)

lemma zeros_start_append:
  assumes "\<not> suffix '' 0'' w" "2 \<le> length w"
  shows "zeros_start (w @ zeros k @ t) (length w + 2 * k) = length w"
proof (induction k arbitrary: t)
  case 0
  define u where "u = length w - 2"
  have u: "length w = Suc (Suc u)" using assms(2) by (simp add: u_def)
  have "drop u w = [w ! u, w ! Suc u]"
    using u by (simp add: Cons_nth_drop_Suc [symmetric])
  then have "w = take u w @ [w ! u, w ! Suc u]" by (metis append_take_drop_id)
  then have "\<not> (w ! Suc u = CHR ''0'' \<and> w ! u = CHR '' '')"
    using assms(1) unfolding suffix_def by metis
  then have "\<not> ((w @ zeros 0 @ t) ! Suc u = CHR ''0'' \<and> (w @ zeros 0 @ t) ! u = CHR '' '')"
    using u by (simp add: nth_append)
  then show ?case using u by (subst zeros_start.simps) auto
next
  case (Suc k)
  let ?s = "w @ zeros (Suc k) @ t"
  let ?n = "length w + 2 * k"
  have s: "?s = (w @ zeros k) @ '' 0'' @ t" "?s = w @ zeros k @ ('' 0'' @ t)" by (simp_all add: zeros_Suc)
  have "length (w @ zeros k) = ?n" by (simp add: length_zeros)
  then have at: "?s ! Suc ?n = CHR ''0''" "?s ! ?n = CHR '' ''"
    unfolding s(1) by (simp_all only: nth_append) simp_all
  have "zeros_start ?s (length w + 2 * Suc k) = zeros_start ?s ?n"
    by (subst zeros_start.simps) (use at in simp)
  also have "\<dots> = length w" unfolding s(2) by (rule Suc.IH)
  finally show ?case .
qed

lemma erase_range_between:
  "p \<le> q \<Longrightarrow> q \<le> length s \<Longrightarrow> erase_range s p (int q - int p) = take p s @ drop q s"
  by (simp add: erase_range_def of_nat_diff [symmetric] del: of_nat_diff)

text \<open>\<^verbatim>\<open>strip_stat\<close> shortens the line of interrupt counters: if the line \<open>''intr'' @ l\<close> ends
  with \<open>k > 0\<close> counters that are zero, they are removed, all but a blank, and the rest of the file
  stays. But if its last counter is not zero, everything after that line is lost, since the
  length passed to \<^verbatim>\<open>erase\<close> is then -1.\<close>

theorem strip_stat_exact:
  assumes "str_find intr_mark (pre @ newline # ''intr'' @ l @ zeros k @ newline # rest) = Some (length pre)"
    "CHR 0x00 \<notin> set (pre @ l @ rest)" "newline \<notin> set l" "\<not> suffix '' 0'' (''intr'' @ l)"
  shows "strip_stat (pre @ newline # ''intr'' @ l @ zeros k @ newline # rest) =
    Some (pre @ newline # ''intr'' @ l @ (if k = 0 then [newline] else CHR '' '' # newline # rest))"
proof -
  let ?s = "pre @ newline # ''intr'' @ l @ zeros k @ newline # rest"
  let ?w = "pre @ newline # ''intr'' @ l"
  have chars: "set (zeros k) \<subseteq> {CHR '' '', CHR ''0''}" by (induction k) (auto simp: zeros_def)
  have "CHR 0x00 \<notin> set ?s" using assms(2) chars by (auto simp: newline_def)
  then have c: "c_str ?s = ?s" by (rule c_str_id)
  have "newline \<notin> set (''intr'' @ l @ zeros k)" using assms(3) chars by (auto simp: newline_def)
  then have nl: "str_find_char newline (drop (length pre + 1) ?s) = Some (length (''intr'' @ l @ zeros k))"
    using str_find_char_append [of newline "''intr'' @ l @ zeros k" rest] by simp
  have pos: "length pre + 1 + length (''intr'' @ l @ zeros k) = length ?w + 2 * k"
    by (simp add: length_zeros)
  have "\<not> suffix '' 0'' ?w"
    using assms(4) by (auto simp: suffix_def append_eq_append_conv2 append_eq_Cons_conv Cons_eq_append_conv newline_def)
  then have z: "zeros_start ?s (length ?w + 2 * k) = length ?w"
    using zeros_start_append [of ?w k "newline # rest"] by simp
  have "strip_stat ?s = Some (erase_range ?s (length ?w + 1) (int (length ?w + 2 * k) - int (length ?w + 1)))"
    unfolding strip_stat_def c assms(1) option.case nl Let_def pos z ..
  also have "erase_range ?s (length ?w + 1) (int (length ?w + 2 * k) - int (length ?w + 1)) =
      pre @ newline # ''intr'' @ l @ (if k = 0 then [newline] else CHR '' '' # newline # rest)"
  proof (cases k)
    case 0
    then have "?s = (?w @ [newline]) @ rest" by (simp add: zeros_def)
    then have "take (length ?w + 1) ?s = ?w @ [newline]" by (metis append_eq_conv_conj length_append_singleton Suc_eq_plus1)
    with 0 show ?thesis by (simp add: erase_range_def)
  next
    case (Suc j)
    have e: "erase_range ?s (length ?w + 1) (int (length ?w + 2 * k) - int (length ?w + 1)) =
        take (length ?w + 1) ?s @ drop (length ?w + 2 * k) ?s"
      by (rule erase_range_between) (simp_all add: Suc length_zeros)
    have s1: "?s = (?w @ '' '') @ ''0'' @ zeros j @ newline # rest" using Suc by (simp add: zeros_def)
    have "take (length ?w + 1) ?s = ?w @ '' ''" using s1 by (metis append_eq_conv_conj length_append_singleton Suc_eq_plus1)
    moreover have s2: "?s = (?w @ zeros k) @ newline # rest" by simp
    have "drop (length ?w + 2 * k) ?s = newline # rest"
      using s2 by (metis append_eq_conv_conj length_append length_zeros)
    ultimately show ?thesis using Suc e by simp
  qed
  finally show ?thesis .
qed

theorem strip_stat_exact_witness:
  "strip_stat (''cpu 1'' @ newline # ''intr'' @ '' 88 0 7'' @ zeros 2 @ newline # ''ctxt 5'') =
     Some (''cpu 1'' @ newline # ''intr 88 0 7 '' @ newline # ''ctxt 5'') \<and>
   strip_stat (''cpu 1'' @ newline # ''intr'' @ '' 88 0 7'' @ zeros 0 @ newline # ''ctxt 5'') =
     Some (''cpu 1'' @ newline # ''intr 88 0 7'' @ [newline])"
proof -
  have l: "CHR 0x00 \<notin> set (''cpu 1'' @ '' 88 0 7'' @ ''ctxt 5'')" "newline \<notin> set '' 88 0 7''"
    "\<not> suffix '' 0'' (''intr'' @ '' 88 0 7'')" by code_simp+
  have "str_find intr_mark (''cpu 1'' @ newline # ''intr'' @ '' 88 0 7'' @ zeros k @ newline # ''ctxt 5'') = Some (length ''cpu 1'')" for k
    by (simp add: intr_mark_def newline_def)
  from strip_stat_exact [OF this l, of 2] strip_stat_exact [OF this l, of 0] show ?thesis by simp
qed

end
