(* ===== verification/ZurgProcess.thy ===== *)
theory ZurgProcess
  imports ProcFsFacts
begin

text \<open>
  Running a command in the zurg slave: the capture of its output (examples/zurg/slave/Sink.h), the
  stat file of a process and the start of a child (examples/zurg/slave/Process.cc). The results of
  the system calls, of the parent and of the child, are records of parameters: for a call that can
  fail, \<open>Some\<close> of its \<^verbatim>\<open>errno\<close>. \<open>None\<close> as the result of an operation is a failing assertion.
\<close>

section \<open>Capturing output\<close>

record sink =
  sk_open :: bool
  sk_maxLength :: int
  sk_reading :: bool
  sk_buf :: string

definition new_sink :: "int \<Rightarrow> sink" where
  "new_sink maxLength = \<lparr>sk_open = True, sk_maxLength = maxLength, sk_reading = False, sk_buf = []\<rparr>"

definition sink_start :: "sink \<Rightarrow> sink" where
  "sink_start k = k\<lparr>sk_reading := True\<rparr>"

definition sink_stop :: "sink \<Rightarrow> sink" where
  "sink_stop k = (if sk_reading k then k\<lparr>sk_reading := False\<rparr> else k)"

text \<open>\<^verbatim>\<open>onRead\<close> with what the read gives, \<open>None\<close> for an error. The second result tells
  whether it queues \<^verbatim>\<open>delayedClose\<close>.\<close>

definition sink_onRead :: "string option \<Rightarrow> sink \<Rightarrow> sink \<times> bool" where
  "sink_onRead input k =
     (let k = (case input of None \<Rightarrow> k | Some bytes \<Rightarrow> k\<lparr>sk_buf := sk_buf k @ bytes\<rparr>);
          k = (if input = Some [] then k\<lparr>sk_reading := False\<rparr> else k)
      in if sk_maxLength k < int32_of (int (length (sk_buf k)))
         then (k\<lparr>sk_reading := False\<rparr>, True)
         else (k, False))"

definition sink_onClose :: "sink \<Rightarrow> sink" where
  "sink_onClose k = k\<lparr>sk_reading := False\<rparr>"

definition sink_delayedClose :: "sink \<Rightarrow> sink option" where
  "sink_delayedClose k = (if sk_reading k then None else Some (k\<lparr>sk_open := False\<rparr>))"

section \<open>The stat file\<close>

record proc_stat_file =
  ps_valid :: bool
  ps_error :: int
  ps_ppid :: int
  ps_startTime :: int

text \<open>The loop of \<^verbatim>\<open>parse\<close>, with the number of rounds left and \<^verbatim>\<open>i\<close>: the text from the
  pointer \<^verbatim>\<open>p\<close> on, if it is not null, and the parent.\<close>

fun parse_loop :: "nat \<Rightarrow> nat \<Rightarrow> string \<Rightarrow> int \<Rightarrow> string option \<times> int" where
  "parse_loop 0 i p ppid = (Some p, ppid)"
| "parse_loop (Suc n) i p ppid =
     (case str_find_char CHR '' '' p of
        None \<Rightarrow> (None, ppid)
      | Some sp \<Rightarrow> parse_loop n (i + 1) (drop (sp + 1) p) (if i = 1 then atoi (drop sp p) else ppid))"

definition parse_proc_stat :: "string \<Rightarrow> int \<times> int" where
  "parse_proc_stat buffer =
     (case str_find_char CHR '')'' (c_str buffer) of
        None \<Rightarrow> (0, 0)
      | Some k \<Rightarrow>
          (case parse_loop 20 0 (drop k (c_str buffer)) 0 of
             (None, ppid) \<Rightarrow> (ppid, 0)
           | (Some p, ppid) \<Rightarrow> (ppid, strtoll p)))"

text \<open>The constructor, with the error and the bytes of reading the file.\<close>

definition ProcStatFile :: "int \<times> string \<Rightarrow> proc_stat_file" where
  "ProcStatFile read =
     (let (err, buffer) = read
      in if err = 0 then (case parse_proc_stat buffer of (ppid, start) \<Rightarrow>
           \<lparr>ps_valid = True, ps_error = 0, ps_ppid = ppid, ps_startTime = start\<rparr>)
         else \<lparr>ps_valid = False, ps_error = err, ps_ppid = 0, ps_startTime = 0\<rparr>)"

section \<open>A process\<close>

record run_command_request =
  rq_command :: string
  rq_cwd :: string
  rq_args :: "string list"
  rq_envs :: "string list"
  rq_envs_only :: bool
  rq_max_stdout :: int
  rq_max_stderr :: int
  rq_timeout :: int
  rq_max_memory_mb :: int

record add_application_request =
  aa_name :: string
  aa_binary :: string
  aa_args :: "string list"
  aa_envs :: "string list"
  aa_envs_only :: bool
  aa_redirect_stdout :: bool
  aa_redirect_stderr :: bool
  aa_max_memory_mb :: int

record process =
  pr_request :: run_command_request
  pr_pid :: int
  pr_name :: string
  pr_exe_file :: string
  pr_startTime :: int
  pr_startTimeInJiffies :: int
  pr_stdoutSink :: "sink option"
  pr_stderrSink :: "sink option"
  pr_redirectStdout :: bool
  pr_redirectStderr :: bool
  pr_runCommand :: bool

definition Process_command :: "run_command_request \<Rightarrow> process" where
  "Process_command request = \<lparr>pr_request = request, pr_pid = 0, pr_name = [], pr_exe_file = [], pr_startTime = 0,
     pr_startTimeInJiffies = 0, pr_stdoutSink = None, pr_stderrSink = None, pr_redirectStdout = False,
     pr_redirectStderr = False, pr_runCommand = True\<rparr>"

definition Process_app :: "string \<Rightarrow> string \<Rightarrow> add_application_request \<Rightarrow> process" where
  "Process_app prefix' slave_name app =
     \<lparr>pr_request = \<lparr>rq_command = aa_binary app,
        rq_cwd = take 255 (prefix' @ ''/'' @ slave_name @ ''/'' @ aa_name app), rq_args = aa_args app,
        rq_envs = aa_envs app, rq_envs_only = aa_envs_only app, rq_max_stdout = 0, rq_max_stderr = 0,
        rq_timeout = -1, rq_max_memory_mb = aa_max_memory_mb app\<rparr>,
      pr_pid = 0, pr_name = aa_name app, pr_exe_file = [], pr_startTime = 0, pr_startTimeInJiffies = 0,
      pr_stdoutSink = None, pr_stderrSink = None, pr_redirectStdout = aa_redirect_stdout app,
      pr_redirectStderr = aa_redirect_stderr app, pr_runCommand = False\<rparr>"

section \<open>Starting it\<close>

text \<open>The results of the child's calls.\<close>

record child_calls =
  cc_stat :: "int \<times> string"
  cc_open_stdout :: "int option"
  cc_open_stderr :: "int option"
  cc_chdir :: "int option"
  cc_open_devnull :: "int option"
  cc_dup2_stdin :: "int option"
  cc_dup2_stdout :: "int option"
  cc_dup2_stderr :: "int option"
  cc_execvp :: "int option"

text \<open>The results of the parent's: the threads it runs, the descriptors it may still open, whether
  the three pipes could be made, the error or the child of \<^verbatim>\<open>fork\<close>, the link of the child's
  executable, and the two \<^verbatim>\<open>dup\<close>s.\<close>

record parent_calls =
  pc_numThreads :: int
  pc_availableFds :: int
  pc_pipes :: bool
  pc_now :: int
  pc_fork :: "int + int"
  pc_exe_link :: "string option"
  pc_dup_stdout :: "int option"
  pc_dup_stderr :: "int option"

definition EACCES :: int where "EACCES = 13"
definition EMFILE :: int where "EMFILE = 24"

text \<open>In a sequence of calls whose failures throw \<^verbatim>\<open>errno\<close>, the first one counts.\<close>

fun first_failure :: "int option list \<Rightarrow> int option" where
  "first_failure [] = None"
| "first_failure (r # rs) = (case r of Some e \<Rightarrow> Some e | None \<Rightarrow> first_failure rs)"

text \<open>\<^verbatim>\<open>execChild\<close>: what the child writes to the pipe, and whether it came to run the
  command; otherwise it exits with status 1.\<close>

definition execChild :: "child_calls \<Rightarrow> bool \<Rightarrow> bool \<Rightarrow> int list \<times> bool" where
  "execChild c stdOutput stdError =
     (let st = ProcStatFile (cc_stat c)
      in if \<not> ps_valid st then ([ps_error st], False)
         else (case first_failure [cc_chdir c, cc_open_devnull c,
                   if stdOutput \<and> stdError then None else Some EACCES,
                   cc_dup2_stdin c, cc_dup2_stdout c, cc_dup2_stderr c, cc_execvp c] of
             None \<Rightarrow> ([ps_startTime st], True)
           | Some e \<Rightarrow> ([ps_startTime st, e], False)))"

text \<open>\<^verbatim>\<open>afterFork\<close> reads at most two numbers from the pipe; the second read returns nothing if
  the child closed the pipe by running the command, or by exiting.\<close>

definition afterFork :: "parent_calls \<Rightarrow> int list \<Rightarrow> process \<Rightarrow> (int \<times> process) option" where
  "afterFork c writes p =
     (case writes of
        [] \<Rightarrow> None
      | childStartTime # rest \<Rightarrow>
          (let p = p\<lparr>pr_startTimeInJiffies := childStartTime\<rparr>
           in Some (case rest of
                childErrno # _ \<Rightarrow> (int32_of childErrno, p)
              | [] \<Rightarrow>
                  (let p = (case pc_exe_link c of None \<Rightarrow> p | Some exe \<Rightarrow> p\<lparr>pr_exe_file := take 1024 exe\<rparr>)
                   in if pr_runCommand p then
                        (case (pc_dup_stderr c, pc_dup_stdout c) of
                           (Some e, _) \<Rightarrow> (e, p)
                         | (None, Some e) \<Rightarrow> (e, p)
                         | (None, None) \<Rightarrow>
                             (0, p\<lparr>pr_stdoutSink := Some (sink_start (new_sink (rq_max_stdout (pr_request p)))),
                                   pr_stderrSink := Some (sink_start (new_sink (rq_max_stderr (pr_request p))))\<rparr>))
                      else (0, p)))))"

text \<open>\<^verbatim>\<open>start\<close>: the error, \<open>None\<close> if it throws; the process; and the child, if there is one, with
  whether it runs the command.\<close>

record start_outcome =
  so_error :: "int option"
  so_process :: process
  so_child :: "(int \<times> bool) option"

definition Process_start :: "parent_calls \<Rightarrow> child_calls \<Rightarrow> process \<Rightarrow> start_outcome option" where
  "Process_start pc cc p =
     (if pc_numThreads pc \<noteq> 1 then None
      else if pc_availableFds pc < 20 then Some \<lparr>so_error = Some EMFILE, so_process = p, so_child = None\<rparr>
      else if \<not> pc_pipes pc then Some \<lparr>so_error = None, so_process = p, so_child = None\<rparr>
      else
        (let p = p\<lparr>pr_startTime := pc_now pc\<rparr>
         in case pc_fork pc of
              Inl e \<Rightarrow> Some \<lparr>so_error = Some e, so_process = p, so_child = None\<rparr>
            | Inr pid \<Rightarrow>
                (let (writes, runs) = (if pr_runCommand p then execChild cc True True
                       else execChild cc (cc_open_stdout cc = None) (cc_open_stderr cc = None))
                 in map_option (\<lambda>(err, p). \<lparr>so_error = Some err, so_process = p, so_child = Some (pid, runs)\<rparr>)
                      (afterFork pc writes (p\<lparr>pr_pid := pid\<rparr>)))))"

section \<open>Its end\<close>

text \<open>The status of \<^verbatim>\<open>wait4\<close>.\<close>

definition WTERMSIG :: "int \<Rightarrow> int" where "WTERMSIG status = status mod 128"
definition WIFEXITED :: "int \<Rightarrow> bool" where "WIFEXITED status \<longleftrightarrow> WTERMSIG status = 0"
definition WEXITSTATUS :: "int \<Rightarrow> int" where "WEXITSTATUS status = status div 256 mod 256"
definition WIFSIGNALED :: "int \<Rightarrow> bool" where "WIFSIGNALED status \<longleftrightarrow> 1 \<le> WTERMSIG status \<and> WTERMSIG status \<le> 126"
definition WCOREDUMP :: "int \<Rightarrow> bool" where "WCOREDUMP status \<longleftrightarrow> status div 128 mod 2 = 1"

record run_command_response =
  rr_error_code :: int
  rr_pid :: "int option"
  rr_status :: "int option"
  rr_std_output :: "string option"
  rr_std_error :: "string option"
  rr_executable_file :: "string option"
  rr_start_time_us :: "int option"
  rr_finish_time_us :: "int option"
  rr_memory_maxrss_kb :: "int option"
  rr_exit_status :: "int option"
  rr_signaled :: "int option"
  rr_coredump :: "bool option"

definition error_response :: "int \<Rightarrow> run_command_response" where
  "error_response err = \<lparr>rr_error_code = err, rr_pid = None, rr_status = None, rr_std_output = None,
     rr_std_error = None, rr_executable_file = None, rr_start_time_us = None, rr_finish_time_us = None,
     rr_memory_maxrss_kb = None, rr_exit_status = None, rr_signaled = None, rr_coredump = None\<rparr>"

text \<open>\<^verbatim>\<open>onCommandExit\<close>, with the time and the memory that \<^verbatim>\<open>wait4\<close> reports; the two
  processor times, floating point numbers, are left out. It dereferences both sinks.\<close>

definition onCommandExit :: "int \<Rightarrow> int \<Rightarrow> int \<Rightarrow> process \<Rightarrow> (run_command_response \<times> process) option" where
  "onCommandExit now status maxrss p =
     (let response = (error_response 0)
            \<lparr>rr_exit_status := (if WIFEXITED status then Some (WEXITSTATUS status) else None),
             rr_signaled := (if \<not> WIFEXITED status \<and> WIFSIGNALED status then Some (WTERMSIG status) else None),
             rr_coredump := (if \<not> WIFEXITED status \<and> WIFSIGNALED status then Some (WCOREDUMP status) else None)\<rparr>
      in case (pr_stdoutSink p, pr_stderrSink p) of
           (Some out, Some err) \<Rightarrow>
             Some (response\<lparr>rr_error_code := 0, rr_pid := Some (pr_pid p), rr_status := Some status,
               rr_std_output := Some (sk_buf (sink_stop out)), rr_std_error := Some (sk_buf (sink_stop err)),
               rr_executable_file := Some (pr_exe_file p), rr_start_time_us := Some (pr_startTime p),
               rr_finish_time_us := Some now, rr_memory_maxrss_kb := Some maxrss\<rparr>,
              p\<lparr>pr_stdoutSink := Some (sink_stop out), pr_stderrSink := Some (sink_stop err)\<rparr>)
         | _ \<Rightarrow> None)"

text \<open>\<^verbatim>\<open>onTimeout\<close>, with the stat file of the process now and the identifier of the slave: whom
  it sends \<^verbatim>\<open>SIGINT\<close>.\<close>

definition onTimeout :: "int \<times> string \<Rightarrow> int \<Rightarrow> process \<Rightarrow> int option" where
  "onTimeout read self p =
     (let st = ProcStatFile read
      in if ps_valid st \<and> ps_ppid st = self \<and> ps_startTime st = pr_startTimeInJiffies p
         then Some (pr_pid p) else None)"

end
