(* ===== verification/ChildManager.thy ===== *)
theory ChildManager
  imports StdMap "HOL-Library.Multiset"
begin

text \<open>
  The zurg slave's watch over its children (examples/zurg/slave/ChildManager.h, ChildManager.cc),
  with what it needs of the kernel: the table of children, the pending SIGCHLD (a second one that
  comes before the first is read is lost), and \<^verbatim>\<open>wait4\<close>. The locale \<open>exit_watch\<close> is the
  contract that the clients of \<^verbatim>\<open>runAtExit\<close> rely on.
\<close>

section \<open>The kernel\<close>

text \<open>The children that were not yet waited for, each with its status if it has ended.\<close>

type_synonym kids = "(int \<times> int option) list"

record kernel =
  kids :: kids
  sigchld :: "int option"

definition kernel_fork :: "int \<Rightarrow> kernel \<Rightarrow> kernel" where
  "kernel_fork pid k = k\<lparr>kids := kids k @ [(pid, None)]\<rparr>"

definition kernel_exit :: "int \<Rightarrow> int \<Rightarrow> kernel \<Rightarrow> kernel" where
  "kernel_exit pid status k =
     k\<lparr>kids := map (\<lambda>(p, s). (p, if p = pid \<and> s = None then Some status else s)) (kids k),
       sigchld := (case sigchld k of None \<Rightarrow> Some pid | Some p \<Rightarrow> Some p)\<rparr>"

text \<open>\<^verbatim>\<open>wait4\<close> with \<^verbatim>\<open>WNOHANG\<close>, for one child and for any: the result, the status, and
  the children that are left.\<close>

definition wait4_one :: "int \<Rightarrow> kids \<Rightarrow> int \<times> int \<times> kids" where
  "wait4_one pid ks =
     (case map_of ks pid of
        None \<Rightarrow> (-1, 0, ks)
      | Some None \<Rightarrow> (0, 0, ks)
      | Some (Some status) \<Rightarrow> (pid, status, filter (\<lambda>(p, _). p \<noteq> pid) ks))"

fun wait4_any :: "kids \<Rightarrow> int \<times> int \<times> kids" where
  "wait4_any [] = (-1, 0, [])"
| "wait4_any ((pid, Some status) # ks) = (pid, status, ks)"
| "wait4_any ((pid, None) # ks) =
     (let (result, status, rest) = wait4_any ks in (max result 0, status, (pid, None) # rest))"

section \<open>The manager\<close>

text \<open>The callbacks by process, and the calls queued in the event loop with the status of the
  process.\<close>

record 'cb child_manager =
  callbacks :: "(int, 'cb) omap"
  pendingFunctors :: "('cb \<times> int) list"

definition new_child_manager :: "'cb child_manager" where
  "new_child_manager = \<lparr>callbacks = [], pendingFunctors = []\<rparr>"

definition runAtExit :: "int \<Rightarrow> 'cb \<Rightarrow> 'cb child_manager \<Rightarrow> 'cb child_manager option" where
  "runAtExit pid cb m =
     (if om_find (callbacks m) pid \<noteq> None then None
      else Some (m\<lparr>callbacks := om_store pid cb (callbacks m)\<rparr>))"

definition onExit :: "int \<Rightarrow> int \<Rightarrow> 'cb child_manager \<Rightarrow> 'cb child_manager" where
  "onExit pid status m =
     (case om_find (callbacks m) pid of
        Some cb \<Rightarrow> m\<lparr>pendingFunctors := pendingFunctors m @ [(cb, status)], callbacks := om_erase pid (callbacks m)\<rparr>
      | None \<Rightarrow> m)"

text \<open>\<^verbatim>\<open>onRead\<close> reads the pending signal, if there is one.\<close>

definition onRead :: "kernel \<Rightarrow> 'cb child_manager \<Rightarrow> kernel \<times> 'cb child_manager" where
  "onRead k m =
     (case sigchld k of
        None \<Rightarrow> (k, m)
      | Some pid \<Rightarrow>
          (let k = k\<lparr>sigchld := None\<rparr>;
               (result, status, ks) = wait4_one pid (kids k)
           in if result = pid then (k\<lparr>kids := ks\<rparr>, onExit pid status m) else (k, m)))"

lemma wait4_any_length: "wait4_any ks = (pid, status, rest) \<Longrightarrow> 0 < pid \<Longrightarrow> length rest < length ks"
  by (induction ks arbitrary: pid status rest rule: wait4_any.induct) (auto split: prod.splits)

function child_timer :: "kernel \<Rightarrow> 'cb child_manager \<Rightarrow> kernel \<times> 'cb child_manager" where
  "child_timer k m =
     (case wait4_any (kids k) of
        (pid, status, ks) \<Rightarrow> if 0 < pid then child_timer (k\<lparr>kids := ks\<rparr>) (onExit pid status m) else (k, m))"
  by pat_completeness auto
termination
  by (relation "measure (\<lambda>(k, m). length (kids k))") (auto dest: wait4_any_length [OF sym])

declare child_timer.simps [simp del]

section \<open>What it owes\<close>

text \<open>The callbacks that were registered and not yet called.\<close>

definition owed :: "'cb child_manager \<Rightarrow> 'cb multiset" where
  "owed m = mset (map snd (callbacks m)) + mset (map fst (pendingFunctors m))"

text \<open>Every callback belongs to a child that was not yet waited for.\<close>

definition watch_ok :: "kernel \<times> 'cb child_manager \<Rightarrow> bool" where
  "watch_ok s \<longleftrightarrow> (case s of (k, m) \<Rightarrow> om_ok (callbacks m) \<and> distinct (map fst (kids k)) \<and>
     (\<forall>pid\<in>fst ` set (kids k). 0 < pid) \<and> fst ` set (callbacks m) \<subseteq> fst ` set (kids k))"

lemma mset_om_store: "om_find m k = None \<Longrightarrow> mset (map snd (om_store k v m)) = add_mset v (mset (map snd m))"
  by (induction k v m rule: om_store.induct) (auto split: if_splits)

lemma mset_om_erase: "om_ok m \<Longrightarrow> om_find m k = Some v \<Longrightarrow> mset (map snd m) = add_mset v (mset (map snd (om_erase k m)))"
proof (induction m)
  case (Cons kv m)
  obtain k' v' where kv: "kv = (k', v')" by (cases kv)
  have ok: "om_ok m" "\<forall>x\<in>set (map fst m). k' < x" using Cons.prems(1) kv by (auto simp: om_ok_def)
  show ?case
  proof (cases "k' = k")
    case True
    then have "filter (\<lambda>(x, _). x \<noteq> k) m = m" using ok(2) by (auto simp: filter_id_conv)
    with True Cons.prems(2) kv show ?thesis by (simp add: om_erase_def)
  next
    case False
    with Cons ok(1) kv show ?thesis by (simp add: om_erase_def)
  qed
qed simp

lemma om_erase_keys: "fst ` set (om_erase k m) = fst ` set m - {k}"
  by (auto simp: om_erase_def image_iff)

lemma onExit_owed: "om_ok (callbacks m) \<Longrightarrow> owed (onExit pid status m) = owed m"
  using mset_om_erase [of "callbacks m" pid] by (auto simp: onExit_def owed_def split: option.split)

lemma onExit_callbacks:
  "callbacks (onExit pid status m) = om_erase pid (callbacks m)"
proof (cases "om_find (callbacks m) pid")
  case None
  then have "pid \<notin> fst ` set (callbacks m)" by (simp add: om_find_in_keys)
  then have "om_erase pid (callbacks m) = callbacks m" by (auto simp: om_erase_def filter_id_conv image_iff)
  with None show ?thesis by (simp add: onExit_def)
qed (simp add: onExit_def)

lemma watch_ok_reap:
  assumes "watch_ok (k, m)" "fst ` set ks = fst ` set (kids k) - {pid}" "distinct (map fst ks)"
  shows "watch_ok (k\<lparr>kids := ks\<rparr>, onExit pid status m)"
proof -
  have "0 < fst x" if "x \<in> set ks" for x
  proof -
    have "fst x \<in> fst ` set (kids k)" using that assms(2) by auto
    then show ?thesis using assms(1) by (auto simp: watch_ok_def)
  qed
  with assms show ?thesis by (auto simp: watch_ok_def onExit_callbacks om_erase_keys om_ok_erase)
qed

lemma wait4_one_kids:
  assumes "wait4_one pid ks = (pid, status, rest)" "distinct (map fst ks)" "0 < pid"
  shows "fst ` set rest = fst ` set ks - {pid}" "distinct (map fst rest)" "(pid, Some status) \<in> set ks"
proof -
  have "map_of ks pid = Some (Some status)" and rest: "rest = filter (\<lambda>(p, _). p \<noteq> pid) ks"
    using assms(1,3) by (auto simp: wait4_one_def split: option.splits)
  then show "(pid, Some status) \<in> set ks" by (simp add: map_of_SomeD)
  show "fst ` set rest = fst ` set ks - {pid}" by (auto simp: rest image_iff)
  show "distinct (map fst rest)" using assms(2) unfolding rest by (rule distinct_map_filter)
qed

lemma wait4_any_kids:
  assumes "wait4_any ks = (pid, status, rest)" "0 < pid" "distinct (map fst ks)"
  shows "fst ` set rest = fst ` set ks - {pid}" "distinct (map fst rest)" "(pid, Some status) \<in> set ks"
proof -
  have "fst ` set rest = fst ` set ks - {pid} \<and> distinct (map fst rest) \<and> (pid, Some status) \<in> set ks \<and>
      set rest \<subseteq> set ks"
    using assms
  proof (induction ks arbitrary: pid status rest rule: wait4_any.induct)
    case (3 p ks)
    obtain r st rest' where w: "wait4_any ks = (r, st, rest')" by (cases "wait4_any ks")
    with 3 have "r = pid" "st = status" "rest = (p, None) # rest'" by (auto simp: max_def split: if_splits)
    moreover from this 3 w have "fst ` set rest' = fst ` set ks - {pid}" "distinct (map fst rest')"
      "(pid, Some status) \<in> set ks" "set rest' \<subseteq> set ks" "p \<noteq> pid"
      by (auto simp: image_iff)
    ultimately show ?case using 3(4) by auto
  qed (auto simp: image_iff)
  then show "fst ` set rest = fst ` set ks - {pid}" "distinct (map fst rest)" "(pid, Some status) \<in> set ks"
    by simp_all
qed

text \<open>What is left when \<^verbatim>\<open>wait4\<close> finds nothing has not ended.\<close>

lemma wait4_any_none:
  assumes "wait4_any ks = (pid, status, rest)" "\<not> 0 < pid" "\<forall>p\<in>fst ` set ks. 0 < p"
  shows "\<forall>(p, s)\<in>set ks. s = None"
  using assms
proof (induction ks arbitrary: pid status rest rule: wait4_any.induct)
  case (3 p ks)
  obtain r st rest' where w: "wait4_any ks = (r, st, rest')" by (cases "wait4_any ks")
  with 3 show ?case by (auto simp: max_def split: if_splits)
qed auto

text \<open>\<^verbatim>\<open>wait4\<close> takes the first child that has ended.\<close>

lemma wait4_any_split:
  assumes "wait4_any ks = (pid, status, rest)" "0 < pid"
  obtains us vs where "ks = us @ (pid, Some status) # vs" "rest = us @ vs" "\<forall>(p, s)\<in>set us. s = None"
proof -
  have "\<exists>us vs. ks = us @ (pid, Some status) # vs \<and> rest = us @ vs \<and> (\<forall>(p, s)\<in>set us. s = None)"
    using assms
  proof (induction ks arbitrary: pid status rest rule: wait4_any.induct)
    case (2 p st ks)
    then show ?case by (intro exI [of _ "[]"] exI [of _ ks]) auto
  next
    case (3 p ks)
    obtain r st rest' where w: "wait4_any ks = (r, st, rest')" by (cases "wait4_any ks")
    with 3 have "r = pid" "st = status" "rest = (p, None) # rest'" by (auto simp: max_def split: if_splits)
    with 3 w obtain us vs where "ks = us @ (pid, Some status) # vs" "rest' = us @ vs" "\<forall>(p, s)\<in>set us. s = None"
      by blast
    then show ?case using \<open>rest = _\<close> by (intro exI [of _ "(p, None) # us"] exI [of _ vs]) auto
  qed simp
  with that show thesis by blast
qed

text \<open>The calls that the children \<open>ks\<close> that have ended are due.\<close>

definition due_calls :: "(int, 'cb) omap \<Rightarrow> kids \<Rightarrow> ('cb \<times> int) list" where
  "due_calls cbs ks = concat (map (\<lambda>(pid, s). case s of None \<Rightarrow> [] | Some status \<Rightarrow>
     (case om_find cbs pid of None \<Rightarrow> [] | Some cb \<Rightarrow> [(cb, status)])) ks)"

definition still_running :: "kids \<Rightarrow> kids" where
  "still_running ks = filter (\<lambda>(pid, s). s = None) ks"

lemma due_calls_running: "\<forall>(p, s)\<in>set us. s = None \<Longrightarrow> due_calls cbs us = []"
  by (induction us) (auto simp: due_calls_def)

lemma due_calls_append [simp]: "due_calls cbs (us @ vs) = due_calls cbs us @ due_calls cbs vs"
  by (simp add: due_calls_def)

lemma due_calls_erase: "pid \<notin> fst ` set ks \<Longrightarrow> due_calls (om_erase pid cbs) ks = due_calls cbs ks"
proof (induction ks)
  case (Cons x ks)
  then show ?case by (cases x) (auto simp: due_calls_def om_find_erase split: option.split)
qed (simp add: due_calls_def)

lemma child_timer_calls:
  "watch_ok (k, m) \<Longrightarrow> child_timer k m = (k', m') \<Longrightarrow>
     watch_ok (k', m') \<and> owed m' = owed m \<and> kids k' = still_running (kids k) \<and> sigchld k' = sigchld k \<and>
     pendingFunctors m' = pendingFunctors m @ due_calls (callbacks m) (kids k)"
proof (induction k m rule: child_timer.induct)
  case (1 k m)
  obtain pid status ks where w: "wait4_any (kids k) = (pid, status, ks)" by (cases "wait4_any (kids k)")
  show ?case
  proof (cases "0 < pid")
    case False
    have none: "\<forall>(p, s)\<in>set (kids k). s = None"
      using wait4_any_none [OF w False] "1.prems"(1) by (auto simp: watch_ok_def)
    then have "still_running (kids k) = kids k" by (auto simp: still_running_def filter_id_conv)
    with 1 w False due_calls_running [OF none] show ?thesis by (simp add: child_timer.simps [of k m])
  next
    case True
    have dist: "distinct (map fst (kids k))" using "1.prems"(1) by (simp add: watch_ok_def)
    obtain us vs where split: "kids k = us @ (pid, Some status) # vs" "ks = us @ vs" "\<forall>(p, s)\<in>set us. s = None"
      using wait4_any_split [OF w True] by metis
    let ?k = "k\<lparr>kids := ks\<rparr>" and ?m = "onExit pid status m"
    have step: "child_timer ?k ?m = (k', m')" using "1.prems"(2) w True by (simp add: child_timer.simps [of k m])
    have ok: "watch_ok (?k, ?m)"
      by (rule watch_ok_reap [OF "1.prems"(1) wait4_any_kids(1,2) [OF w True dist]])
    have IH: "watch_ok (k', m')" "owed m' = owed ?m" "kids k' = still_running ks" "sigchld k' = sigchld k"
      "pendingFunctors m' = pendingFunctors ?m @ due_calls (callbacks ?m) ks"
      using "1.IH" [OF w [symmetric] refl True ok step] by simp_all
    have "om_ok (callbacks m)" using "1.prems"(1) by (simp add: watch_ok_def)
    then have "owed m' = owed m" using IH(2) onExit_owed by metis
    moreover have "still_running ks = still_running (kids k)"
      unfolding split by (simp add: still_running_def)
    moreover have "pendingFunctors ?m @ due_calls (callbacks ?m) ks = pendingFunctors m @ due_calls (callbacks m) (kids k)"
    proof -
      have "pid \<notin> fst ` set ks" using dist split by auto
      then have "due_calls (callbacks ?m) ks = due_calls (callbacks m) ks"
        by (simp add: onExit_callbacks due_calls_erase)
      also have "\<dots> = due_calls (callbacks m) vs" by (simp add: split(2) due_calls_running [OF split(3)])
      finally show ?thesis
        unfolding split(1) by (simp add: due_calls_running [OF split(3)])
          (simp add: due_calls_def onExit_def split: option.split)
    qed
    ultimately show ?thesis using IH by simp
  qed
qed

section \<open>The contract\<close>

text \<open>What a client of \<^verbatim>\<open>runAtExit\<close> relies on: a new child can be watched, which owes one more
  callback, and what happens to the children neither loses nor invents a callback.\<close>

locale exit_watch =
  fixes adopt :: "int \<Rightarrow> 'cb \<Rightarrow> 's \<Rightarrow> 's option"
    and happens :: "'e \<Rightarrow> 's \<Rightarrow> 's"
    and due :: "'s \<Rightarrow> 'cb multiset"
    and pids :: "'s \<Rightarrow> int set"
    and ok :: "'s \<Rightarrow> bool"
  assumes adopt_new: "ok s \<Longrightarrow> 0 < pid \<Longrightarrow> pid \<notin> pids s \<Longrightarrow>
      \<exists>s'. adopt pid cb s = Some s' \<and> ok s' \<and> due s' = add_mset cb (due s) \<and> pids s' = insert pid (pids s)"
    and happens_ok: "ok s \<Longrightarrow> ok (happens e s)"
    and happens_due: "ok s \<Longrightarrow> due (happens e s) = due s"
begin

fun adopt_all :: "(int \<times> 'cb) list \<Rightarrow> 's \<Rightarrow> 's option" where
  "adopt_all [] s = Some s"
| "adopt_all ((pid, cb) # cs) s = (case adopt pid cb s of None \<Rightarrow> None | Some s \<Rightarrow> adopt_all cs s)"

lemma adopt_all_new:
  "ok s \<Longrightarrow> \<forall>(pid, cb)\<in>set cs. 0 < pid \<and> pid \<notin> pids s \<Longrightarrow> distinct (map fst cs) \<Longrightarrow>
     \<exists>s'. adopt_all cs s = Some s' \<and> ok s' \<and> due s' = due s + mset (map snd cs)"
proof (induction cs arbitrary: s)
  case (Cons c cs)
  obtain pid cb where c: "c = (pid, cb)" by (cases c)
  obtain s' where s': "adopt pid cb s = Some s'" "ok s'" "due s' = add_mset cb (due s)" "pids s' = insert pid (pids s)"
    using adopt_new [of s pid cb] Cons.prems c by auto
  have "\<forall>(p, cb)\<in>set cs. 0 < p \<and> p \<notin> pids s'" using Cons.prems c s'(4) by (force simp: image_iff)
  from Cons.IH [OF s'(2) this] Cons.prems(3) c s' show ?case by auto
qed simp

lemma happens_all: "ok s \<Longrightarrow> ok (fold happens es s) \<and> due (fold happens es s) = due s"
  by (induction es arbitrary: s) (auto simp: happens_ok happens_due)

end

text \<open>A new child that is watched, and the events of children.\<close>

definition adopt :: "int \<Rightarrow> 'cb \<Rightarrow> kernel \<times> 'cb child_manager \<Rightarrow> (kernel \<times> 'cb child_manager) option" where
  "adopt pid cb s = map_option (\<lambda>m. (kernel_fork pid (fst s), m)) (runAtExit pid cb (snd s))"

datatype child_event = Child_exits int int | Signal_read | Timer

definition child_happens :: "child_event \<Rightarrow> kernel \<times> 'cb child_manager \<Rightarrow> kernel \<times> 'cb child_manager" where
  "child_happens e s = (case e of
     Child_exits pid status \<Rightarrow> (kernel_exit pid status (fst s), snd s)
   | Signal_read \<Rightarrow> onRead (fst s) (snd s)
   | Timer \<Rightarrow> child_timer (fst s) (snd s))"

lemma kernel_exit_pids: "map fst (kids (kernel_exit pid status k)) = map fst (kids k)"
  by (simp add: kernel_exit_def case_prod_beta comp_def)

lemma kernel_exit_ok: "watch_ok (k, m) \<Longrightarrow> watch_ok (kernel_exit pid status k, m)"
proof -
  assume ok: "watch_ok (k, m)"
  have pids: "fst ` set (kids (kernel_exit pid status k)) = fst ` set (kids k)"
    using kernel_exit_pids [of pid status k] by (metis list.set_map)
  show ?thesis using ok unfolding watch_ok_def split_conv pids kernel_exit_pids .
qed

lemma watch_ok_sigchld [simp]: "watch_ok (k\<lparr>sigchld := x\<rparr>, m) = watch_ok (k, m)"
  by (simp add: watch_ok_def)

lemma onRead_ok:
  assumes ok: "watch_ok (k, m)" and step: "onRead k m = (k', m')"
  shows "watch_ok (k', m') \<and> owed m' = owed m"
proof (cases "sigchld k")
  case (Some pid)
  have om: "om_ok (callbacks m)" using ok by (simp add: watch_ok_def)
  consider (gone) "map_of (kids k) pid = None" | (running) "map_of (kids k) pid = Some None"
    | (ended) status where "map_of (kids k) pid = Some (Some status)"
    by (cases "map_of (kids k) pid") (auto intro: option.exhaust)
  then show ?thesis
  proof cases
    case gone
    then have "pid \<notin> fst ` set (callbacks m)" using ok by (auto simp: watch_ok_def map_of_eq_None_iff)
    then have "onExit pid 0 m = m" by (simp add: onExit_def om_find_in_keys)
    with gone Some step have "k' = k\<lparr>sigchld := None\<rparr>" "m' = m"
      by (auto simp: onRead_def wait4_one_def Let_def split: if_splits)
    with ok show ?thesis by simp
  next
    case running
    then have "pid \<in> fst ` set (kids k)" by (simp add: om_find_in_keys)
    then have "0 < pid" using ok by (auto simp: watch_ok_def)
    with running Some step ok show ?thesis by (auto simp: onRead_def wait4_one_def)
  next
    case ended
    then have "pid \<in> fst ` set (kids k)" by (simp add: om_find_in_keys)
    then have pos: "0 < pid" using ok by (auto simp: watch_ok_def)
    let ?ks = "filter (\<lambda>(p, _). p \<noteq> pid) (kids k)"
    have w: "wait4_one pid (kids k) = (pid, status, ?ks)" using ended by (simp add: wait4_one_def)
    have "distinct (map fst (kids k))" using ok by (simp add: watch_ok_def)
    from watch_ok_reap [of "k\<lparr>sigchld := None\<rparr>" m ?ks pid status] wait4_one_kids(1,2) [OF w this pos] ok
    have "watch_ok (k\<lparr>sigchld := None, kids := ?ks\<rparr>, onExit pid status m)" by simp
    with w Some step onExit_owed [OF om] show ?thesis by (auto simp: onRead_def)
  qed
qed (use ok step in \<open>simp add: onRead_def\<close>)

lemma adopt_ok:
  assumes ok: "watch_ok s" and new: "0 < pid" "pid \<notin> fst ` set (kids (fst s))"
  shows "\<exists>s'. adopt pid cb s = Some s' \<and> watch_ok s' \<and> owed (snd s') = add_mset cb (owed (snd s)) \<and>
    fst ` set (kids (fst s')) = insert pid (fst ` set (kids (fst s)))"
proof -
  obtain k m where s: "s = (k, m)" by (cases s)
  have "pid \<notin> fst ` set (callbacks m)" using ok new by (auto simp: s watch_ok_def)
  then have none: "om_find (callbacks m) pid = None" by (simp add: om_find_in_keys)
  have keys: "fst ` set (om_store pid cb (callbacks m)) = insert pid (fst ` set (callbacks m))"
    using om_store_keys [of pid cb "callbacks m"] by simp
  show ?thesis
    using ok new none keys
    by (auto simp: s adopt_def runAtExit_def kernel_fork_def watch_ok_def owed_def mset_om_store [simplified mset_map] om_ok_store)
qed

lemma kernel_fork_ok:
  "watch_ok (k, m) \<Longrightarrow> 0 < pid \<Longrightarrow> pid \<notin> fst ` set (kids k) \<Longrightarrow> watch_ok (kernel_fork pid k, m)"
  by (auto simp: watch_ok_def kernel_fork_def)

lemma kernel_fork_pids: "fst ` set (kids (kernel_fork pid k)) = insert pid (fst ` set (kids k))"
  by (simp add: kernel_fork_def)

interpretation children: exit_watch adopt child_happens "\<lambda>s. owed (snd s)" "\<lambda>s. fst ` set (kids (fst s))" watch_ok
proof unfold_locales
  fix e and s :: "kernel \<times> 'a child_manager"
  assume ok: "watch_ok s"
  obtain k m where s: "s = (k, m)" by (cases s)
  obtain k1 m1 where r: "onRead k m = (k1, m1)" by (cases "onRead k m")
  obtain k2 m2 where t: "child_timer k m = (k2, m2)" by (cases "child_timer k m")
  show "watch_ok (child_happens e s)"
    using ok onRead_ok [OF _ r] child_timer_calls [OF _ t] kernel_exit_ok r t
    by (cases e) (auto simp: child_happens_def s)
  show "owed (snd (child_happens e s)) = owed (snd s)"
    using ok onRead_ok [OF _ r] child_timer_calls [OF _ t] r t
    by (cases e) (auto simp: child_happens_def s)
next
  fix pid and s :: "kernel \<times> 'a child_manager" and cb
  assume "watch_ok s" "0 < pid" "pid \<notin> fst ` set (kids (fst s))"
  from adopt_ok [OF this] show "\<exists>s'. adopt pid cb s = Some s' \<and> watch_ok s' \<and>
      owed (snd s') = add_mset cb (owed (snd s)) \<and>
      fst ` set (kids (fst s')) = insert pid (fst ` set (kids (fst s)))" .
qed

text \<open>C18: The timer makes up for lost signals: it waits for every child that has ended, in one
  go, and queues the callback of each that is watched, once, with the child's own status; the
  children that still run and their callbacks stay.\<close>

theorem timer_reaps:
  assumes "watch_ok (k, m)" "child_timer k m = (k', m')"
  shows "kids k' = filter (\<lambda>(pid, s). s = None) (kids k) \<and>
    pendingFunctors m' = pendingFunctors m @ due_calls (callbacks m) (kids k) \<and>
    mset (map snd (callbacks m')) + mset (map fst (due_calls (callbacks m) (kids k))) = mset (map snd (callbacks m))"
  using child_timer_calls [OF assms] by (auto simp: still_running_def owed_def)

theorem timer_reaps_witness:
  "\<exists>k' m'. child_timer \<lparr>kids = [(7, Some 0), (8, None), (9, Some 256)], sigchld = Some 7\<rparr>
      \<lparr>callbacks = [(7, ''a''), (8, ''b'')], pendingFunctors = []\<rparr> = (k', m') \<and>
     kids k' = [(8, None)] \<and> pendingFunctors m' = [(''a'', 0)]"
proof -
  let ?k = "\<lparr>kids = [(7, Some 0), (8, None), (9, Some 256)], sigchld = Some 7\<rparr>"
  let ?m = "\<lparr>callbacks = [(7, ''a''), (8, ''b'')], pendingFunctors = []\<rparr>"
  obtain k' m' where t: "child_timer ?k ?m = (k', m')" by (cases "child_timer ?k ?m")
  have "watch_ok (?k, ?m)" by (auto simp: watch_ok_def om_ok_def)
  from timer_reaps [OF this t] t show ?thesis by (auto simp: due_calls_def)
qed

end
