(* ===== verification/AppManager.thy ===== *)
theory AppManager
  imports ZurgProcessFacts ChildManager
begin

text \<open>
  The applications of the zurg slave (examples/zurg/slave/AppManager.h, AppManager.cc). An
  operation takes the results of the system calls it makes and gives the message it answers with;
  \<open>None\<close> is a failing assertion or a null pointer. The children are those of theory
  \<open>ChildManager\<close>.
\<close>

section \<open>State\<close>

datatype app_state = kUnknown | kNewApp | kRunning | kExited | kError

record app_status =
  as_state :: "app_state option"
  as_name :: string
  as_pid :: "int option"
  as_message :: "string option"

record application =
  ap_request :: "add_application_request option"
  ap_status :: app_status

definition no_application :: application where
  "no_application = \<lparr>ap_request = None,
     ap_status = \<lparr>as_state = None, as_name = [], as_pid = None, as_message = None\<rparr>\<rparr>"

type_synonym apps = "(string, application) omap"

text \<open>\<^verbatim>\<open>ApplicationStatus::state()\<close> has a default.\<close>

definition state_of :: "app_status \<Rightarrow> app_state" where
  "state_of s = (case as_state s of None \<Rightarrow> kUnknown | Some x \<Rightarrow> x)"

text \<open>What is called when a child exits: the end of a command, whose answer goes to \<open>'d\<close>, or of
  an application.\<close>

datatype 'd exit_callback = Command_exit process 'd | App_exit process

section \<open>Operations\<close>

definition app_add :: "add_application_request \<Rightarrow> apps \<Rightarrow>
    (apps \<times> app_status \<times> add_application_request option) option" where
  "app_add request apps =
     (if CHR ''/'' \<in> set (aa_name request) then None
      else
        (let app = (case om_find apps (aa_name request) of None \<Rightarrow> no_application | Some a \<Rightarrow> a);
             prev_request = ap_request app;
             status = (ap_status app)\<lparr>as_name := aa_name request\<rparr>;
             status = (if as_state status = None then status\<lparr>as_state := Some kNewApp\<rparr> else status)
         in Some (om_store (aa_name request) \<lparr>ap_request = Some request, ap_status = status\<rparr> apps,
              status, prev_request)))"

definition ENOMEM :: int where "ENOMEM = 12"

text \<open>\<^verbatim>\<open>startApp\<close>: the application, the copied status, and the children.\<close>

definition startApp :: "string \<Rightarrow> string \<Rightarrow> parent_calls \<Rightarrow> child_calls \<Rightarrow> application \<Rightarrow>
    kernel \<times> 'd exit_callback child_manager \<Rightarrow>
    (application \<times> app_status \<times> kernel \<times> 'd exit_callback child_manager) option" where
  "startApp prefix' slave_name pc cc app s =
     (let status = ap_status app
      in if state_of status \<noteq> kRunning then
           (case ap_request app of
              None \<Rightarrow> None
            | Some request \<Rightarrow>
                (case Process_start pc cc (Process_app prefix' slave_name request) of
                   None \<Rightarrow> None
                 | Some r \<Rightarrow>
                     (let err = (case so_error r of None \<Rightarrow> ENOMEM | Some e \<Rightarrow> e)
                      in if err \<noteq> 0 then
                           (let status = status\<lparr>as_state := Some kError\<rparr>;
                                k = (case so_child r of None \<Rightarrow> fst s | Some (pid, _) \<Rightarrow> kernel_fork pid (fst s))
                            in Some (app\<lparr>ap_status := status\<rparr>, status, k, snd s))
                         else
                           (let pid = pr_pid (so_process r);
                                status = status\<lparr>as_state := Some kRunning, as_pid := Some pid\<rparr>
                            in map_option (\<lambda>s. (app\<lparr>ap_status := status\<rparr>, status, s))
                                 (adopt pid (App_exit (so_process r)) s)))))
         else Some (app, status\<lparr>as_message := Some ''Already running.''\<rparr>, s))"

text \<open>\<^verbatim>\<open>start\<close>, with each name the results of the calls in case its application is started.\<close>

fun app_start :: "string \<Rightarrow> string \<Rightarrow> (string \<times> parent_calls \<times> child_calls) list \<Rightarrow> apps \<Rightarrow>
    kernel \<times> 'd exit_callback child_manager \<Rightarrow>
    (apps \<times> app_status list \<times> kernel \<times> 'd exit_callback child_manager) option" where
  "app_start prefix' slave_name [] apps s = Some (apps, [], s)"
| "app_start prefix' slave_name ((appName, pc, cc) # names) apps s =
     (case om_find apps appName of
        Some app \<Rightarrow>
          (case startApp prefix' slave_name pc cc app s of
             None \<Rightarrow> None
           | Some (app, status, s) \<Rightarrow>
               map_option (\<lambda>(apps, out, s). (apps, status # out, s))
                 (app_start prefix' slave_name names (om_store appName app apps) s))
      | None \<Rightarrow>
          map_option (\<lambda>(apps, out, s). (apps, \<lparr>as_state = Some kUnknown, as_name = appName, as_pid = None,
              as_message = Some ''Application is unknown.''\<rparr> # out, s))
            (app_start prefix' slave_name names apps s))"

definition onProcessExit :: "process \<Rightarrow> int \<Rightarrow> apps \<Rightarrow> apps" where
  "onProcessExit p status apps =
     (case om_find apps (pr_name p) of
        None \<Rightarrow> apps
      | Some app \<Rightarrow>
          om_store (pr_name p) (app\<lparr>ap_status := (ap_status app)\<lparr>as_state := Some kExited\<rparr>\<rparr>) apps)"

section \<open>One process per application\<close>

text \<open>An application is \<^verbatim>\<open>kRunning\<close> exactly while one callback for the end of its process
  is outstanding.\<close>

definition app_exits :: "string \<Rightarrow> 'd exit_callback multiset \<Rightarrow> nat" where
  "app_exits name cbs = size (filter_mset (\<lambda>cb. case cb of App_exit p \<Rightarrow> pr_name p = name | _ \<Rightarrow> False) cbs)"

definition app_running :: "apps \<Rightarrow> string \<Rightarrow> bool" where
  "app_running apps name \<longleftrightarrow> (case om_find apps name of None \<Rightarrow> False | Some a \<Rightarrow> state_of (ap_status a) = kRunning)"

definition apps_ok :: "apps \<Rightarrow> 'd exit_callback multiset \<Rightarrow> bool" where
  "apps_ok apps cbs \<longleftrightarrow> om_ok apps \<and>
     (\<forall>name. app_exits name cbs = (if app_running apps name then 1 else 0)) \<and>
     (\<forall>name a. om_find apps name = Some a \<longrightarrow> (\<exists>r. ap_request a = Some r \<and> aa_name r = name))"

lemma app_exits_simps [simp]:
  "app_exits name {#} = 0"
  "app_exits name (add_mset (App_exit p) cbs) = (if pr_name p = name then 1 else 0) + app_exits name cbs"
  "app_exits name (add_mset (Command_exit p d) cbs) = app_exits name cbs"
  by (simp_all add: app_exits_def)

lemma app_add_ok:
  assumes "apps_ok apps cbs" "app_add request apps = Some (apps', status, prev)"
  shows "apps_ok apps' cbs" "app_running apps' = app_running apps"
proof -
  let ?name = "aa_name request"
  let ?app = "case om_find apps ?name of None \<Rightarrow> no_application | Some a \<Rightarrow> a"
  have ok: "om_ok apps" using assms(1) by (simp add: apps_ok_def)
  obtain st where apps': "apps' = om_store ?name \<lparr>ap_request = Some request, ap_status = st\<rparr> apps"
    "state_of st = kRunning \<longleftrightarrow> state_of (ap_status ?app) = kRunning"
    using assms(2) by (auto simp: app_add_def Let_def state_of_def split: if_splits option.splits)
  have "state_of (ap_status ?app) = kRunning \<longleftrightarrow> app_running apps ?name"
    by (simp add: app_running_def no_application_def state_of_def split: option.split)
  then show run: "app_running apps' = app_running apps"
    using apps' ok by (intro ext) (simp add: app_running_def om_find_store)
  have "om_ok apps'" using apps'(1) ok by (simp add: om_ok_store)
  moreover have "\<exists>r. ap_request a = Some r \<and> aa_name r = name" if "om_find apps' name = Some a" for name a
    using that assms(1) apps'(1) ok by (auto simp: apps_ok_def om_find_store split: if_splits)
  ultimately show "apps_ok apps' cbs" using assms(1) unfolding apps_ok_def run by blast
qed

lemma Process_start_name: "Process_start pc cc p = Some r \<Longrightarrow> pr_name (so_process r) = pr_name p \<and>
    (so_error r = Some 0 \<longrightarrow> pc_fork pc \<noteq> Inl 0 \<longrightarrow> (\<exists>runs. so_child r = Some (pr_pid (so_process r), runs)))"
  by (auto simp: Process_start_def afterFork_def Let_def case_prod_beta EMFILE_def
      split: if_splits sum.splits list.splits option.splits)

text \<open>What the system promises of its calls: one thread, an \<^verbatim>\<open>errno\<close> that is a positive
  \<^verbatim>\<open>int\<close>, and a child with a number of its own.\<close>

definition launch_ok :: "parent_calls \<Rightarrow> child_calls \<Rightarrow> int set \<Rightarrow> bool" where
  "launch_ok pc cc pids \<longleftrightarrow> pc_numThreads pc = 1 \<and> (\<forall>e. pc_fork pc = Inl e \<longrightarrow> e \<noteq> 0) \<and>
     (\<forall>e. Some e \<in> set (pc_dup_stdout pc # pc_dup_stderr pc # child_failures cc) \<longrightarrow> 0 < e \<and> e < 2 ^ 31) \<and>
     (\<forall>pid. pc_fork pc = Inr pid \<longrightarrow> 0 < pid \<and> pid \<notin> pids)"

lemma Process_start_total:
  assumes "launch_ok pc cc pids"
  obtains r where "Process_start pc cc p = Some r" "pr_name (so_process r) = pr_name p"
    "so_error r = Some 0 \<Longrightarrow> \<exists>runs. so_child r = Some (pr_pid (so_process r), runs)"
    "\<And>pid runs. so_child r = Some (pid, runs) \<Longrightarrow> pc_fork pc = Inr pid \<and> 0 < pid \<and> pid \<notin> pids"
proof -
  have w: "fst (execChild cc out err) \<noteq> []" for out err
    by (auto simp: execChild_def Let_def split: option.split)
  have a: "ws \<noteq> [] \<Longrightarrow> \<exists>x. afterFork pc ws q = Some x" for ws q
    by (cases ws) (simp_all add: afterFork_def Let_def)
  have "\<exists>r. Process_start pc cc p = Some r"
  proof (cases "pc_fork pc")
    case (Inr pid)
    have "\<exists>e q'. afterFork pc (fst (execChild cc out err)) q = Some (e, q')" for out err q
      using a [OF w] by auto
    with Inr assms show ?thesis
      by (simp add: Process_start_def launch_ok_def Let_def case_prod_beta)
  qed (use assms in \<open>simp add: Process_start_def launch_ok_def Let_def\<close>)
  then obtain r where r: "Process_start pc cc p = Some r" by blast
  have "so_child r = Some (pid, runs) \<Longrightarrow> pc_fork pc = Inr pid" for pid runs
    using r by (auto simp: Process_start_def Let_def case_prod_beta split: if_splits sum.splits)
  with r Process_start_name [OF r] assms show thesis by (intro that [of r]) (auto simp: launch_ok_def)
qed

text \<open>Starting one application: it becomes \<^verbatim>\<open>kRunning\<close> together with the callback for it, and
  otherwise no callback is registered.\<close>

lemma startApp_ok:
  assumes "watch_ok s" "launch_ok pc cc (fst ` set (kids (fst s)))" "ap_request app = Some req"
  shows "\<exists>app' st s'. startApp pre slave pc cc app s = Some (app', st, s') \<and> watch_ok s' \<and>
    ap_request app' = ap_request app \<and>
    fst ` set (kids (fst s')) \<subseteq> fst ` set (kids (fst s)) \<union> {pid. pc_fork pc = Inr pid} \<and>
    (if state_of (ap_status app) \<noteq> kRunning \<and> state_of (ap_status app') = kRunning
     then \<exists>p. pr_name p = aa_name req \<and> owed (snd s') = add_mset (App_exit p) (owed (snd s))
     else owed (snd s') = owed (snd s) \<and>
       (state_of (ap_status app') = kRunning \<longleftrightarrow> state_of (ap_status app) = kRunning))"
proof (cases "state_of (ap_status app) = kRunning")
  case True
  with assms(1) show ?thesis by (simp add: startApp_def Let_def)
next
  case False
  obtain r where r: "Process_start pc cc (Process_app pre slave req) = Some r" "pr_name (so_process r) = aa_name req"
    "so_error r = Some 0 \<Longrightarrow> \<exists>runs. so_child r = Some (pr_pid (so_process r), runs)"
    "\<And>pid runs. so_child r = Some (pid, runs) \<Longrightarrow> pc_fork pc = Inr pid \<and> 0 < pid \<and> pid \<notin> fst ` set (kids (fst s))"
    using Process_start_total [OF assms(2), of "Process_app pre slave req"]
    by (metis Process_app_def process.select_convs(3))
  show ?thesis
  proof (cases "so_error r = Some 0")
    case ok: True
    then have fresh: "0 < pr_pid (so_process r)" "pr_pid (so_process r) \<notin> fst ` set (kids (fst s))"
      "pc_fork pc = Inr (pr_pid (so_process r))"
      using r(3,4) by blast+
    obtain s' where "adopt (pr_pid (so_process r)) (App_exit (so_process r)) s = Some s'" "watch_ok s'"
      "owed (snd s') = add_mset (App_exit (so_process r)) (owed (snd s))"
      "fst ` set (kids (fst s')) = insert (pr_pid (so_process r)) (fst ` set (kids (fst s)))"
      using children.adopt_new [OF assms(1) fresh(1,2)] by metis
    with False ok r(1,2) assms(3) fresh(3) show ?thesis
      by (auto simp: startApp_def Let_def state_of_def)
  next
    case err: False
    obtain e where e: "(case so_error r of None \<Rightarrow> ENOMEM | Some e \<Rightarrow> e) = e" "e \<noteq> 0"
      using err by (cases "so_error r") (auto simp: ENOMEM_def)
    let ?k = "case so_child r of None \<Rightarrow> fst s | Some (pid, _) \<Rightarrow> kernel_fork pid (fst s)"
    have k: "watch_ok (?k, snd s)" "fst ` set (kids ?k) \<subseteq> fst ` set (kids (fst s)) \<union> {pid. pc_fork pc = Inr pid}"
      using assms(1) r(4) kernel_fork_ok [of "fst s" "snd s"]
      by (auto simp: kernel_fork_pids split: option.split)
    with False r(1) assms(3) e show ?thesis
      by (simp add: startApp_def Let_def state_of_def)
  qed
qed

fun launches_ok :: "(string \<times> parent_calls \<times> child_calls) list \<Rightarrow> int set \<Rightarrow> bool" where
  "launches_ok [] pids = True"
| "launches_ok ((name, pc, cc) # ls) pids \<longleftrightarrow>
     launch_ok pc cc pids \<and> launches_ok ls (pids \<union> {pid. pc_fork pc = Inr pid})"

lemma launches_ok_mono: "launches_ok ls pids \<Longrightarrow> pids' \<subseteq> pids \<Longrightarrow> launches_ok ls pids'"
proof (induction ls pids arbitrary: pids' rule: launches_ok.induct)
  case (2 name pc cc ls pids)
  have "pids' \<union> {pid. pc_fork pc = Inr pid} \<subseteq> pids \<union> {pid. pc_fork pc = Inr pid}" using 2(3) by blast
  with 2 show ?case by (auto simp: launch_ok_def)
qed simp

lemma apps_ok_store:
  assumes "apps_ok apps cbs" "om_find apps name = Some app" "ap_request app' = ap_request app"
    "\<And>n. app_exits n cbs' = (if (if n = name then state_of (ap_status app') = kRunning else app_running apps n) then 1 else 0)"
  shows "apps_ok (om_store name app' apps) cbs'"
proof -
  have ok: "om_ok apps" using assms(1) by (simp add: apps_ok_def)
  have "app_running (om_store name app' apps) n =
      (if n = name then state_of (ap_status app') = kRunning else app_running apps n)" for n
    using ok by (simp add: app_running_def om_find_store)
  moreover have "\<exists>r. ap_request a = Some r \<and> aa_name r = n" if "om_find (om_store name app' apps) n = Some a" for n a
    using that assms(1-3) ok by (auto simp: apps_ok_def om_find_store split: if_splits)
  ultimately show ?thesis using assms(4) ok by (auto simp: apps_ok_def om_ok_store)
qed

lemma app_start_ok:
  assumes "watch_ok s" "apps_ok apps (owed (snd s))" "launches_ok names (fst ` set (kids (fst s)))"
  shows "\<exists>apps' out s'. app_start pre slave names apps s = Some (apps', out, s') \<and> watch_ok s' \<and>
    apps_ok apps' (owed (snd s')) \<and> length out = length names \<and>
    (\<exists>ps. owed (snd s') = owed (snd s) + image_mset App_exit ps)"
  using assms
proof (induction names arbitrary: apps s)
  case Nil
  then show ?case by (auto intro: exI [of _ "{#}"])
next
  case (Cons l names)
  obtain name pc cc where l: "l = (name, pc, cc)" by (cases l)
  have launch: "launch_ok pc cc (fst ` set (kids (fst s)))"
    "launches_ok names (fst ` set (kids (fst s)) \<union> {pid. pc_fork pc = Inr pid})"
    "launches_ok names (fst ` set (kids (fst s)))"
    using Cons.prems(3) launches_ok_mono [of names "fst ` set (kids (fst s)) \<union> {pid. pc_fork pc = Inr pid}"]
    by (simp_all add: l)
  show ?case
  proof (cases "om_find apps name")
    case None
    obtain apps' out s' where "app_start pre slave names apps s = Some (apps', out, s')" "watch_ok s'"
      "apps_ok apps' (owed (snd s'))" "length out = length names"
      "\<exists>ps. owed (snd s') = owed (snd s) + image_mset App_exit ps"
      using Cons.IH [OF Cons.prems(1,2) launch(3)] by (elim exE conjE) (rule that, assumption+, rule exI)
    with None l show ?thesis by simp
  next
    case (Some app)
    obtain req where req: "ap_request app = Some req" "aa_name req = name"
      using Cons.prems(2) Some unfolding apps_ok_def by meson
    obtain app' st s1 where start: "startApp pre slave pc cc app s = Some (app', st, s1)" "watch_ok s1"
      "ap_request app' = ap_request app"
      "fst ` set (kids (fst s1)) \<subseteq> fst ` set (kids (fst s)) \<union> {pid. pc_fork pc = Inr pid}"
      "if state_of (ap_status app) \<noteq> kRunning \<and> state_of (ap_status app') = kRunning
       then \<exists>p. pr_name p = aa_name req \<and> owed (snd s1) = add_mset (App_exit p) (owed (snd s))
       else owed (snd s1) = owed (snd s) \<and>
         (state_of (ap_status app') = kRunning \<longleftrightarrow> state_of (ap_status app) = kRunning)"
      using startApp_ok [OF Cons.prems(1) launch(1) req(1), of pre slave] by (elim exE conjE) (rule that)
    have run: "app_running apps name \<longleftrightarrow> state_of (ap_status app) = kRunning"
      using Some by (simp add: app_running_def)
    have each: "app_exits n (owed (snd s)) = (if app_running apps n then 1 else 0)" for n
      using Cons.prems(2) by (simp only: apps_ok_def)
    have "apps_ok (om_store name app' apps) (owed (snd s1))"
      by (rule apps_ok_store [OF Cons.prems(2) Some start(3)])
         (use start(5) each run req(2) in \<open>auto split: if_splits\<close>)
    moreover have "launches_ok names (fst ` set (kids (fst s1)))"
      by (rule launches_ok_mono [OF launch(2) start(4)])
    ultimately obtain apps' out s' where rest: "app_start pre slave names (om_store name app' apps) s1 = Some (apps', out, s')"
      "watch_ok s'" "apps_ok apps' (owed (snd s'))" "length out = length names"
      "\<exists>ps. owed (snd s') = owed (snd s1) + image_mset App_exit ps"
      using Cons.IH [OF start(2)] by blast
    have "\<exists>ps. owed (snd s1) = owed (snd s) + image_mset App_exit ps"
    proof (cases "owed (snd s1) = owed (snd s)")
      case False
      then obtain p where "owed (snd s1) = add_mset (App_exit p) (owed (snd s))"
        using start(5) by (auto split: if_splits)
      then show ?thesis by (intro exI [of _ "{#p#}"]) simp
    qed (auto intro: exI [of _ "{#}"])
    with rest(5) have "\<exists>ps. owed (snd s') = owed (snd s) + image_mset App_exit ps"
      by (metis (no_types, lifting) image_mset_union union_assoc)
    with rest start(1) Some l show ?thesis by auto
  qed
qed

lemma onProcessExit_ok:
  assumes "apps_ok apps (add_mset (App_exit p) cbs)"
  shows "apps_ok (onProcessExit p status apps) cbs"
proof -
  let ?name = "pr_name p"
  have "app_exits ?name (add_mset (App_exit p) cbs) \<ge> 1" by simp
  then have run: "app_running apps ?name" using assms by (auto simp: apps_ok_def split: if_splits)
  then obtain app where app: "om_find apps ?name = Some app" by (auto simp: app_running_def split: option.splits)
  have "app_exits n cbs = (if n \<noteq> ?name \<and> app_running apps n then 1 else 0)" for n
  proof -
    have "app_exits n (add_mset (App_exit p) cbs) = (if app_running apps n then 1 else 0)"
      using assms by (simp only: apps_ok_def)
    with run show ?thesis by (auto split: if_splits)
  qed
  then have "apps_ok (om_store ?name (app\<lparr>ap_status := (ap_status app)\<lparr>as_state := Some kExited\<rparr>\<rparr>) apps) cbs"
    by (intro apps_ok_store [OF assms app]) (simp_all add: state_of_def)
  then show ?thesis by (simp add: onProcessExit_def app)
qed

end
