(* ===== verification/SlaveUtil.thy ===== *)
theory SlaveUtil
  imports CLib
begin

text \<open>
  Functions of the zurg slave on text: the output of \<^verbatim>\<open>md5sum\<close> and the name of a
  temporary file (examples/zurg/common/Util.cc).
\<close>

section \<open>The output of md5sum\<close>

text \<open>The loop of \<^verbatim>\<open>parseMd5sum\<close>, with the text from \<^verbatim>\<open>p\<close> on. \<open>None\<close> is a failing
  assertion, for a line without an end, or a piece of negative length, for a line with less than
  34 characters.\<close>

function parse_md5sum :: "string \<Rightarrow> (string \<rightharpoonup> string) \<Rightarrow> (string \<rightharpoonup> string) option" where
  "parse_md5sum p md5sums =
     (if c_str p = [] then Some md5sums
      else
        (case str_find_char newline p of
           None \<Rightarrow> None
         | Some nl \<Rightarrow>
             (if nl < 34 then None
              else parse_md5sum (drop (nl + 1) p) (md5sums(drop 34 (take nl p) \<mapsto> take 32 p)))))"
  by pat_completeness auto
termination
  by (relation "measure (length \<circ> fst)") (auto dest: str_find_char_Some)

declare parse_md5sum.simps [simp del]

definition parseMd5sum :: "string \<Rightarrow> (string \<rightharpoonup> string) option" where
  "parseMd5sum lines = parse_md5sum lines Map.empty"

text \<open>The checksums in the order of the files; a file without one gets the empty string.\<close>

definition md5sums_of :: "string list \<Rightarrow> (string \<rightharpoonup> string) \<Rightarrow> string list" where
  "md5sums_of files md5sums = map (\<lambda>f. case md5sums f of None \<Rightarrow> [] | Some md5 \<Rightarrow> md5) files"

text \<open>The lines that md5sum prints, each a checksum, two characters and the file's name.\<close>

definition md5_line :: "string \<times> string \<Rightarrow> string" where
  "md5_line e = fst e @ ''  '' @ snd e @ [newline]"

definition md5_entry_ok :: "string \<times> string \<Rightarrow> bool" where
  "md5_entry_ok e \<longleftrightarrow> length (fst e) = 32 \<and> newline \<notin> set (fst e) \<and> CHR 0x00 \<notin> set (fst e) \<and>
     newline \<notin> set (snd e)"

lemma drop_past: "drop (length xs + 1) (xs @ c # ys) = ys"
  by simp

lemma parse_md5sum_lines:
  "\<forall>e\<in>set es. md5_entry_ok e \<Longrightarrow>
     parse_md5sum (concat (map md5_line es)) m = Some (m ++ map_of (rev (map (\<lambda>(md5, f). (f, md5)) es)))"
proof (induction es arbitrary: m)
  case Nil
  then show ?case by (simp add: parse_md5sum.simps c_str_def)
next
  case (Cons e es)
  obtain md5 f where e: "e = (md5, f)" by (cases e)
  let ?rest = "concat (map md5_line es)"
  have ok: "length md5 = 32" "newline \<notin> set md5" "CHR 0x00 \<notin> set md5" "newline \<notin> set f"
    using Cons.prems e by (auto simp: md5_entry_ok_def)
  have p: "concat (map md5_line (e # es)) = (md5 @ ''  '' @ f) @ newline # ?rest"
    by (simp add: md5_line_def e)
  have nl: "str_find_char newline ((md5 @ ''  '' @ f) @ newline # ?rest) = Some (length (md5 @ ''  '' @ f))"
    by (rule str_find_char_append) (use ok in \<open>auto simp: newline_def\<close>)
  have parts: "take 32 ((md5 @ ''  '' @ f) @ newline # ?rest) = md5"
    "drop 34 (take (length (md5 @ ''  '' @ f)) ((md5 @ ''  '' @ f) @ newline # ?rest)) = f"
    "drop (length (md5 @ ''  '' @ f) + 1) ((md5 @ ''  '' @ f) @ newline # ?rest) = ?rest"
    "(length (md5 @ ''  '' @ f) < 34) = False"
    using ok(1) drop_past [of "md5 @ ''  '' @ f" newline ?rest] by simp_all
  obtain c md5' where "md5 = c # md5'" using ok(1) by (cases md5) auto
  then have "c_str ((md5 @ ''  '' @ f) @ newline # ?rest) \<noteq> []"
    using ok(3) by (auto simp: c_str_def)
  then have "parse_md5sum (concat (map md5_line (e # es))) m = parse_md5sum ?rest (m(f \<mapsto> md5))"
    unfolding p by (subst parse_md5sum.simps) (use nl parts in \<open>simp only: if_False option.case\<close>)
  then show ?case using Cons by (simp add: e) (simp add: fun_upd_def)
qed



section \<open>Temporary files\<close>

definition pad5 :: "string \<Rightarrow> string" where
  "pad5 s = replicate (5 - length s) CHR ''0'' @ s"

text \<open>\<^verbatim>\<open>writeTempFile\<close>, with the start time and the number of the process, what
  \<^verbatim>\<open>mkostemp\<close> makes of the name, and how much \<^verbatim>\<open>pwrite\<close> has written; with the new value
  of \<^verbatim>\<open>g_tempFileCount\<close>.\<close>

definition writeTempFile :: "string \<Rightarrow> int \<Rightarrow> (string \<Rightarrow> string) \<Rightarrow> int \<Rightarrow> string \<Rightarrow> string \<Rightarrow> int \<Rightarrow> string \<times> int" where
  "writeTempFile startTime pid mkostemp written prefix' content count' =
     (let count' = count' + 1;
          buf = take 255 (''/tmp/'' @ prefix' @ ''-runScript-'' @ startTime @ ''-'' @ show_int pid @ ''-'' @
            pad5 (show_int count') @ ''-XXXXXX'')
      in (if written = int (length content) then mkostemp buf else [], count'))"

end
