(* ===== verification/SlaveService.thy ===== *)
theory SlaveService
  imports AppManager SlaveUtil
begin

text \<open>
  The service of the zurg slave (examples/zurg/slave/SlaveService.h, SlaveService.cc) and the
  gathering of hardware information (GetHardwareTask.h), over the children of \<open>ChildManager\<close>, the
  applications of \<open>AppManager\<close> and the processes of \<open>ZurgProcess\<close>. A request comes with the
  client that waits for its answer; the answers are collected in the state.

  \<open>None\<close> is a failing assertion or a null pointer.
\<close>

section \<open>State\<close>

datatype hw = Lshw | Lspci | Lscpu | Ifconfig

text \<open>Who is told of the end of a command: a client, the checksums of some files for a client, or a
  task that gathers hardware information.\<close>

datatype 'c done_to = Done 'c | Checksum_done "string list" 'c | Hardware_done nat hw

text \<open>The fields that the macro \<^verbatim>\<open>DEFINE_DONE\<close> ranges over are functions of its key.\<close>

record 'c hw_task =
  hw_lshw :: bool
  hw_done :: "hw \<Rightarrow> bool"
  hw_resp :: "hw \<Rightarrow> string option"
  hw_client :: 'c

datatype reply =
    Run_reply run_command_response
  | Checksum_reply "string list"
  | Hardware_reply "hw \<Rightarrow> string option"
  | Content_reply "int \<times> string \<times> int \<times> int \<times> int"
  | Processes_reply
  | Add_reply app_status "add_application_request option"
  | Start_reply "app_status list"

record 'c slave =
  sv_kernel :: kernel
  sv_children :: "'c done_to exit_callback child_manager"
  sv_apps :: apps
  sv_tasks :: "'c hw_task list"
  sv_tempFileCount :: int
  sv_replies :: "('c \<times> reply) list"

definition new_slave :: "'c slave" where
  "new_slave = \<lparr>sv_kernel = \<lparr>kids = [], sigchld = None\<rparr>, sv_children = new_child_manager, sv_apps = [],
     sv_tasks = [], sv_tempFileCount = 0, sv_replies = []\<rparr>"

definition answer :: "'c \<Rightarrow> reply \<Rightarrow> 'c slave \<Rightarrow> 'c slave" where
  "answer c r s = s\<lparr>sv_replies := sv_replies s @ [(c, r)]\<rparr>"

definition the_children :: "'c slave \<Rightarrow> kernel \<times> 'c done_to exit_callback child_manager" where
  "the_children s = (sv_kernel s, sv_children s)"

definition set_children :: "kernel \<times> 'c done_to exit_callback child_manager \<Rightarrow> 'c slave \<Rightarrow> 'c slave" where
  "set_children km s = s\<lparr>sv_kernel := fst km, sv_children := snd km\<rparr>"

section \<open>The end of a command\<close>

text \<open>\<^verbatim>\<open>std_output()\<close> has the empty string as its default.\<close>

definition std_output :: "run_command_response \<Rightarrow> string" where
  "std_output r = (case rr_std_output r of None \<Rightarrow> [] | Some x \<Rightarrow> x)"

definition getFileChecksumDone :: "string list \<Rightarrow> run_command_response \<Rightarrow> 'c \<Rightarrow> 'c slave \<Rightarrow> 'c slave option" where
  "getFileChecksumDone files message c s =
     map_option (\<lambda>md5sums. answer c (Checksum_reply (md5sums_of files md5sums)) s) (parseMd5sum (std_output message))"

definition allDone :: "'c hw_task \<Rightarrow> bool" where
  "allDone t \<longleftrightarrow> hw_done t Lspci \<and> hw_done t Lscpu \<and> hw_done t Ifconfig \<and> (\<not> hw_lshw t \<or> hw_done t Lshw)"

definition checkAllDone :: "nat \<Rightarrow> 'c slave \<Rightarrow> 'c slave" where
  "checkAllDone i s =
     (let t = sv_tasks s ! i in if allDone t then answer (hw_client t) (Hardware_reply (hw_resp t)) s else s)"

definition hardware_done :: "nat \<Rightarrow> hw \<Rightarrow> run_command_response \<Rightarrow> 'c slave \<Rightarrow> 'c slave option" where
  "hardware_done i key out s =
     (let t = sv_tasks s ! i
      in if hw_done t key then None
         else
           (let t = t\<lparr>hw_done := (hw_done t)(key := True)\<rparr>;
                t = (if rr_error_code out = 0 then t\<lparr>hw_resp := (hw_resp t)(key := Some (std_output out))\<rparr> else t)
            in Some (checkAllDone i (s\<lparr>sv_tasks := (sv_tasks s)[i := t]\<rparr>))))"

definition deliver :: "'c done_to \<Rightarrow> run_command_response \<Rightarrow> 'c slave \<Rightarrow> 'c slave option" where
  "deliver d response s =
     (case d of
        Done c \<Rightarrow> Some (answer c (Run_reply response) s)
      | Checksum_done files c \<Rightarrow> getFileChecksumDone files response c s
      | Hardware_done i key \<Rightarrow> hardware_done i key response s)"

section \<open>Commands\<close>

definition runCommand :: "parent_calls \<Rightarrow> child_calls \<Rightarrow> run_command_request \<Rightarrow> 'c done_to \<Rightarrow> 'c slave \<Rightarrow>
    'c slave option" where
  "runCommand pc cc request d s =
     (case Process_start pc cc (Process_command request) of
        None \<Rightarrow> None
      | Some r \<Rightarrow>
          (let err = (case so_error r of None \<Rightarrow> ENOMEM | Some e \<Rightarrow> e)
           in if err \<noteq> 0 then
                (let s = (case so_child r of None \<Rightarrow> s
                       | Some (pid, _) \<Rightarrow> s\<lparr>sv_kernel := kernel_fork pid (sv_kernel s)\<rparr>)
                 in deliver d (error_response err) s)
              else
                map_option (\<lambda>km. set_children km s)
                  (adopt (pr_pid (so_process r)) (Command_exit (so_process r) d) (the_children s))))"

text \<open>A request with the defaults of the message.\<close>

definition command_request :: "string \<Rightarrow> string list \<Rightarrow> run_command_request" where
  "command_request command args = \<lparr>rq_command = command, rq_cwd = ''/tmp'', rq_args = args, rq_envs = [],
     rq_envs_only = False, rq_max_stdout = 1048576, rq_max_stderr = 1048576, rq_timeout = 60, rq_max_memory_mb = 32768\<rparr>"

definition runScript :: "string \<Rightarrow> int \<Rightarrow> (string \<Rightarrow> string) \<Rightarrow> int \<Rightarrow> string \<Rightarrow> parent_calls \<Rightarrow> child_calls \<Rightarrow>
    string \<Rightarrow> 'c \<Rightarrow> 'c slave \<Rightarrow> 'c slave option" where
  "runScript startTime pid mkostemp written name pc cc script c s =
     (let (scriptFile, n) = writeTempFile startTime pid mkostemp written name script (sv_tempFileCount s);
          s = s\<lparr>sv_tempFileCount := n\<rparr>
      in if scriptFile \<noteq> [] then runCommand pc cc (command_request scriptFile []) (Done c) s else Some s)"

definition getFileChecksum :: "parent_calls \<Rightarrow> child_calls \<Rightarrow> string list \<Rightarrow> 'c \<Rightarrow> 'c slave \<Rightarrow> 'c slave option" where
  "getFileChecksum pc cc files c s =
     (if files \<noteq> [] then
        (if \<exists>f\<in>set files. newline \<in> set f then None
         else runCommand pc cc (command_request ''md5sum'' files) (Checksum_done files c) s)
      else Some (answer c (Checksum_reply []) s))"

definition hw_command :: "hw \<Rightarrow> string" where
  "hw_command key = (case key of Lshw \<Rightarrow> ''lshw'' | Lspci \<Rightarrow> ''lspci'' | Lscpu \<Rightarrow> ''lscpu'' | Ifconfig \<Rightarrow> ''/sbin/ifconfig'')"

fun hardware_start :: "(hw \<Rightarrow> parent_calls \<times> child_calls) \<Rightarrow> nat \<Rightarrow> hw list \<Rightarrow> 'c slave \<Rightarrow> 'c slave option" where
  "hardware_start calls i [] s = Some s"
| "hardware_start calls i (key # keys) s =
     (case runCommand (fst (calls key)) (snd (calls key)) (command_request (hw_command key) []) (Hardware_done i key) s of
        None \<Rightarrow> None
      | Some s \<Rightarrow> hardware_start calls i keys s)"

definition hardware_keys :: "bool \<Rightarrow> hw list" where
  "hardware_keys lshw = (if lshw then [Lshw] else []) @ [Lspci, Lscpu, Ifconfig]"

definition getHardware :: "(hw \<Rightarrow> parent_calls \<times> child_calls) \<Rightarrow> bool \<Rightarrow> 'c \<Rightarrow> 'c slave \<Rightarrow> 'c slave option" where
  "getHardware calls lshw c s =
     (let task = \<lparr>hw_lshw = lshw, hw_done = (\<lambda>_. False), hw_resp = (\<lambda>_. None), hw_client = c\<rparr>
      in hardware_start calls (length (sv_tasks s)) (hardware_keys lshw) (s\<lparr>sv_tasks := sv_tasks s @ [task]\<rparr>))"

section \<open>The other requests\<close>

text \<open>The result of muduo's \<^verbatim>\<open>readFile\<close>: error, content, size and times.\<close>

definition getFileContent :: "(string \<Rightarrow> int \<Rightarrow> int \<times> string \<times> int \<times> int \<times> int) \<Rightarrow> string \<Rightarrow> int \<Rightarrow> 'c \<Rightarrow>
    'c slave \<Rightarrow> 'c slave option" where
  "getFileContent util_readFile file_name max_size c s = Some (answer c (Content_reply (util_readFile file_name max_size)) s)"

definition listProcesses :: "bool \<Rightarrow> 'c \<Rightarrow> 'c slave \<Rightarrow> 'c slave option" where
  "listProcesses get_load c s = Some (answer c Processes_reply s)"

definition addApplication :: "add_application_request \<Rightarrow> 'c \<Rightarrow> 'c slave \<Rightarrow> 'c slave option" where
  "addApplication request c s =
     map_option (\<lambda>(apps, status, prev). answer c (Add_reply status prev) (s\<lparr>sv_apps := apps\<rparr>)) (app_add request (sv_apps s))"

definition startApplications :: "string \<Rightarrow> string \<Rightarrow> (string \<times> parent_calls \<times> child_calls) list \<Rightarrow> 'c \<Rightarrow>
    'c slave \<Rightarrow> 'c slave option" where
  "startApplications prefix' slave_name names c s =
     map_option (\<lambda>(apps, out, km). answer c (Start_reply out) (set_children km (s\<lparr>sv_apps := apps\<rparr>)))
       (app_start prefix' slave_name names (sv_apps s) (the_children s))"

text \<open>Four methods have empty bodies.\<close>

definition stopApplication :: "string \<Rightarrow> 'c \<Rightarrow> 'c slave \<Rightarrow> 'c slave option" where
  "stopApplication name c s = Some s"

definition getApplications :: "string list \<Rightarrow> 'c \<Rightarrow> 'c slave \<Rightarrow> 'c slave option" where
  "getApplications names c s = Some s"

definition listApplications :: "'c \<Rightarrow> 'c slave \<Rightarrow> 'c slave option" where
  "listApplications c s = Some s"

definition removeApplications :: "string list \<Rightarrow> 'c \<Rightarrow> 'c slave \<Rightarrow> 'c slave option" where
  "removeApplications names c s = Some s"

section \<open>The event loop\<close>

text \<open>The first queued call, with the time and the memory of the process.\<close>

definition run_functor :: "int \<Rightarrow> int \<Rightarrow> 'c slave \<Rightarrow> 'c slave option" where
  "run_functor now maxrss s =
     (case pendingFunctors (sv_children s) of
        [] \<Rightarrow> Some s
      | (cb, status) # rest \<Rightarrow>
          (let s = s\<lparr>sv_children := (sv_children s)\<lparr>pendingFunctors := rest\<rparr>\<rparr>
           in case cb of
                Command_exit p d \<Rightarrow>
                  (case onCommandExit now status maxrss p of
                     None \<Rightarrow> None
                   | Some (response, p) \<Rightarrow> deliver d response s)
              | App_exit p \<Rightarrow> Some (s\<lparr>sv_apps := onProcessExit p status (sv_apps s)\<rparr>)))"

text \<open>The sinks of a process read while their channels are enabled.\<close>

definition feed_sink :: "string option \<Rightarrow> sink option \<Rightarrow> sink option" where
  "feed_sink input k = map_option (\<lambda>k. if sk_reading k then fst (sink_onRead input k) else k) k"

definition feed_process :: "int \<Rightarrow> bool \<Rightarrow> string option \<Rightarrow> 'd exit_callback \<Rightarrow> 'd exit_callback" where
  "feed_process pid to_stdout input cb =
     (case cb of
        Command_exit p d \<Rightarrow>
          Command_exit (if pr_pid p = pid
            then (if to_stdout then p\<lparr>pr_stdoutSink := feed_sink input (pr_stdoutSink p)\<rparr>
                  else p\<lparr>pr_stderrSink := feed_sink input (pr_stderrSink p)\<rparr>)
            else p) d
      | App_exit p \<Rightarrow> App_exit p)"

definition output_arrives :: "int \<Rightarrow> bool \<Rightarrow> string option \<Rightarrow> 'c slave \<Rightarrow> 'c slave" where
  "output_arrives pid to_stdout input s =
     s\<lparr>sv_children := (sv_children s)
        \<lparr>callbacks := map (\<lambda>(p, cb). (p, feed_process pid to_stdout input cb)) (callbacks (sv_children s)),
         pendingFunctors := map (\<lambda>(cb, st). (feed_process pid to_stdout input cb, st)) (pendingFunctors (sv_children s))\<rparr>\<rparr>"

end
