(* ===== verification/SlaveFacts.thy ===== *)
theory SlaveFacts
  imports SlaveService
begin

text \<open>
  Properties of the zurg slave: every request gets one answer once its commands have ended, no
  application runs twice, and starting a command fails no assertion, in every state that the
  requests, the children and the event loop can lead to.
\<close>

section \<open>Who is waited for\<close>

definition done_of :: "'d exit_callback \<Rightarrow> 'd option" where
  "done_of cb = (case cb of Command_exit p d \<Rightarrow> Some d | App_exit p \<Rightarrow> None)"

definition client_of :: "'c done_to \<Rightarrow> 'c option" where
  "client_of d = (case d of Done c \<Rightarrow> Some c | Checksum_done files c \<Rightarrow> Some c | Hardware_done i key \<Rightarrow> None)"

text \<open>The values of a partial function on a multiset.\<close>

definition somes :: "('a \<Rightarrow> 'b option) \<Rightarrow> 'a multiset \<Rightarrow> 'b multiset" where
  "somes f A = image_mset the (filter_mset (\<lambda>x. x \<noteq> None) (image_mset f A))"

lemma somes_simps [simp]:
  "somes f {#} = {#}"
  "somes f (add_mset x A) = (case f x of None \<Rightarrow> somes f A | Some y \<Rightarrow> add_mset y (somes f A))"
  "somes f (A + B) = somes f A + somes f B"
  by (auto simp: somes_def split: option.split)

abbreviation dones :: "'d exit_callback multiset \<Rightarrow> 'd multiset" where
  "dones \<equiv> somes done_of"

abbreviation clients :: "'c done_to multiset \<Rightarrow> 'c multiset" where
  "clients \<equiv> somes client_of"

lemma dones_app_exits: "dones (image_mset App_exit ps) = {#}"
  by (induction ps) (simp_all add: done_of_def)

definition unfinished :: "'c hw_task list \<Rightarrow> 'c multiset" where
  "unfinished ts = mset (map hw_client (filter (\<lambda>t. \<not> allDone t) ts))"

text \<open>The clients whose requests are in progress.\<close>

definition waiting :: "'c slave \<Rightarrow> 'c multiset" where
  "waiting s = clients (dones (owed (sv_children s))) + unfinished (sv_tasks s)"

definition balance :: "'c slave \<Rightarrow> 'c multiset" where
  "balance s = mset (map fst (sv_replies s)) + waiting s"

section \<open>The invariant\<close>

text \<open>Every key of a task that is not done has one command running for it, except for those that
  are about to be started.\<close>

definition tasks_ok :: "(nat \<times> hw) set \<Rightarrow> 'c hw_task list \<Rightarrow> 'c done_to multiset \<Rightarrow> bool" where
  "tasks_ok starting ts ds \<longleftrightarrow>
     (\<forall>i key. count ds (Hardware_done i key) =
       (if i < length ts \<and> key \<in> set (hardware_keys (hw_lshw (ts ! i))) \<and> \<not> hw_done (ts ! i) key \<and>
         (i, key) \<notin> starting then 1 else 0))"

definition sinks_ok :: "'d exit_callback multiset \<Rightarrow> bool" where
  "sinks_ok cbs \<longleftrightarrow> (\<forall>p d. Command_exit p d \<in># cbs \<longrightarrow> pr_stdoutSink p \<noteq> None \<and> pr_stderrSink p \<noteq> None)"

definition slave_inv :: "(nat \<times> hw) set \<Rightarrow> 'c slave \<Rightarrow> bool" where
  "slave_inv starting s \<longleftrightarrow> watch_ok (the_children s) \<and> apps_ok (sv_apps s) (owed (sv_children s)) \<and>
     sinks_ok (owed (sv_children s)) \<and> tasks_ok starting (sv_tasks s) (dones (owed (sv_children s)))"

definition slave_pids :: "'c slave \<Rightarrow> int set" where
  "slave_pids s = fst ` set (kids (sv_kernel s))"

lemma answer_sel [simp]:
  "sv_kernel (answer c r s) = sv_kernel s" "sv_children (answer c r s) = sv_children s"
  "sv_apps (answer c r s) = sv_apps s" "sv_tasks (answer c r s) = sv_tasks s"
  "sv_replies (answer c r s) = sv_replies s @ [(c, r)]"
  by (simp_all add: answer_def)

lemma slave_inv_answer [simp]: "slave_inv starting (answer c r s) = slave_inv starting s"
  by (simp add: slave_inv_def the_children_def)

lemma waiting_answer [simp]: "waiting (answer c r s) = waiting s"
  by (simp add: waiting_def)

lemma balance_answer [simp]: "balance (answer c r s) = add_mset c (balance s)"
  by (simp add: balance_def)

lemma allDone_keys: "allDone t \<longleftrightarrow> (\<forall>key\<in>set (hardware_keys (hw_lshw t)). hw_done t key)"
  by (auto simp: allDone_def hardware_keys_def)

lemma unfinished_update:
  assumes "i < length ts" "\<not> allDone (ts ! i)" "hw_client t = hw_client (ts ! i)"
  shows "unfinished ts = unfinished (ts[i := t]) + (if allDone t then {#hw_client t#} else {#})"
proof -
  have ts: "ts = take i ts @ ts ! i # drop (Suc i) ts" using assms(1) by (rule id_take_nth_drop)
  have up: "ts[i := t] = take i ts @ t # drop (Suc i) ts" using assms(1) by (simp add: upd_conv_take_nth_drop)
  have "unfinished ts = unfinished (take i ts) + {#hw_client t#} + unfinished (drop (Suc i) ts)"
    using assms(2,3) by (subst ts) (simp add: unfinished_def)
  also have "\<dots> = unfinished (ts[i := t]) + (if allDone t then {#hw_client t#} else {#})"
    unfolding up by (simp add: unfinished_def)
  finally show ?thesis .
qed

text \<open>Telling \<open>d\<close>, which is no longer owed anything, of its command's end: one client more has
  been answered, if \<open>d\<close> stands for a client.\<close>

lemma deliver_ok:
  assumes "tasks_ok starting (sv_tasks s) (add_mset d ds)" "deliver d response s = Some s'"
  shows "sv_kernel s' = sv_kernel s \<and> sv_children s' = sv_children s \<and> sv_apps s' = sv_apps s \<and>
    tasks_ok starting (sv_tasks s') ds \<and>
    mset (map fst (sv_replies s')) + unfinished (sv_tasks s') =
      mset (map fst (sv_replies s)) + unfinished (sv_tasks s) + clients {#d#}"
proof (cases d)
  case (Done c)
  have "tasks_ok starting (sv_tasks s) ds" using assms(1) Done by (simp add: tasks_ok_def)
  with assms(2) Done show ?thesis by (auto simp: deliver_def client_of_def)
next
  case (Checksum_done files c)
  have "tasks_ok starting (sv_tasks s) ds" using assms(1) Checksum_done by (simp add: tasks_ok_def)
  with assms(2) Checksum_done show ?thesis by (auto simp: deliver_def client_of_def getFileChecksumDone_def)
next
  case (Hardware_done i key)
  let ?ts = "sv_tasks s"
  have cnt: "count (add_mset d ds) (Hardware_done j k) = (if j < length ?ts \<and> k \<in> set (hardware_keys (hw_lshw (?ts ! j))) \<and>
      \<not> hw_done (?ts ! j) k \<and> (j, k) \<notin> starting then 1 else 0)" for j k
    using assms(1) by (simp only: tasks_ok_def)
  have own: "i < length ?ts" "key \<in> set (hardware_keys (hw_lshw (?ts ! i)))" "\<not> hw_done (?ts ! i) key"
    "(i, key) \<notin> starting" "count ds (Hardware_done i key) = 0"
    using cnt [of i key] Hardware_done by (auto split: if_splits)
  define t1 where "t1 = (?ts ! i)\<lparr>hw_done := (hw_done (?ts ! i))(key := True)\<rparr>"
  define t where "t = (if rr_error_code response = 0
    then t1\<lparr>hw_resp := (hw_resp t1)(key := Some (std_output response))\<rparr> else t1)"
  have t: "hw_client t = hw_client (?ts ! i)" "hw_lshw t = hw_lshw (?ts ! i)" "hw_done t = (hw_done (?ts ! i))(key := True)"
    by (simp_all add: t_def t1_def)
  have s': "s' = checkAllDone i (s\<lparr>sv_tasks := ?ts[i := t]\<rparr>)"
    using assms(2) Hardware_done own(3)
    by (cases "rr_error_code response = 0") (simp_all add: deliver_def hardware_done_def Let_def t_def t1_def)
  have "\<not> allDone (?ts ! i)" using own by (auto simp: allDone_keys)
  from unfinished_update [OF own(1) this t(1)] own(1)
  have "mset (map fst (sv_replies s')) + unfinished (sv_tasks s') = mset (map fst (sv_replies s)) + unfinished ?ts"
    by (simp add: s' checkAllDone_def)
  moreover have "tasks_ok starting (?ts[i := t]) ds"
    unfolding tasks_ok_def
  proof (intro allI)
    fix j k
    show "count ds (Hardware_done j k) = (if j < length (?ts[i := t]) \<and>
        k \<in> set (hardware_keys (hw_lshw (?ts[i := t] ! j))) \<and> \<not> hw_done (?ts[i := t] ! j) k \<and> (j, k) \<notin> starting
        then 1 else 0)"
      using cnt [of j k] own t Hardware_done by (auto simp: nth_list_update)
  qed
  ultimately show ?thesis by (simp add: s' checkAllDone_def Hardware_done client_of_def Let_def)
qed

section \<open>Commands\<close>

lemma slave_inv_owed:
  assumes "slave_inv starting s"
  shows "watch_ok (the_children s)" "apps_ok (sv_apps s) (owed (sv_children s))" "sinks_ok (owed (sv_children s))"
    "tasks_ok starting (sv_tasks s) (dones (owed (sv_children s)))"
  using assms by (simp_all add: slave_inv_def)

lemma apps_ok_command [simp]: "apps_ok apps (add_mset (Command_exit p d) cbs) = apps_ok apps cbs"
  by (simp add: apps_ok_def)

lemma start_sinks:
  assumes "Process_start pc cc (Process_command request) = Some r" "so_error r = Some 0" "launch_ok pc cc pids"
  shows "pr_stdoutSink (so_process r) \<noteq> None \<and> pr_stderrSink (so_process r) \<noteq> None"
proof -
  let ?p = "(Process_command request)\<lparr>pr_startTime := pc_now pc\<rparr>"
  obtain pid where pid: "pc_fork pc = Inr pid" "afterFork pc (fst (execChild cc True True)) (?p\<lparr>pr_pid := pid\<rparr>) =
      Some (0, so_process r)"
    using assms by (auto simp: Process_start_def Process_command_def EMFILE_def launch_ok_def Let_def case_prod_beta
        split: if_splits sum.splits)
  have run: "pr_runCommand (?p\<lparr>pr_pid := pid\<rparr>)" by (simp add: Process_command_def)
  have err: "int32_of e \<noteq> 0" if "Some e \<in> set (child_failures cc) \<union> {Some EACCES}" for e
    using that assms(3) int32_of_errno by (auto simp: launch_ok_def EACCES_def int32_of_def)
  have dups: "pc_dup_stdout pc \<noteq> Some 0" "pc_dup_stderr pc \<noteq> Some 0" using assms(3) by (auto simp: launch_ok_def)
  obtain w rest where ws: "fst (execChild cc True True) = w # rest" "rest = [] \<or> (\<exists>e. rest = [e] \<and> int32_of e \<noteq> 0)"
  proof (cases "ps_valid (ProcStatFile (cc_stat cc))")
    case True
    let ?f = "first_failure [cc_chdir cc, cc_open_devnull cc, if True \<and> True then None else Some EACCES,
      cc_dup2_stdin cc, cc_dup2_stdout cc, cc_dup2_stderr cc, cc_execvp cc]"
    have "?f = Some e \<Longrightarrow> int32_of e \<noteq> 0" for e
      by (drule first_failure_in, rule err) (auto simp: child_failures_def)
    with True show thesis
      by (intro that [of "ps_startTime (ProcStatFile (cc_stat cc))" "case ?f of None \<Rightarrow> [] | Some e \<Rightarrow> [e]"])
        (auto simp: execChild_def Let_def split: option.splits)
  qed (auto intro!: that simp: execChild_def Let_def)
  with pid(2) run dups show ?thesis
    by (auto simp: afterFork_def Let_def dest!: sym [of _ "so_process r"] split: option.splits)
qed

lemma runCommand_ok:
  assumes inv: "watch_ok (the_children s)" "apps_ok (sv_apps s) (owed (sv_children s))" "sinks_ok (owed (sv_children s))"
      "tasks_ok starting (sv_tasks s) (add_mset d (dones (owed (sv_children s))))"
    and launch: "launch_ok pc cc (slave_pids s)" and run: "runCommand pc cc request d s = Some s'"
  shows "slave_inv starting s' \<and> balance s' = balance s + clients {#d#} \<and>
    slave_pids s' \<subseteq> slave_pids s \<union> {pid. pc_fork pc = Inr pid}"
proof -
  obtain r where r: "Process_start pc cc (Process_command request) = Some r"
    "so_error r = Some 0 \<Longrightarrow> \<exists>runs. so_child r = Some (pr_pid (so_process r), runs)"
    "\<And>pid runs. so_child r = Some (pid, runs) \<Longrightarrow> pc_fork pc = Inr pid \<and> 0 < pid \<and> pid \<notin> slave_pids s"
    using Process_start_total [OF launch, of "Process_command request"] by metis
  show ?thesis
  proof (cases "so_error r = Some 0")
    case True
    let ?p = "so_process r"
    have fresh: "0 < pr_pid ?p" "pr_pid ?p \<notin> fst ` set (kids (fst (the_children s)))" "pc_fork pc = Inr (pr_pid ?p)"
      using r(2,3) True by (auto simp: slave_pids_def the_children_def)
    obtain km where km: "adopt (pr_pid ?p) (Command_exit ?p d) (the_children s) = Some km" "watch_ok km"
      "owed (snd km) = add_mset (Command_exit ?p d) (owed (snd (the_children s)))"
      "fst ` set (kids (fst km)) = insert (pr_pid ?p) (fst ` set (kids (fst (the_children s))))"
      using children.adopt_new [OF inv(1) fresh(1,2)] by metis
    have s': "s' = set_children km s" using run r(1) True km(1) by (simp add: runCommand_def)
    have "sinks_ok (owed (snd km))"
      using inv(3) start_sinks [OF r(1) True launch] km(3) by (auto simp: sinks_ok_def the_children_def)
    moreover have dones: "dones (owed (snd km)) = add_mset d (dones (owed (sv_children s)))"
      using km(3) by (simp add: the_children_def done_of_def)
    ultimately have "slave_inv starting s'"
      using inv km by (simp add: slave_inv_def s' set_children_def the_children_def)
    moreover have "balance s' = balance s + clients {#d#}"
      by (simp add: s' set_children_def balance_def waiting_def dones split: option.split)
    ultimately show ?thesis
      using km(4) fresh(3) by (auto simp: s' set_children_def slave_pids_def the_children_def)
  next
    case False
    let ?err = "case so_error r of None \<Rightarrow> ENOMEM | Some e \<Rightarrow> e"
    have "?err \<noteq> 0" using False by (cases "so_error r") (auto simp: ENOMEM_def)
    define s1 where "s1 = (case so_child r of None \<Rightarrow> s | Some (pid, _) \<Rightarrow> s\<lparr>sv_kernel := kernel_fork pid (sv_kernel s)\<rparr>)"
    have s1: "sv_children s1 = sv_children s" "sv_apps s1 = sv_apps s" "sv_tasks s1 = sv_tasks s" "sv_replies s1 = sv_replies s"
      by (auto simp: s1_def split: option.split)
    have k: "watch_ok (the_children s1)" "slave_pids s1 \<subseteq> slave_pids s \<union> {pid. pc_fork pc = Inr pid}"
      using inv(1) r(3) kernel_fork_ok [of "sv_kernel s" "sv_children s"]
      by (auto simp: s1_def the_children_def slave_pids_def kernel_fork_pids split: option.split)
    have del: "deliver d (error_response ?err) s1 = Some s'"
      using run r(1) \<open>?err \<noteq> 0\<close> by (simp add: runCommand_def Let_def s1_def)
    have "tasks_ok starting (sv_tasks s1) (add_mset d (dones (owed (sv_children s))))" using inv(4) s1 by simp
    from deliver_ok [OF this del] s1 k inv(2,3) show ?thesis
      by (auto simp: slave_inv_def the_children_def balance_def waiting_def slave_pids_def)
  qed
qed

text \<open>Starting the commands of a task one after the other.\<close>

lemma hardware_start_ok:
  assumes "slave_inv ({i} \<times> set keys) s" "distinct keys" "i < length (sv_tasks s)"
    "\<forall>key\<in>set keys. key \<in> set (hardware_keys (hw_lshw (sv_tasks s ! i))) \<and> \<not> hw_done (sv_tasks s ! i) key"
    "launches_ok (map (\<lambda>key. (hw_command key, calls key)) keys) (slave_pids s)"
    "hardware_start calls i keys s = Some s'"
  shows "slave_inv {} s' \<and> balance s' = balance s"
  using assms
proof (induction keys arbitrary: s)
  case (Cons key keys)
  obtain pc cc where calls: "calls key = (pc, cc)" by (cases "calls key")
  obtain s1 where s1: "runCommand pc cc (command_request (hw_command key) []) (Hardware_done i key) s = Some s1"
    "hardware_start calls i keys s1 = Some s'"
    using Cons.prems(6) calls by (auto split: option.splits)
  let ?ds = "dones (owed (sv_children s))"
  note inv = slave_inv_owed [OF Cons.prems(1)]
  have "tasks_ok ({i} \<times> set keys) (sv_tasks s) (add_mset (Hardware_done i key) ?ds)"
    unfolding tasks_ok_def
  proof (intro allI)
    fix j k
    show "count (add_mset (Hardware_done i key) ?ds) (Hardware_done j k) =
        (if j < length (sv_tasks s) \<and> k \<in> set (hardware_keys (hw_lshw (sv_tasks s ! j))) \<and>
          \<not> hw_done (sv_tasks s ! j) k \<and> (j, k) \<notin> {i} \<times> set keys then 1 else 0)"
    proof (cases "j = i \<and> k = key")
      case True
      have "count ?ds (Hardware_done i key) = 0" using inv(4) by (simp add: tasks_ok_def)
      with True Cons.prems(2-4) show ?thesis by simp
    next
      case False
      then have "count (add_mset (Hardware_done i key) ?ds) (Hardware_done j k) = count ?ds (Hardware_done j k)" by auto
      also have "\<dots> = (if j < length (sv_tasks s) \<and> k \<in> set (hardware_keys (hw_lshw (sv_tasks s ! j))) \<and>
          \<not> hw_done (sv_tasks s ! j) k \<and> (j, k) \<notin> {i} \<times> set (key # keys) then 1 else 0)"
        using inv(4) by (simp only: tasks_ok_def)
      finally show ?thesis using False by auto
    qed
  qed
  from runCommand_ok [OF inv(1-3) this _ s1(1)] Cons.prems(5) calls
  have run: "slave_inv ({i} \<times> set keys) s1" "balance s1 = balance s"
    "slave_pids s1 \<subseteq> slave_pids s \<union> {pid. pc_fork pc = Inr pid}"
    by (simp_all add: client_of_def)
  have tasks: "length (sv_tasks s1) = length (sv_tasks s) \<and> hw_lshw (sv_tasks s1 ! i) = hw_lshw (sv_tasks s ! i) \<and>
      (\<forall>k. k \<noteq> key \<longrightarrow> hw_done (sv_tasks s1 ! i) k = hw_done (sv_tasks s ! i) k)"
    using s1(1) Cons.prems(3)
    by (auto simp: runCommand_def Let_def set_children_def deliver_def hardware_done_def checkAllDone_def
        split: option.splits if_splits prod.splits)
  have "launches_ok (map (\<lambda>key. (hw_command key, calls key)) keys) (slave_pids s1)"
    by (rule launches_ok_mono [OF _ run(3)]) (use Cons.prems(5) calls in simp)
  moreover have "\<forall>k\<in>set keys. k \<in> set (hardware_keys (hw_lshw (sv_tasks s1 ! i))) \<and> \<not> hw_done (sv_tasks s1 ! i) k"
  proof
    fix k
    assume k: "k \<in> set keys"
    then have "k \<noteq> key" using Cons.prems(2) by auto
    with k tasks Cons.prems(4) show "k \<in> set (hardware_keys (hw_lshw (sv_tasks s1 ! i))) \<and> \<not> hw_done (sv_tasks s1 ! i) k"
      by simp
  qed
  moreover have "distinct keys" "i < length (sv_tasks s1)" using Cons.prems(2,3) tasks by simp_all
  ultimately have "slave_inv {} s' \<and> balance s' = balance s1" using Cons.IH [OF run(1)] s1(2) by blast
  with run(2) show ?case by simp
qed simp

section \<open>The other steps\<close>

lemma run_functor_ok:
  assumes "slave_inv {} s" "run_functor now maxrss s = Some s'"
  shows "slave_inv {} s' \<and> balance s' = balance s"
proof (cases "pendingFunctors (sv_children s)")
  case (Cons x rest)
  obtain cb status where x: "x = (cb, status)" by (cases x)
  define s1 where "s1 = s\<lparr>sv_children := (sv_children s)\<lparr>pendingFunctors := rest\<rparr>\<rparr>"
  have owed: "owed (sv_children s) = add_mset cb (owed (sv_children s1))"
    by (simp add: owed_def s1_def Cons x)
  have same: "sv_kernel s1 = sv_kernel s" "sv_apps s1 = sv_apps s" "sv_tasks s1 = sv_tasks s" "sv_replies s1 = sv_replies s"
    by (simp_all add: s1_def)
  note inv = slave_inv_owed [OF assms(1)]
  have watch: "watch_ok (the_children s1)" using inv(1) by (simp add: the_children_def watch_ok_def s1_def)
  have sinks: "sinks_ok (owed (sv_children s1))" using inv(3) by (auto simp: sinks_ok_def owed)
  show ?thesis
  proof (cases cb)
    case (Command_exit p d)
    obtain response p' where "onCommandExit now status maxrss p = Some (response, p')"
      "deliver d response s1 = Some s'"
      using assms(2) by (auto simp: run_functor_def Cons x Command_exit s1_def Let_def split: option.splits)
    moreover have "tasks_ok {} (sv_tasks s1) (add_mset d (dones (owed (sv_children s1))))"
      using inv(4) by (simp add: owed Command_exit done_of_def same)
    ultimately have del: "sv_kernel s' = sv_kernel s1 \<and> sv_children s' = sv_children s1 \<and> sv_apps s' = sv_apps s1 \<and>
      tasks_ok {} (sv_tasks s') (dones (owed (sv_children s1))) \<and>
      mset (map fst (sv_replies s')) + unfinished (sv_tasks s') =
        mset (map fst (sv_replies s1)) + unfinished (sv_tasks s1) + clients {#d#}"
      using deliver_ok by blast
    have "apps_ok (sv_apps s1) (owed (sv_children s1))" using inv(2) by (simp add: owed Command_exit same)
    moreover have "clients (dones (owed (sv_children s))) = clients {#d#} + clients (dones (owed (sv_children s1)))"
      by (simp add: owed Command_exit done_of_def split: option.split)
    ultimately show ?thesis
      using del watch sinks by (simp add: slave_inv_def the_children_def balance_def waiting_def same)
  next
    case (App_exit p)
    have s': "s' = s1\<lparr>sv_apps := onProcessExit p status (sv_apps s1)\<rparr>"
      using assms(2) by (simp add: run_functor_def Cons x App_exit s1_def Let_def)
    have "apps_ok (onProcessExit p status (sv_apps s)) (owed (sv_children s1))"
      by (rule onProcessExit_ok) (use inv(2) in \<open>simp add: owed App_exit\<close>)
    then show ?thesis
      using inv(4) watch sinks
      by (simp add: s' slave_inv_def the_children_def balance_def waiting_def same owed App_exit done_of_def)
  qed
qed (use assms in \<open>simp add: run_functor_def\<close>)

lemma feed_process_simps [simp]:
  "done_of (feed_process pid b input cb) = done_of cb"
  "(\<exists>p. feed_process pid b input cb = App_exit p) \<longleftrightarrow> (\<exists>p. cb = App_exit p)"
  by (auto simp: feed_process_def done_of_def split: exit_callback.splits)

lemma output_arrives_owed:
  "owed (sv_children (output_arrives pid b input s)) = image_mset (feed_process pid b input) (owed (sv_children s))"
  by (simp add: output_arrives_def owed_def case_prod_beta comp_def multiset.map_comp)

lemma dones_feed: "dones (image_mset (feed_process pid b input) cbs) = dones cbs"
  by (induction cbs) (simp_all split: option.split)

lemma app_exits_feed: "app_exits name (image_mset (feed_process pid b input) cbs) = app_exits name cbs"
proof (induction cbs)
  case (add cb cbs)
  then show ?case by (cases cb) (simp_all add: feed_process_def)
qed simp

lemma sinks_ok_feed: "sinks_ok cbs \<Longrightarrow> sinks_ok (image_mset (feed_process pid b input) cbs)"
proof -
  assume ok: "sinks_ok cbs"
  have "pr_stdoutSink p \<noteq> None \<and> pr_stderrSink p \<noteq> None"
    if mem: "Command_exit p d \<in># image_mset (feed_process pid b input) cbs" for p d
  proof -
    obtain cb where cb: "cb \<in># cbs" "Command_exit p d = feed_process pid b input cb" using mem by auto
    then obtain q d' where q: "cb = Command_exit q d'" by (cases cb) (auto simp: feed_process_def)
    then have "pr_stdoutSink q \<noteq> None" "pr_stderrSink q \<noteq> None" using ok cb(1) unfolding sinks_ok_def by blast+
    then show ?thesis using cb(2) q by (auto simp: feed_process_def feed_sink_def)
  qed
  then show ?thesis unfolding sinks_ok_def by blast
qed

lemma output_arrives_ok:
  assumes "slave_inv {} s"
  shows "slave_inv {} (output_arrives pid b input s) \<and> balance (output_arrives pid b input s) = balance s"
proof -
  let ?s = "output_arrives pid b input s"
  have m: "map fst (callbacks (sv_children ?s)) = map fst (callbacks (sv_children s))"
    by (simp add: output_arrives_def case_prod_beta comp_def)
  have "set (map fst (callbacks (sv_children ?s))) = set (map fst (callbacks (sv_children s)))" unfolding m ..
  then have "om_ok (callbacks (sv_children ?s)) = om_ok (callbacks (sv_children s))"
    "fst ` set (callbacks (sv_children ?s)) = fst ` set (callbacks (sv_children s))"
    by (simp only: om_ok_def m) (simp only: list.set_map [symmetric] m)
  moreover have "sv_kernel ?s = sv_kernel s" "sv_apps ?s = sv_apps s" "sv_tasks ?s = sv_tasks s" "sv_replies ?s = sv_replies s"
    by (simp_all add: output_arrives_def)
  moreover have "apps_ok (sv_apps s) (owed (sv_children ?s)) = apps_ok (sv_apps s) (owed (sv_children s))"
    by (simp add: apps_ok_def output_arrives_owed app_exits_feed)
  ultimately show ?thesis
    using slave_inv_owed [OF assms] sinks_ok_feed
    by (simp add: slave_inv_def the_children_def watch_ok_def output_arrives_owed dones_feed balance_def waiting_def)
qed

lemma children_event_ok:
  assumes "slave_inv {} s"
  shows "slave_inv {} (set_children (child_happens e (the_children s)) s) \<and>
    balance (set_children (child_happens e (the_children s)) s) = balance s"
proof -
  let ?km = "child_happens e (the_children s)"
  note inv = slave_inv_owed [OF assms]
  have "watch_ok ?km" "owed (snd ?km) = owed (sv_children s)"
    using children.happens_ok [OF inv(1)] children.happens_due [OF inv(1)] by (simp_all add: the_children_def)
  with inv show ?thesis
    by (simp add: slave_inv_def set_children_def the_children_def balance_def waiting_def)
qed

lemma addApplication_ok:
  assumes "slave_inv {} s" "addApplication request c s = Some s'"
  shows "slave_inv {} s' \<and> balance s' = add_mset c (balance s)"
proof -
  obtain apps status prev where a: "app_add request (sv_apps s) = Some (apps, status, prev)"
    "s' = answer c (Add_reply status prev) (s\<lparr>sv_apps := apps\<rparr>)"
    using assms(2) by (auto simp: addApplication_def)
  have "apps_ok apps (owed (sv_children s))" using app_add_ok(1) [OF slave_inv_owed(2) [OF assms(1)] a(1)] .
  moreover have "balance (s\<lparr>sv_apps := apps\<rparr>) = balance s" by (simp add: balance_def waiting_def)
  ultimately show ?thesis using slave_inv_owed [OF assms(1)] by (simp add: a(2) slave_inv_def the_children_def)
qed

lemma startApplications_ok:
  assumes "slave_inv {} s" "launches_ok names (slave_pids s)" "startApplications pre slave names c s = Some s'"
  shows "slave_inv {} s' \<and> balance s' = add_mset c (balance s)"
proof -
  note inv = slave_inv_owed [OF assms(1)]
  have pids: "launches_ok names (fst ` set (kids (fst (the_children s))))"
    using assms(2) by (simp add: slave_pids_def the_children_def)
  have apps: "apps_ok (sv_apps s) (owed (snd (the_children s)))" using inv(2) by (simp add: the_children_def)
  obtain apps out km ps where a: "app_start pre slave names (sv_apps s) (the_children s) = Some (apps, out, km)"
    "watch_ok km" "apps_ok apps (owed (snd km))" "owed (snd km) = owed (sv_children s) + image_mset App_exit ps"
    using app_start_ok [OF inv(1) apps pids, of pre slave] by (auto simp: the_children_def)
  have s': "s' = answer c (Start_reply out) (set_children km (s\<lparr>sv_apps := apps\<rparr>))"
    using assms(3) a(1) by (simp add: startApplications_def)
  have "dones (owed (snd km)) = dones (owed (sv_children s))" by (simp add: a(4) dones_app_exits)
  moreover have "sinks_ok (owed (snd km))" using inv(3) by (auto simp: a(4) sinks_ok_def)
  ultimately show ?thesis
    using a(2,3) inv(4) by (simp add: s' slave_inv_def set_children_def the_children_def balance_def waiting_def)
qed

lemma getHardware_ok:
  assumes "slave_inv {} s"
    "launches_ok (map (\<lambda>key. (hw_command key, calls key)) (hardware_keys lshw)) (slave_pids s)"
    "getHardware calls lshw c s = Some s'"
  shows "slave_inv {} s' \<and> balance s' = add_mset c (balance s)"
proof -
  let ?t = "\<lparr>hw_lshw = lshw, hw_done = (\<lambda>_. False), hw_resp = (\<lambda>_. None), hw_client = c\<rparr>"
  let ?n = "length (sv_tasks s)" and ?s = "s\<lparr>sv_tasks := sv_tasks s @ [?t]\<rparr>"
  note inv = slave_inv_owed [OF assms(1)]
  have "tasks_ok ({?n} \<times> set (hardware_keys lshw)) (sv_tasks s @ [?t]) (dones (owed (sv_children s)))"
    using inv(4) by (auto simp: tasks_ok_def nth_append)
  then have "slave_inv ({?n} \<times> set (hardware_keys lshw)) ?s"
    using inv by (simp add: slave_inv_def the_children_def)
  moreover have "distinct (hardware_keys lshw)" by (simp add: hardware_keys_def)
  moreover have "slave_pids ?s = slave_pids s" by (simp add: slave_pids_def)
  ultimately have "slave_inv {} s' \<and> balance s' = balance ?s"
    using assms(2,3) by (intro hardware_start_ok [of ?n "hardware_keys lshw" ?s calls]) (simp_all add: getHardware_def)
  moreover have "balance ?s = add_mset c (balance s)"
    by (simp add: balance_def waiting_def unfinished_def allDone_def)
  ultimately show ?thesis by simp
qed

lemma client_command_ok:
  assumes "slave_inv {} s" "launch_ok pc cc (slave_pids s)" "client_of d = Some c" "runCommand pc cc request d s = Some s'"
  shows "slave_inv {} s' \<and> balance s' = add_mset c (balance s)"
proof -
  note inv = slave_inv_owed [OF assms(1)]
  have "tasks_ok {} (sv_tasks s) (add_mset d (dones (owed (sv_children s))))"
    using inv(4) assms(3) by (cases d) (simp_all add: tasks_ok_def client_of_def)
  from runCommand_ok [OF inv(1-3) this assms(2,4)] assms(3) show ?thesis by simp
qed

section \<open>Reachable states\<close>

text \<open>The states of the slave, with the clients of all requests so far and of those whose methods
  have no body, or whose script could not be written.\<close>

inductive slave_reachable :: "'c slave \<Rightarrow> 'c list \<Rightarrow> 'c list \<Rightarrow> bool" where
  slave_begin: "slave_reachable new_slave [] []"
| slave_run_command: "slave_reachable s issued ignored \<Longrightarrow> launch_ok pc cc (slave_pids s) \<Longrightarrow>
     runCommand pc cc request (Done c) s = Some s' \<Longrightarrow> slave_reachable s' (c # issued) ignored"
| slave_run_script: "slave_reachable s issued ignored \<Longrightarrow> launch_ok pc cc (slave_pids s) \<Longrightarrow>
     runScript start pid mkostemp written name pc cc script c s = Some s' \<Longrightarrow>
     slave_reachable s' (c # issued)
       (if fst (writeTempFile start pid mkostemp written name script (sv_tempFileCount s)) = [] then c # ignored else ignored)"
| slave_checksum: "slave_reachable s issued ignored \<Longrightarrow> launch_ok pc cc (slave_pids s) \<Longrightarrow>
     getFileChecksum pc cc files c s = Some s' \<Longrightarrow> slave_reachable s' (c # issued) ignored"
| slave_hardware: "slave_reachable s issued ignored \<Longrightarrow>
     launches_ok (map (\<lambda>key. (hw_command key, calls key)) (hardware_keys lshw)) (slave_pids s) \<Longrightarrow>
     getHardware calls lshw c s = Some s' \<Longrightarrow> slave_reachable s' (c # issued) ignored"
| slave_content: "slave_reachable s issued ignored \<Longrightarrow> getFileContent rf file_name max_size c s = Some s' \<Longrightarrow>
     slave_reachable s' (c # issued) ignored"
| slave_processes: "slave_reachable s issued ignored \<Longrightarrow> listProcesses get_load c s = Some s' \<Longrightarrow>
     slave_reachable s' (c # issued) ignored"
| slave_add: "slave_reachable s issued ignored \<Longrightarrow> addApplication request' c s = Some s' \<Longrightarrow>
     slave_reachable s' (c # issued) ignored"
| slave_start: "slave_reachable s issued ignored \<Longrightarrow> launches_ok names (slave_pids s) \<Longrightarrow>
     startApplications pre slave names c s = Some s' \<Longrightarrow> slave_reachable s' (c # issued) ignored"
| slave_ignores: "slave_reachable s issued ignored \<Longrightarrow>
     stopApplication app c s = Some s' \<or> getApplications apps c s = Some s' \<or> listApplications c s = Some s' \<or>
       removeApplications apps c s = Some s' \<Longrightarrow>
     slave_reachable s' (c # issued) (c # ignored)"
| slave_child: "slave_reachable s issued ignored \<Longrightarrow>
     slave_reachable (set_children (child_happens e (the_children s)) s) issued ignored"
| slave_output: "slave_reachable s issued ignored \<Longrightarrow> slave_reachable (output_arrives pid to_stdout input s) issued ignored"
| slave_functor: "slave_reachable s issued ignored \<Longrightarrow> run_functor now maxrss s = Some s' \<Longrightarrow>
     slave_reachable s' issued ignored"

lemma balance_tempFile [simp]: "balance (s\<lparr>sv_tempFileCount := n\<rparr>) = balance s"
  by (simp add: balance_def waiting_def)

lemma slave_inv_tempFile [simp]: "slave_inv st (s\<lparr>sv_tempFileCount := n\<rparr>) = slave_inv st s"
  "slave_pids (s\<lparr>sv_tempFileCount := n\<rparr>) = slave_pids s"
  by (simp_all add: slave_inv_def the_children_def slave_pids_def)

lemma slave_reachable_ok:
  "slave_reachable s issued ignored \<Longrightarrow> slave_inv {} s \<and> mset issued = balance s + mset ignored"
proof (induction rule: slave_reachable.induct)
  case slave_begin
  then show ?case
    by (simp add: slave_inv_def new_slave_def new_child_manager_def the_children_def watch_ok_def om_ok_def owed_def
        apps_ok_def app_running_def sinks_ok_def tasks_ok_def balance_def waiting_def unfinished_def)
next
  case (slave_run_command s issued ignored pc cc request c s')
  then show ?case using client_command_ok [of s pc cc "Done c" c request s'] by (simp add: client_of_def)
next
  case (slave_run_script s issued ignored pc cc start pid mkostemp written name script c s')
  obtain path n where w: "writeTempFile start pid mkostemp written name script (sv_tempFileCount s) = (path, n)"
    by (cases "writeTempFile start pid mkostemp written name script (sv_tempFileCount s)")
  let ?s = "s\<lparr>sv_tempFileCount := n\<rparr>"
  show ?case
  proof (cases "path = []")
    case True
    with slave_run_script w show ?thesis by (auto simp: runScript_def)
  next
    case False
    then have "runCommand pc cc (command_request path []) (Done c) ?s = Some s'"
      using slave_run_script w by (simp add: runScript_def)
    from client_command_ok [of ?s pc cc "Done c" c _ s', OF _ _ _ this] slave_run_script w False show ?thesis
      by (simp add: client_of_def)
  qed
next
  case (slave_checksum s issued ignored pc cc files c s')
  show ?case
  proof (cases "files = []")
    case True
    with slave_checksum have "s' = answer c (Checksum_reply []) s" by (simp add: getFileChecksum_def)
    with slave_checksum show ?thesis by simp
  next
    case False
    with slave_checksum have "runCommand pc cc (command_request ''md5sum'' files) (Checksum_done files c) s = Some s'"
      by (simp add: getFileChecksum_def split: if_splits)
    from client_command_ok [OF _ _ _ this] slave_checksum show ?thesis by (simp add: client_of_def)
  qed
next
  case (slave_hardware s issued ignored calls lshw c s')
  then show ?case using getHardware_ok [of s calls lshw c s'] by simp
next
  case (slave_content s issued ignored rf file_name max_size c s')
  then have "s' = answer c (Content_reply (rf file_name max_size)) s" by (simp add: getFileContent_def)
  with slave_content show ?case by simp
next
  case (slave_processes s issued ignored get_load c s')
  then have "s' = answer c Processes_reply s" by (simp add: listProcesses_def)
  with slave_processes show ?case by simp
next
  case (slave_add s issued ignored request' c s')
  then show ?case using addApplication_ok [of s request' c s'] by simp
next
  case (slave_start s issued ignored names pre slave c s')
  then show ?case using startApplications_ok [of s names pre slave c s'] by simp
next
  case (slave_ignores s issued ignored app c s' apps)
  then have "s' = s"
    by (auto simp: stopApplication_def getApplications_def listApplications_def removeApplications_def)
  with slave_ignores show ?case by simp
next
  case (slave_child s issued ignored e)
  then show ?case using children_event_ok by metis
next
  case (slave_output s issued ignored pid to_stdout input)
  then show ?case using output_arrives_ok by metis
next
  case (slave_functor s issued ignored now maxrss s')
  then show ?case using run_functor_ok by metis
qed

section \<open>Properties\<close>

text \<open>C4: Every request to the slave is answered at most once, and exactly once when its commands
  have ended: the clients of all requests are those that were answered, those in progress, and those
  whose method has an empty body (or whose script could not be written), each counted as often as it
  asked; and once no child and no queued call is left, no client is in progress. This holds whether a command runs, fails to
  start, or fails at once, for the checksums and the hardware information, which start commands of
  their own, and however the signals of the children are merged, lost and made up for.\<close>

theorem slave_answers_once:
  assumes "slave_reachable s issued ignored"
  shows "mset issued = mset (map fst (sv_replies s)) + waiting s + mset ignored \<and>
    (kids (sv_kernel s) = [] \<and> pendingFunctors (sv_children s) = [] \<longrightarrow> waiting s = {#})"
proof -
  have inv: "slave_inv {} s" "mset issued = balance s + mset ignored" using slave_reachable_ok [OF assms] by simp_all
  have "waiting s = {#}" if none: "kids (sv_kernel s) = []" "pendingFunctors (sv_children s) = []"
  proof -
    have "callbacks (sv_children s) = []"
      using slave_inv_owed(1) [OF inv(1)] none by (simp add: watch_ok_def the_children_def)
    then have owed: "owed (sv_children s) = {#}" using none by (simp add: owed_def)
    have "allDone t" if t: "t \<in> set (sv_tasks s)" for t
    proof -
      obtain i where "i < length (sv_tasks s)" "t = sv_tasks s ! i" using t by (metis in_set_conv_nth)
      then show ?thesis
        using slave_inv_owed(4) [OF inv(1)] by (auto simp: allDone_keys owed tasks_ok_def split: if_splits)
    qed
    then have "filter (\<lambda>t. \<not> allDone t) (sv_tasks s) = []" by (simp add: filter_empty_conv)
    then show ?thesis by (simp add: waiting_def owed unfinished_def)
  qed
  with inv(2) show ?thesis by (auto simp: balance_def)
qed

text \<open>One command, from its start to its answer.\<close>

definition example_started :: "string slave" where
  "example_started = the (runCommand forked no_failures ls_request (Done ''client'') new_slave)"

definition child_step :: "child_event \<Rightarrow> 'c slave \<Rightarrow> 'c slave" where
  "child_step e s = set_children (child_happens e (the_children s)) s"

definition example_reaped :: "string slave" where
  "example_reaped = child_step Timer (child_step (Child_exits 42 0) example_started)"

definition example_answered :: "string slave" where
  "example_answered = the (run_functor 9 100 example_reaped)"

lemma example_slave: "slave_reachable example_answered [''client''] []" "slave_reachable example_started [''client''] []"
proof -
  have "runCommand forked no_failures ls_request (Done ''client'') new_slave \<noteq> None"
    "run_functor 9 100 example_reaped \<noteq> None" by code_simp+
  then have step: "runCommand forked no_failures ls_request (Done ''client'') new_slave = Some example_started"
    "run_functor 9 100 example_reaped = Some example_answered"
    by (auto simp: example_started_def example_answered_def)
  have "launch_ok forked no_failures (slave_pids new_slave)"
    by (simp add: launch_ok_def forked_def no_failures_def child_failures_def slave_pids_def new_slave_def)
  from slave_run_command [OF slave_begin this step(1)]
  show started: "slave_reachable example_started [''client''] []" .
  then have "slave_reachable example_reaped [''client''] []"
    unfolding example_reaped_def child_step_def by (intro slave_child)
  with step(2) show "slave_reachable example_answered [''client''] []" by (rule slave_functor [rotated])
qed

theorem slave_answers_once_witness:
  "map fst (sv_replies example_answered) = [''client''] \<and> waiting example_answered = {#}"
proof -
  have "kids (sv_kernel example_answered) = [] \<and> pendingFunctors (sv_children example_answered) = [] \<and>
    map fst (sv_replies example_answered) = [''client'']" by code_simp
  with slave_answers_once [OF example_slave(1)] show ?thesis by simp
qed

text \<open>C13: An application never runs twice: in every reachable state the number of callbacks that
  are registered or queued for the end of an application is 1 if its state is \<^verbatim>\<open>kRunning\<close>,
  and otherwise 0.\<close>

theorem application_runs_once:
  assumes "slave_reachable s issued ignored"
  shows "size {#cb \<in># owed (sv_children s). case cb of App_exit p \<Rightarrow> pr_name p = name | Command_exit p d \<Rightarrow> False#} =
    (if app_running (sv_apps s) name then 1 else 0)"
  using slave_inv_owed(2) [of "{}" s] slave_reachable_ok [OF assms]
  by (simp add: apps_ok_def app_exits_def)

definition example_app :: add_application_request where
  "example_app = \<lparr>aa_name = ''web'', aa_binary = ''httpd'', aa_args = [], aa_envs = [], aa_envs_only = False,
     aa_redirect_stdout = True, aa_redirect_stderr = True, aa_max_memory_mb = 64\<rparr>"

definition example_added :: "string slave" where
  "example_added = the (addApplication example_app ''c'' new_slave)"

definition example_running :: "string slave" where
  "example_running = the (startApplications ''/tmp'' ''slave1'' [(''web'', forked, no_failures)] ''c'' example_added)"

theorem application_runs_once_witness:
  "slave_reachable example_running [''c'', ''c''] [] \<and> app_running (sv_apps example_running) ''web'' \<and>
   size {#cb \<in># owed (sv_children example_running). case cb of App_exit p \<Rightarrow> pr_name p = ''web'' | Command_exit p d \<Rightarrow> False#} = 1"
proof -
  have "addApplication example_app ''c'' new_slave \<noteq> None"
    "startApplications ''/tmp'' ''slave1'' [(''web'', forked, no_failures)] ''c'' example_added \<noteq> None" by code_simp+
  then have step: "addApplication example_app ''c'' new_slave = Some example_added"
    "startApplications ''/tmp'' ''slave1'' [(''web'', forked, no_failures)] ''c'' example_added = Some example_running"
    by (auto simp: example_added_def example_running_def)
  have "kids (sv_kernel example_added) = []" by code_simp
  then have launch: "launches_ok [(''web'', forked, no_failures)] (slave_pids example_added)"
    by (simp add: launch_ok_def forked_def no_failures_def child_failures_def slave_pids_def)
  have r: "slave_reachable example_running [''c'', ''c''] []"
    using slave_start [OF slave_add [OF slave_begin step(1)] launch step(2)] .
  have "app_running (sv_apps example_running) ''web''" by code_simp
  with r application_runs_once [OF r, of "''web''"] show ?thesis by simp
qed

text \<open>C24: No interleaving makes the slave fail when it starts a command: in every reachable state
  \<^verbatim>\<open>runCommand\<close> succeeds, since no callback is left over for a process number that the system
  gives out again, and a finished command always has the two sinks that \<^verbatim>\<open>onCommandExit\<close>
  reads.\<close>

theorem commands_never_fail:
  assumes "slave_reachable s issued ignored" "launch_ok pc cc (slave_pids s)"
  shows "runCommand pc cc request (Done c) s \<noteq> None \<and>
    (\<forall>p d status rest. pendingFunctors (sv_children s) = (Command_exit p d, status) # rest \<longrightarrow>
       onCommandExit now status maxrss p \<noteq> None)"
proof
  have inv: "slave_inv {} s" using slave_reachable_ok [OF assms(1)] by simp
  obtain r where r: "Process_start pc cc (Process_command request) = Some r"
    "so_error r = Some 0 \<Longrightarrow> \<exists>runs. so_child r = Some (pr_pid (so_process r), runs)"
    "\<And>pid runs. so_child r = Some (pid, runs) \<Longrightarrow> pc_fork pc = Inr pid \<and> 0 < pid \<and> pid \<notin> slave_pids s"
    using Process_start_total [OF assms(2), of "Process_command request"] by metis
  show "runCommand pc cc request (Done c) s \<noteq> None"
  proof (cases "so_error r = Some 0")
    case True
    then have "0 < pr_pid (so_process r)" "pr_pid (so_process r) \<notin> fst ` set (kids (fst (the_children s)))"
      using r(2,3) by (auto simp: slave_pids_def the_children_def)
    from children.adopt_new [OF slave_inv_owed(1) [OF inv] this, of "Command_exit (so_process r) (Done c)"]
    show ?thesis using r(1) True by (auto simp: runCommand_def)
  next
    case False
    then have "(case so_error r of None \<Rightarrow> ENOMEM | Some e \<Rightarrow> e) \<noteq> 0"
      by (cases "so_error r") (auto simp: ENOMEM_def)
    with r(1) show ?thesis by (simp add: runCommand_def Let_def deliver_def)
  qed
  have "onCommandExit now status maxrss p \<noteq> None"
    if "pendingFunctors (sv_children s) = (Command_exit p d, status) # rest" for p d status rest
  proof -
    have "Command_exit p d \<in># owed (sv_children s)" by (simp add: owed_def that)
    then have "pr_stdoutSink p \<noteq> None" "pr_stderrSink p \<noteq> None"
      using slave_inv_owed(3) [OF inv] unfolding sinks_ok_def by blast+
    then show ?thesis by (auto simp: onCommandExit_def Let_def)
  qed
  then show "\<forall>p d status rest. pendingFunctors (sv_children s) = (Command_exit p d, status) # rest \<longrightarrow>
       onCommandExit now status maxrss p \<noteq> None" by blast
qed

theorem commands_never_fail_witness:
  "runCommand (forked\<lparr>pc_fork := Inr 43\<rparr>) no_failures ls_request (Done ''other'') example_started \<noteq> None"
proof -
  have "kids (sv_kernel example_started) = [(42, None)]" by code_simp
  then have "launch_ok (forked\<lparr>pc_fork := Inr 43\<rparr>) no_failures (slave_pids example_started)"
    by (simp add: launch_ok_def forked_def no_failures_def child_failures_def slave_pids_def)
  from commands_never_fail [OF example_slave(2) this] show ?thesis by blast
qed

end
