(* ===== verification/ZurgDescriptors.thy ===== *)
theory ZurgDescriptors
  imports ZurgProcess "HOL-Library.Monad_Syntax"
begin

text \<open>
  The file descriptors of a started process (examples/zurg/slave/Process.cc, Sink.h and common/Util.cc): the three
  pipes of \<^verbatim>\<open>Process::start\<close> with the constructors and destructors of \<^verbatim>\<open>Pipe\<close>, what the child keeps when it
  runs the command, and what stays open in the slave. The kernel's table of descriptors is part of the model: a new
  descriptor is the smallest that is free, and there is none beyond the limit. Whether a call fails for another reason
  is a parameter, as in \<open>ZurgProcess\<close>. \<^verbatim>\<open>O_NONBLOCK\<close>, a property of the open file, is left out.
\<close>

section \<open>Descriptors\<close>

datatype open_file = Pipe_read nat | Pipe_write nat | Regular string | Inherited nat

text \<open>The open file of a descriptor, and whether it is closed when a program is run.\<close>

type_synonym fds = "nat \<Rightarrow> (open_file \<times> bool) option"

definition free_fd :: "nat \<Rightarrow> fds \<Rightarrow> nat option" where
  "free_fd limit t = List.find (\<lambda>n. t n = None) [0..<limit]"

definition open_fd :: "nat \<Rightarrow> open_file \<Rightarrow> bool \<Rightarrow> fds \<Rightarrow> (nat \<times> fds) option" where
  "open_fd limit f cloexec t = map_option (\<lambda>n. (n, t(n \<mapsto> (f, cloexec)))) (free_fd limit t)"

definition close_fd :: "nat \<Rightarrow> fds \<Rightarrow> fds" where
  "close_fd n t = t(n := None)"

definition dup_fd :: "nat \<Rightarrow> nat \<Rightarrow> fds \<Rightarrow> (nat \<times> fds) option" where
  "dup_fd limit n t = (case t n of None \<Rightarrow> None | Some (f, _) \<Rightarrow> open_fd limit f False t)"

text \<open>\<^verbatim>\<open>dup2\<close> on one descriptor does nothing.\<close>

definition dup2_fd :: "nat \<Rightarrow> nat \<Rightarrow> fds \<Rightarrow> fds option" where
  "dup2_fd n m t = (case t n of None \<Rightarrow> None | Some (f, _) \<Rightarrow> Some (if n = m then t else t(m \<mapsto> (f, False))))"

definition exec_fds :: "fds \<Rightarrow> fds" where
  "exec_fds t = (\<lambda>n. case t n of None \<Rightarrow> None | Some (f, cloexec) \<Rightarrow> if cloexec then None else Some (f, cloexec))"

definition setCloseOnExec :: "nat \<Rightarrow> fds \<Rightarrow> fds" where
  "setCloseOnExec n t = (case t n of None \<Rightarrow> t | Some (f, _) \<Rightarrow> t(n \<mapsto> (f, True)))"

section \<open>Pipes\<close>

text \<open>The two descriptors; \<open>None\<close> is \<^verbatim>\<open>-1\<close>, after they were closed.\<close>

record fd_pipe =
  pp_read :: "nat option"
  pp_write :: "nat option"

text \<open>\<^verbatim>\<open>Pipe::Pipe\<close>; \<open>None\<close> is the exception it throws.\<close>

definition new_pipe :: "nat \<Rightarrow> nat \<Rightarrow> fds \<Rightarrow> (fd_pipe \<times> fds) option" where
  "new_pipe limit i t =
     do {
       (r, t) \<leftarrow> open_fd limit (Pipe_read i) True t;
       (w, t) \<leftarrow> open_fd limit (Pipe_write i) True t;
       Some (\<lparr>pp_read = Some r, pp_write = Some w\<rparr>, t)
     }"

definition closeRead :: "fd_pipe \<times> fds \<Rightarrow> fd_pipe \<times> fds" where
  "closeRead s = (case s of (p, t) \<Rightarrow> (p\<lparr>pp_read := None\<rparr>, case pp_read p of None \<Rightarrow> t | Some n \<Rightarrow> close_fd n t))"

definition closeWrite :: "fd_pipe \<times> fds \<Rightarrow> fd_pipe \<times> fds" where
  "closeWrite s = (case s of (p, t) \<Rightarrow> (p\<lparr>pp_write := None\<rparr>, case pp_write p of None \<Rightarrow> t | Some n \<Rightarrow> close_fd n t))"

definition destroy_pipe :: "fd_pipe \<Rightarrow> fds \<Rightarrow> fds" where
  "destroy_pipe p t =
     (let s = (if pp_read p \<noteq> None then closeRead (p, t) else (p, t));
          s = (if pp_write (fst s) \<noteq> None then closeWrite s else s)
      in snd s)"

section \<open>The child\<close>

text \<open>\<^verbatim>\<open>redirect\<close>, with the process's identifier and the error of \<^verbatim>\<open>open\<close>.\<close>

definition redirect :: "nat \<Rightarrow> int \<Rightarrow> int option \<Rightarrow> bool \<Rightarrow> string \<Rightarrow> string \<Rightarrow> fds \<Rightarrow> nat option \<times> fds" where
  "redirect limit pid error toFile prefix' postfix t =
     (let name = (if toFile then take 255 (prefix' @ ''.'' @ show_int pid @ ''.'' @ postfix) else ''/dev/null'')
      in case (if error = None then open_fd limit (Regular name) True t else None) of
           None \<Rightarrow> (None, t)
         | Some (n, t) \<Rightarrow> (Some n, t))"

text \<open>\<^verbatim>\<open>execChild\<close>: the table of the command, if it is run.\<close>

definition exec_child_fds :: "nat \<Rightarrow> child_calls \<Rightarrow> nat option \<Rightarrow> nat option \<Rightarrow> fds \<Rightarrow> fds option" where
  "exec_child_fds limit c stdOutput stdError t =
     (if \<not> ps_valid (ProcStatFile (cc_stat c)) \<or> cc_chdir c \<noteq> None \<or> cc_open_devnull c \<noteq> None then None
      else
        do {
          (stdInput, t) \<leftarrow> open_fd limit (Regular ''/dev/null'') False t;
          out \<leftarrow> stdOutput;
          err \<leftarrow> stdError;
          t \<leftarrow> (if cc_dup2_stdin c = None then dup2_fd stdInput 0 t else None);
          let t = close_fd stdInput t;
          t \<leftarrow> (if cc_dup2_stdout c = None then dup2_fd out 1 t else None);
          t \<leftarrow> (if cc_dup2_stderr c = None then dup2_fd err 2 t else None);
          if cc_execvp c = None then Some (exec_fds t) else None
        })"

text \<open>The branch of the child in \<^verbatim>\<open>start\<close>; \<open>start\<close> is the start time as text.\<close>

definition child_fds ::
  "nat \<Rightarrow> int \<Rightarrow> child_calls \<Rightarrow> string \<Rightarrow> process \<Rightarrow> fd_pipe \<Rightarrow> fd_pipe \<Rightarrow> fds \<Rightarrow> fds option" where
  "child_fds limit pid c start p stdOutput stdError t =
     (let cwd = rq_cwd (pr_request p);
          (out, err, t) =
            (if pr_runCommand p then (pp_write stdOutput, pp_write stdError, t)
             else
               (let (out, t) = redirect limit pid (cc_open_stdout c) (pr_redirectStdout p) (cwd @ ''/stdout'') start t;
                    (err, t) = redirect limit pid (cc_open_stderr c) (pr_redirectStderr p) (cwd @ ''/stderr'') start t
                in (out, err, t)))
      in exec_child_fds limit c out err t)"

section \<open>The slave\<close>

text \<open>\<^verbatim>\<open>afterFork\<close>: the descriptors of the two sinks, if they are made. \<open>executed\<close> tells whether the second read
  from the pipe gave nothing.\<close>

definition parent_fds ::
  "nat \<Rightarrow> bool \<Rightarrow> process \<Rightarrow> fd_pipe \<Rightarrow> fd_pipe \<Rightarrow> fd_pipe \<times> fds \<Rightarrow> (nat \<times> nat) option \<times> fd_pipe \<times> fds" where
  "parent_fds limit executed p stdOutput stdError s =
     (let (execError, t) = closeWrite s
      in if executed \<and> pr_runCommand p then
           (let (out, t) = (case Option.bind (pp_read stdOutput) (\<lambda>n. dup_fd limit n t) of
                  None \<Rightarrow> (None, t) | Some (n, t) \<Rightarrow> (Some n, t));
                (err, t) = (case Option.bind (pp_read stdError) (\<lambda>n. dup_fd limit n t) of
                  None \<Rightarrow> (None, t) | Some (n, t) \<Rightarrow> (Some n, t))
            in case (out, err) of
                 (Some a, Some b) \<Rightarrow> (Some (a, b), execError, setCloseOnExec b (setCloseOnExec a t))
               | _ \<Rightarrow>
                   (let t = (case out of None \<Rightarrow> t | Some n \<Rightarrow> close_fd n t);
                        t = (case err of None \<Rightarrow> t | Some n \<Rightarrow> close_fd n t)
                    in (None, execError, t)))
         else (None, execError, t))"

text \<open>\<^verbatim>\<open>start\<close>, with its result in both processes: the slave's sinks and table, and the table of the command. An
  exception of the second or third constructor destroys the pipes before it.\<close>

definition start_fds ::
  "nat \<Rightarrow> parent_calls \<Rightarrow> child_calls \<Rightarrow> bool \<Rightarrow> string \<Rightarrow> process \<Rightarrow> fds \<Rightarrow> (nat \<times> nat) option \<times> fds \<times> fds option" where
  "start_fds limit pc cc executed start p t =
     (if pc_availableFds pc < 20 then (None, t, None)
      else case new_pipe limit 0 t of
        None \<Rightarrow> (None, t, None)
      | Some (execError, t1) \<Rightarrow>
          (case new_pipe limit 1 t1 of
             None \<Rightarrow> (None, destroy_pipe execError t1, None)
           | Some (stdOutput, t2) \<Rightarrow>
               (case new_pipe limit 2 t2 of
                  None \<Rightarrow> (None, destroy_pipe execError (destroy_pipe stdOutput t2), None)
                | Some (stdError, t3) \<Rightarrow>
                    (case pc_fork pc of
                       Inl _ \<Rightarrow> (None, destroy_pipe execError (destroy_pipe stdOutput (destroy_pipe stdError t3)), None)
                     | Inr pid \<Rightarrow>
                         (let (sinks, execError, t4) = parent_fds limit executed p stdOutput stdError (execError, t3)
                          in (sinks, destroy_pipe execError (destroy_pipe stdOutput (destroy_pipe stdError t4)),
                              child_fds limit pid cc start p stdOutput stdError t3))))))"

text \<open>The destructor of a sink.\<close>

definition destroy_sink :: "nat \<Rightarrow> fds \<Rightarrow> fds" where
  "destroy_sink n t = close_fd n t"

section \<open>The table\<close>

lemma free_fd_Some: "free_fd limit t = Some n \<Longrightarrow> t n = None \<and> n < limit"
  by (auto simp: free_fd_def find_Some_iff)

lemma free_fd_least: "free_fd limit t = Some n \<Longrightarrow> k < n \<Longrightarrow> t k \<noteq> None"
  by (auto simp: free_fd_def find_Some_iff)

lemma open_fd_Some: "open_fd limit f c t = Some (n, t') \<longleftrightarrow> free_fd limit t = Some n \<and> t' = t(n \<mapsto> (f, c))"
  by (auto simp: open_fd_def)

text \<open>A pipe is two new descriptors, and destroying it takes them away again.\<close>

lemma new_pipe_Some:
  assumes "new_pipe limit i t = Some (p, t')"
  obtains r w where "p = \<lparr>pp_read = Some r, pp_write = Some w\<rparr>" "t r = None" "t w = None" "r < w"
    "t' = t(r \<mapsto> (Pipe_read i, True), w \<mapsto> (Pipe_write i, True))" "\<forall>k\<le>w. t' k \<noteq> None"
proof -
  obtain r w where r: "free_fd limit t = Some r" and w: "free_fd limit (t(r \<mapsto> (Pipe_read i, True))) = Some w"
    and p: "p = \<lparr>pp_read = Some r, pp_write = Some w\<rparr>"
    and t': "t' = t(r \<mapsto> (Pipe_read i, True), w \<mapsto> (Pipe_write i, True))"
    using assms unfolding new_pipe_def by (auto simp: open_fd_Some bind_eq_Some_conv split: prod.splits)
  have none: "t r = None" "t w = None" "r \<noteq> w" using free_fd_Some [OF r] free_fd_Some [OF w] by (auto split: if_splits)
  then have "\<not> w < r" using free_fd_least [OF r, of w] by blast
  with none have "r < w" by simp
  moreover have "\<forall>k\<le>w. t' k \<noteq> None" using free_fd_least [OF w] by (auto simp: t' le_less)
  ultimately show thesis using that p t' none by blast
qed

lemma destroy_pipe_eq:
  "destroy_pipe p t = (\<lambda>n. if pp_read p = Some n \<or> pp_write p = Some n then None else t n)"
  by (auto simp: destroy_pipe_def closeRead_def closeWrite_def close_fd_def Let_def fun_eq_iff split: option.splits)

lemma exec_fds_cloexec: "t n = None \<Longrightarrow> exec_fds (t(n \<mapsto> (f, True))) = exec_fds t"
  by (auto simp: exec_fds_def fun_eq_iff split: option.split)

section \<open>What the command gets\<close>

text \<open>The standard descriptors are open. In the child they always are: the pipes fill the gaps.\<close>

definition std_open :: "fds \<Rightarrow> bool" where
  "std_open t \<longleftrightarrow> t 0 \<noteq> None \<and> t 1 \<noteq> None \<and> t 2 \<noteq> None"

lemma std_free:
  assumes "std_open t" "t n = None"
  shows "2 < n"
proof -
  have "n \<noteq> 0" "n \<noteq> 1" "n \<noteq> 2" using assms unfolding std_open_def by metis+
  then show ?thesis by linarith
qed

lemma std_open_upd: "std_open t \<Longrightarrow> t n = None \<Longrightarrow> std_open (t(n \<mapsto> x))"
  by (auto simp: std_open_def)

lemma exec_child_fds_eq:
  assumes std: "std_open t" and out: "t out = Some (fo, True)" "2 < out" and err: "t err = Some (fe, True)" "2 < err"
    and u: "exec_child_fds limit c (Some out) (Some err) t = Some u"
  shows "u = (exec_fds t)(0 \<mapsto> (Regular ''/dev/null'', False), 1 \<mapsto> (fo, False), 2 \<mapsto> (fe, False))"
proof -
  let ?null = "(Regular ''/dev/null'', False)"
  obtain n where n: "free_fd limit t = Some n" using u
    by (cases "free_fd limit t") (auto simp: exec_child_fds_def open_fd_def split: if_splits)
  have n2: "t n = None" using free_fd_Some [OF n] by simp
  have "2 < n" by (rule std_free [OF std n2])
  then have ne: "n \<noteq> 0" "n \<noteq> 1" "n \<noteq> 2" "n \<noteq> out" "n \<noteq> err" using n2 out err by auto
  let ?t1 = "t(n \<mapsto> ?null, 0 \<mapsto> ?null, n := None)"
  let ?t2 = "?t1(1 \<mapsto> (fo, False))"
  have 1: "dup2_fd n 0 (t(n \<mapsto> ?null)) = Some (t(n \<mapsto> ?null, 0 \<mapsto> ?null))" using ne by (simp add: dup2_fd_def)
  have 2: "dup2_fd out 1 ?t1 = Some ?t2" using out ne by (simp add: dup2_fd_def)
  have 3: "dup2_fd err 2 ?t2 = Some (?t2(2 \<mapsto> (fe, False)))" using err ne by (simp add: dup2_fd_def)
  have "u = exec_fds (?t2(2 \<mapsto> (fe, False)))"
    using u 1 2 3 by (auto simp: exec_child_fds_def open_fd_def n close_fd_def Let_def split: if_splits)
  then show ?thesis using n2 ne by (auto simp: exec_fds_def fun_eq_iff)
qed

lemma redirect_fds:
  assumes "redirect limit pid error toFile prefix' postfix t = (Some n, t')" "std_open t"
  obtains f where "t' = t(n \<mapsto> (f, True))" "t n = None" "2 < n"
    "f = Regular (if toFile then take 255 (prefix' @ ''.'' @ show_int pid @ ''.'' @ postfix) else ''/dev/null'')"
proof -
  from assms(1) have n: "free_fd limit t = Some n" "t' = t(n \<mapsto>
      (Regular (if toFile then take 255 (prefix' @ ''.'' @ show_int pid @ ''.'' @ postfix) else ''/dev/null''), True))"
    by (auto simp: redirect_def Let_def open_fd_Some split: option.splits if_splits)
  then have "t n = None" using free_fd_Some by simp
  moreover from this have "2 < n" by (rule std_free [OF assms(2)])
  ultimately show thesis using that n(2) by blast
qed

lemma child_fds_eq:
  assumes std: "std_open t" and out: "pp_write stdOutput = Some w1" "t w1 = Some (Pipe_write 1, True)" "2 < w1"
    and err: "pp_write stdError = Some w2" "t w2 = Some (Pipe_write 2, True)" "2 < w2"
    and u: "child_fds limit pid c start p stdOutput stdError t = Some u"
  shows "\<exists>fo fe. u = (exec_fds t)(0 \<mapsto> (Regular ''/dev/null'', False), 1 \<mapsto> (fo, False), 2 \<mapsto> (fe, False)) \<and>
    (if pr_runCommand p then fo = Pipe_write 1 \<and> fe = Pipe_write 2 else (\<exists>a b. fo = Regular a \<and> fe = Regular b))"
proof (cases "pr_runCommand p")
  case True
  then have "exec_child_fds limit c (Some w1) (Some w2) t = Some u" using u out err by (simp add: child_fds_def)
  from exec_child_fds_eq [OF std out(2,3) err(2,3) this] show ?thesis using True by auto
next
  case False
  let ?cwd = "rq_cwd (pr_request p)"
  obtain o1 t1 where r1: "redirect limit pid (cc_open_stdout c) (pr_redirectStdout p) (?cwd @ ''/stdout'') start t = (o1, t1)"
    by (cases "redirect limit pid (cc_open_stdout c) (pr_redirectStdout p) (?cwd @ ''/stdout'') start t")
  obtain o2 t2 where r2: "redirect limit pid (cc_open_stderr c) (pr_redirectStderr p) (?cwd @ ''/stderr'') start t1 = (o2, t2)"
    by (cases "redirect limit pid (cc_open_stderr c) (pr_redirectStderr p) (?cwd @ ''/stderr'') start t1")
  have e: "exec_child_fds limit c o1 o2 t2 = Some u" using u False r1 r2 by (simp add: child_fds_def Let_def)
  then obtain n1 n2 where o: "o1 = Some n1" "o2 = Some n2"
    by (auto simp: exec_child_fds_def bind_eq_Some_conv split: if_splits)
  obtain f1 where f1: "t1 = t(n1 \<mapsto> (Regular f1, True))" "t n1 = None" "2 < n1"
    using redirect_fds [OF r1 [unfolded o] std] by metis
  have std1: "std_open t1" using std_open_upd [OF std f1(2)] f1(1) by simp
  obtain f2 where f2: "t2 = t1(n2 \<mapsto> (Regular f2, True))" "t1 n2 = None" "2 < n2"
    using redirect_fds [OF r2 [unfolded o] std1] by metis
  have std2: "std_open t2" using std_open_upd [OF std1 f2(2)] f2(1) by simp
  have "n1 \<noteq> n2" using f1 f2 by auto
  then have "t2 n1 = Some (Regular f1, True)" "t2 n2 = Some (Regular f2, True)" using f1 f2 by auto
  from exec_child_fds_eq [OF std2 this(1) f1(3) this(2) f2(3) e [unfolded o]] show ?thesis
    using False exec_fds_cloexec [of t1 n2, OF f2(2)] exec_fds_cloexec [of t n1, OF f1(2)] f1(1) f2(1) by auto
qed

section \<open>What stays open in the slave\<close>

lemma dup_fd_Some:
  assumes "dup_fd limit n t = Some (m, t')" "t n = Some (f, c)"
  shows "t' = t(m \<mapsto> (f, False)) \<and> t m = None"
  using assms by (auto simp: dup_fd_def open_fd_Some dest!: free_fd_Some)

lemma parent_fds_eq:
  assumes "pp_read stdOutput = Some r1" "t r1 = Some (Pipe_read 1, True)"
    and "pp_read stdError = Some r2" "t r2 = Some (Pipe_read 2, True)"
    and "pp_write execError = Some w" "w \<noteq> r1" "w \<noteq> r2"
    and "parent_fds limit executed p stdOutput stdError (execError, t) = (sinks, execError', t')"
  shows "execError' = execError\<lparr>pp_write := None\<rparr>"
    and "case sinks of None \<Rightarrow> t' = close_fd w t
      | Some (a, b) \<Rightarrow> a \<noteq> b \<and> close_fd w t a = None \<and> close_fd w t b = None \<and>
          t' = (close_fd w t)(a \<mapsto> (Pipe_read 1, True), b \<mapsto> (Pipe_read 2, True))"
proof -
  let ?t = "close_fd w t"
  have cw: "closeWrite (execError, t) = (execError\<lparr>pp_write := None\<rparr>, ?t)" using assms(5) by (simp add: closeWrite_def)
  have r: "?t r1 = Some (Pipe_read 1, True)" "?t r2 = Some (Pipe_read 2, True)"
    using assms(2,4,6,7) by (simp_all add: close_fd_def)
  have "execError' = execError\<lparr>pp_write := None\<rparr> \<and> (case sinks of None \<Rightarrow> t' = ?t
      | Some (a, b) \<Rightarrow> a \<noteq> b \<and> ?t a = None \<and> ?t b = None \<and> t' = ?t(a \<mapsto> (Pipe_read 1, True), b \<mapsto> (Pipe_read 2, True)))"
  proof (cases "executed \<and> pr_runCommand p")
    case False
    then show ?thesis using assms(8) by (auto simp: parent_fds_def cw)
  next
    case run: True
    show ?thesis
    proof (cases "dup_fd limit r1 ?t")
      case None
      show ?thesis
      proof (cases "dup_fd limit r2 ?t")
        case None
        with \<open>dup_fd limit r1 ?t = None\<close> show ?thesis using assms(1,3,8) run by (simp add: parent_fds_def cw)
      next
        case (Some q)
        then obtain b tb where b: "dup_fd limit r2 ?t = Some (b, tb)" by (cases q) simp
        have "tb = ?t(b \<mapsto> (Pipe_read 2, False))" "?t b = None" using dup_fd_Some [OF b r(2)] by auto
        then have "close_fd b tb = ?t" by (auto simp: close_fd_def fun_eq_iff)
        with None b show ?thesis using assms(1,3,8) run by (simp add: parent_fds_def cw)
      qed
    next
      case (Some q)
      then obtain a ta where a: "dup_fd limit r1 ?t = Some (a, ta)" by (cases q) simp
      have ta: "ta = ?t(a \<mapsto> (Pipe_read 1, False))" "?t a = None" using dup_fd_Some [OF a r(1)] by auto
      then have close: "close_fd a ta = ?t" by (auto simp: close_fd_def fun_eq_iff)
      have r2: "ta r2 = Some (Pipe_read 2, True)" using ta r(2) by auto
      show ?thesis
      proof (cases "dup_fd limit r2 ta")
        case None
        with a close show ?thesis using assms(1,3,8) run by (simp add: parent_fds_def cw)
      next
        case (Some q)
        then obtain b tb where b: "dup_fd limit r2 ta = Some (b, tb)" by (cases q) simp
        have tb: "tb = ta(b \<mapsto> (Pipe_read 2, False))" "ta b = None" using dup_fd_Some [OF b r2] by auto
        then have ne: "a \<noteq> b" "?t b = None" using ta by (auto split: if_splits)
        have "setCloseOnExec b (setCloseOnExec a tb) = ?t(a \<mapsto> (Pipe_read 1, True), b \<mapsto> (Pipe_read 2, True))"
          using ne(1) by (auto simp: setCloseOnExec_def tb(1) ta(1))
        with a b ne ta(2) show ?thesis using assms(1,3,8) run by (auto simp: parent_fds_def cw)
      qed
    qed
  qed
  then show "execError' = execError\<lparr>pp_write := None\<rparr>"
    and "case sinks of None \<Rightarrow> t' = close_fd w t
      | Some (a, b) \<Rightarrow> a \<noteq> b \<and> close_fd w t a = None \<and> close_fd w t b = None \<and>
          t' = (close_fd w t)(a \<mapsto> (Pipe_read 1, True), b \<mapsto> (Pipe_read 2, True))"
    by blast+
qed

lemma destroy_new_pipe: "new_pipe limit i t = Some (p, t') \<Longrightarrow> destroy_pipe p t' = t"
  by (elim new_pipe_Some) (auto simp: destroy_pipe_eq fun_eq_iff)

lemma exec_new_pipe: "new_pipe limit i t = Some (p, t') \<Longrightarrow> exec_fds t' = exec_fds t"
  by (elim new_pipe_Some) (auto simp: exec_fds_def fun_eq_iff)

text \<open>After the fork.\<close>

lemma start_forked:
  fixes p :: process and executed :: bool
  assumes p0: "new_pipe limit 0 t = Some (execError, t1)"
    and p1: "new_pipe limit 1 t1 = Some (stdOutput, t2)" and p2: "new_pipe limit 2 t2 = Some (stdError, t3)"
  defines "r \<equiv> parent_fds limit executed p stdOutput stdError (execError, t3)"
  defines "t' \<equiv> destroy_pipe (fst (snd r)) (destroy_pipe stdOutput (destroy_pipe stdError (snd (snd r))))"
  shows "(case fst r of
       None \<Rightarrow> t' = t
     | Some (a, b) \<Rightarrow> a \<noteq> b \<and> t' a = Some (Pipe_read 1, True) \<and> t' b = Some (Pipe_read 2, True) \<and>
         destroy_sink b (destroy_sink a t') = t) \<and>
    (case child_fds limit pid cc text p stdOutput stdError t3 of
       None \<Rightarrow> True
     | Some u \<Rightarrow> \<exists>out err. u = (exec_fds t)(0 \<mapsto> (Regular ''/dev/null'', False), 1 \<mapsto> (out, False), 2 \<mapsto> (err, False)) \<and>
         (if pr_runCommand p then out = Pipe_write 1 \<and> err = Pipe_write 2 else (\<exists>a b. out = Regular a \<and> err = Regular b)))"
proof
  obtain r0 w0 where e0: "execError = \<lparr>pp_read = Some r0, pp_write = Some w0\<rparr>" "t r0 = None" "t w0 = None" "r0 < w0"
      "t1 = t(r0 \<mapsto> (Pipe_read 0, True), w0 \<mapsto> (Pipe_write 0, True))" "\<forall>k\<le>w0. t1 k \<noteq> None" using new_pipe_Some [OF p0] .
  obtain r1 w1 where e1: "stdOutput = \<lparr>pp_read = Some r1, pp_write = Some w1\<rparr>" "t1 r1 = None" "t1 w1 = None" "r1 < w1"
      "t2 = t1(r1 \<mapsto> (Pipe_read 1, True), w1 \<mapsto> (Pipe_write 1, True))" "\<forall>k\<le>w1. t2 k \<noteq> None" using new_pipe_Some [OF p1] .
  obtain r2 w2 where e2: "stdError = \<lparr>pp_read = Some r2, pp_write = Some w2\<rparr>" "t2 r2 = None" "t2 w2 = None" "r2 < w2"
      "t3 = t2(r2 \<mapsto> (Pipe_read 2, True), w2 \<mapsto> (Pipe_write 2, True))" "\<forall>k\<le>w2. t3 k \<noteq> None" using new_pipe_Some [OF p2] .
  have above: "w0 < r1" "w1 < r2" using e0(6) e1(2,6) e2(2) by (meson not_le)+
  have n1: "r1 \<noteq> r0" "r1 \<noteq> w0" "w1 \<noteq> r0" "w1 \<noteq> w0" "t r1 = None" "t w1 = None" "r0 \<noteq> w0"
    using e0(2-5) e1(2,3) by (auto split: if_splits)
  have n2: "r2 \<noteq> r0" "r2 \<noteq> w0" "w2 \<noteq> r0" "w2 \<noteq> w0" "r2 \<noteq> r1" "r2 \<noteq> w1" "w2 \<noteq> r1" "w2 \<noteq> w1" "t r2 = None" "t w2 = None"
      "r1 \<noteq> w1" "r2 \<noteq> w2"
    using e0(2-5) e1(4,5) e2(2-4) by (auto split: if_splits)
  obtain sinks ee t4 where r: "r = (sinks, ee, t4)" by (cases r)
  have t3: "t3 r1 = Some (Pipe_read 1, True)" "t3 r2 = Some (Pipe_read 2, True)" "t3 w1 = Some (Pipe_write 1, True)"
      "t3 w2 = Some (Pipe_write 2, True)" using e1(4,5) e2(4,5) n2 by auto
  note par = parent_fds_eq [of stdOutput r1 t3 stdError r2 execError w0, OF _ t3(1) _ t3(2) _ _ _ r [unfolded r_def]]
  have ee: "ee = execError\<lparr>pp_write := None\<rparr>" using par(1) e0 e1 e2 n1 n2 by auto
  have t'_eq: "t' n = (if n \<in> {r0, r1, w1, r2, w2} then None else t4 n)" for n
    by (auto simp: t'_def r ee e0(1) e1(1) e2(1) destroy_pipe_eq)
  have base: "close_fd w0 t3 n = (if n \<in> {r0, r1, w1, r2, w2} then t3 n else t n)" for n
    unfolding e2(5) e1(5) e0(5) close_fd_def using e0(3,4) n1 n2 by simp
  have none: "t n = None" if "n \<in> {r0, r1, w1, r2, w2}" for n using that e0 n1 n2 by auto
  have some: "t3 n \<noteq> None" if "n \<in> {r0, r1, w1, r2, w2}" for n
    using that e0 e1(4,5) e2(4,5) n1 n2 by auto
  show "case fst r of None \<Rightarrow> t' = t
     | Some (a, b) \<Rightarrow> a \<noteq> b \<and> t' a = Some (Pipe_read 1, True) \<and> t' b = Some (Pipe_read 2, True) \<and>
         destroy_sink b (destroy_sink a t') = t"
  proof (cases sinks)
    case None
    then have "t4 = close_fd w0 t3" using par(2) e0 e1 e2 n1 n2 by auto
    then have "t' n = t n" for n unfolding t'_eq using base [of n] none [of n] by auto
    then show ?thesis using None r by auto
  next
    case (Some q)
    then obtain a b where q: "sinks = Some (a, b)" by (cases q) simp
    have ab: "a \<noteq> b" "close_fd w0 t3 a = None" "close_fd w0 t3 b = None"
      "t4 = (close_fd w0 t3)(a \<mapsto> (Pipe_read 1, True), b \<mapsto> (Pipe_read 2, True))"
      using par(2) q e0 e1 e2 n1 n2 by auto
    have out: "a \<notin> {r0, r1, w1, r2, w2}" "b \<notin> {r0, r1, w1, r2, w2}"
      using ab(2,3) base some by metis+
    have t: "t a = None" "t b = None" using ab(2,3) base out by metis+
    have "t' a = Some (Pipe_read 1, True)" "t' b = Some (Pipe_read 2, True)" using t'_eq out ab(1,4) by auto
    moreover have "destroy_sink b (destroy_sink a t') n = t n" for n
    proof (cases "n = a \<or> n = b")
      case True
      then show ?thesis using t by (auto simp: destroy_sink_def close_fd_def)
    next
      case False
      then have "destroy_sink b (destroy_sink a t') n = t' n" by (simp add: destroy_sink_def close_fd_def)
      also have "\<dots> = t n" unfolding t'_eq using False ab(4) base [of n] none [of n] by auto
      finally show ?thesis .
    qed
    ultimately show ?thesis using q r ab(1) by auto
  qed
  have s1: "2 < w1" "2 < w2" using above e0(4) e1(4) e2(4) by linarith+
  then have s3: "std_open t3" using e2(6) by (simp add: std_open_def)
  have ex: "exec_fds t3 = exec_fds t"
    using exec_new_pipe [OF p0] exec_new_pipe [OF p1] exec_new_pipe [OF p2] by simp
  show "case child_fds limit pid cc text p stdOutput stdError t3 of None \<Rightarrow> True
     | Some u \<Rightarrow> \<exists>out err. u = (exec_fds t)(0 \<mapsto> (Regular ''/dev/null'', False), 1 \<mapsto> (out, False), 2 \<mapsto> (err, False)) \<and>
         (if pr_runCommand p then out = Pipe_write 1 \<and> err = Pipe_write 2 else (\<exists>a b. out = Regular a \<and> err = Regular b))"
  proof (cases "child_fds limit pid cc text p stdOutput stdError t3")
    case (Some u)
    have w: "pp_write stdOutput = Some w1" "pp_write stdError = Some w2" using e1(1) e2(1) by simp_all
    from child_fds_eq [OF s3 w(1) t3(3) s1(1) w(2) t3(4) s1(2) Some] show ?thesis
      unfolding Some ex [symmetric] option.case .
  qed simp
qed

section \<open>No descriptor is lost\<close>

lemma start_with_pipes:
  assumes start: "start_fds limit pc cc executed text p t = (sinks, t', command)" and fds: "\<not> pc_availableFds pc < 20"
    and p0: "new_pipe limit 0 t = Some (execError, t1)"
    and p1: "new_pipe limit 1 t1 = Some (stdOutput, t2)" and p2: "new_pipe limit 2 t2 = Some (stdError, t3)"
  shows "(case sinks of
       None \<Rightarrow> t' = t
     | Some (a, b) \<Rightarrow> a \<noteq> b \<and> t' a = Some (Pipe_read 1, True) \<and> t' b = Some (Pipe_read 2, True) \<and>
         destroy_sink b (destroy_sink a t') = t) \<and>
    (case command of
       None \<Rightarrow> True
     | Some u \<Rightarrow> \<exists>out err. u = (exec_fds t)(0 \<mapsto> (Regular ''/dev/null'', False), 1 \<mapsto> (out, False), 2 \<mapsto> (err, False)) \<and>
         (if pr_runCommand p then out = Pipe_write 1 \<and> err = Pipe_write 2 else (\<exists>a b. out = Regular a \<and> err = Regular b)))"
proof (cases "pc_fork pc")
  case (Inl e)
  with fds p0 p1 p2 start show ?thesis
    by (auto simp: start_fds_def destroy_new_pipe [OF p0] destroy_new_pipe [OF p1] destroy_new_pipe [OF p2])
next
  case (Inr pid)
  then have "start_fds limit pc cc executed text p t =
      (let (sinks, execError, t4) = parent_fds limit executed p stdOutput stdError (execError, t3)
       in (sinks, destroy_pipe execError (destroy_pipe stdOutput (destroy_pipe stdError t4)),
           child_fds limit pid cc text p stdOutput stdError t3))"
    using fds p0 p1 p2 by (simp add: start_fds_def)
  with start have s: "sinks = fst (parent_fds limit executed p stdOutput stdError (execError, t3))"
    "t' = destroy_pipe (fst (snd (parent_fds limit executed p stdOutput stdError (execError, t3))))
       (destroy_pipe stdOutput (destroy_pipe stdError (snd (snd (parent_fds limit executed p stdOutput stdError (execError, t3))))))"
    "command = child_fds limit pid cc text p stdOutput stdError t3"
    by (simp_all add: case_prod_beta Let_def)
  show ?thesis unfolding s by (rule start_forked [OF p0 p1 p2])
qed

text \<open>C19: Starting a process loses no descriptor: on every path, with the failures of any of the calls, the slave is left
  with the descriptors it had and those of the two sinks if it has made them, which are new, distinct, closed on
  \<^verbatim>\<open>exec\<close> and gone when the sinks are destroyed; and a command that runs has the null device, the pipes (or the files)
  for its output as its standard descriptors and otherwise exactly what the slave's own table lets it inherit.\<close>

theorem start_keeps_descriptors:
  assumes start: "start_fds limit pc cc executed text p t = (sinks, t', command)"
  shows "(case sinks of
       None \<Rightarrow> t' = t
     | Some (a, b) \<Rightarrow> a \<noteq> b \<and> t' a = Some (Pipe_read 1, True) \<and> t' b = Some (Pipe_read 2, True) \<and>
         destroy_sink b (destroy_sink a t') = t) \<and>
    (case command of
       None \<Rightarrow> True
     | Some u \<Rightarrow> \<exists>out err. u = (exec_fds t)(0 \<mapsto> (Regular ''/dev/null'', False), 1 \<mapsto> (out, False), 2 \<mapsto> (err, False)) \<and>
         (if pr_runCommand p then out = Pipe_write 1 \<and> err = Pipe_write 2 else (\<exists>a b. out = Regular a \<and> err = Regular b)))"
proof (cases "pc_availableFds pc < 20")
  case True
  with start show ?thesis by (auto simp: start_fds_def)
next
  case fds: False
  show ?thesis
  proof (cases "new_pipe limit 0 t")
    case None
    with fds start show ?thesis by (auto simp: start_fds_def)
  next
    case (Some q)
    then obtain execError t1 where p0: "new_pipe limit 0 t = Some (execError, t1)" by (cases q) simp
    show ?thesis
    proof (cases "new_pipe limit 1 t1")
      case None
      with fds p0 start show ?thesis by (auto simp: start_fds_def destroy_new_pipe [OF p0])
    next
      case (Some q)
      then obtain stdOutput t2 where p1: "new_pipe limit 1 t1 = Some (stdOutput, t2)" by (cases q) simp
      show ?thesis
      proof (cases "new_pipe limit 2 t2")
        case None
        with fds p0 p1 start show ?thesis
          by (auto simp: start_fds_def destroy_new_pipe [OF p0] destroy_new_pipe [OF p1])
      next
        case (Some q)
        then obtain stdError t3 where p2: "new_pipe limit 2 t2 = Some (stdError, t3)" by (cases q) simp
        show ?thesis by (rule start_with_pipes [OF start fds p0 p1 p2])
      qed
    qed
  qed
qed

text \<open>A slave with its three standard descriptors, whose calls all succeed.\<close>

definition example_fds :: fds where
  "example_fds = [0 \<mapsto> (Inherited 0, False), 1 \<mapsto> (Inherited 1, False), 2 \<mapsto> (Inherited 2, False)]"

definition example_child :: child_calls where
  "example_child = \<lparr>cc_stat = (0, []), cc_open_stdout = None, cc_open_stderr = None, cc_chdir = None, cc_open_devnull = None,
     cc_dup2_stdin = None, cc_dup2_stdout = None, cc_dup2_stderr = None, cc_execvp = None\<rparr>"

definition example_parent :: parent_calls where
  "example_parent = \<lparr>pc_numThreads = 1, pc_availableFds = 1000, pc_pipes = True, pc_now = 0, pc_fork = Inr 42,
     pc_exe_link = None, pc_dup_stdout = None, pc_dup_stderr = None\<rparr>"

definition example_process :: process where
  "example_process = Process_command \<lparr>rq_command = ''date'', rq_cwd = ''/tmp'', rq_args = [], rq_envs = [], rq_envs_only = False,
     rq_max_stdout = 100, rq_max_stderr = 100, rq_timeout = -1, rq_max_memory_mb = 0\<rparr>"

theorem start_keeps_descriptors_witness:
  "\<exists>t' u. start_fds 16 example_parent example_child True [] example_process example_fds = (Some (4, 9), t', Some u) \<and>
     destroy_sink 9 (destroy_sink 4 t') = example_fds \<and> (\<exists>err. u = (exec_fds example_fds)
       (0 \<mapsto> (Regular ''/dev/null'', False), 1 \<mapsto> (Pipe_write 1, False), 2 \<mapsto> (err, False)))"
proof -
  have "fst (start_fds 16 example_parent example_child True [] example_process example_fds) = Some (4, 9)"
    "snd (snd (start_fds 16 example_parent example_child True [] example_process example_fds)) \<noteq> None"
    "pr_runCommand example_process" by code_simp+
  then obtain t' u where
    run: "start_fds 16 example_parent example_child True [] example_process example_fds = (Some (4, 9), t', Some u)"
    and command: "pr_runCommand example_process"
    by (metis option.collapse prod.collapse)
  from start_keeps_descriptors [OF run] command run show ?thesis by auto
qed

text \<open>In a slave without standard input and output the pipe for errors gets descriptor \<open>1\<close> in the child, which
  \<^verbatim>\<open>dup2\<close> then replaces: an error of \<^verbatim>\<open>execvp\<close> goes to the output of the command, and the slave takes the end of the
  file for a success.\<close>

lemma error_pipe_replaced:
  "map_option (\<lambda>(p, t). pp_write p) (new_pipe 16 0 (example_fds(0 := None, 1 := None))) = Some (Some 1)"
  by code_simp

section \<open>The lock of the slave\<close>

text \<open>\<^verbatim>\<open>setupWorkingDir\<close>, with the errors of \<^verbatim>\<open>mkstemp\<close>, \<^verbatim>\<open>open\<close> and \<^verbatim>\<open>flock\<close>: the table afterwards and
  what is written to the file. \<open>None\<close> is the end of the program.\<close>

definition setupWorkingDir ::
  "nat \<Rightarrow> int option \<Rightarrow> int option \<Rightarrow> int option \<Rightarrow> int \<Rightarrow> string \<Rightarrow> fds \<Rightarrow> (fds \<times> string) option" where
  "setupWorkingDir limit mkstemp open' flock pid cwd t =
     do {
       (fd, t) \<leftarrow> (if mkstemp = None then open_fd limit (Regular (take 255 (''/'' @ cwd @ ''/XXXXXX''))) False t else None);
       let t = close_fd fd t;
       (fd, t) \<leftarrow> (if open' = None then open_fd limit (Regular (take 255 (''/'' @ cwd @ ''/pid''))) True t else None);
       if flock = None then Some (t, show_int pid @ [newline]) else None
     }"

text \<open>The slave keeps the locked file open, and no command inherits it: the lock ends with the slave.\<close>

lemma setupWorkingDir_lock:
  assumes "setupWorkingDir limit mkstemp open' flock pid cwd t = Some (t', text)"
  shows "exec_fds t' = exec_fds t" "\<exists>n. t n = None \<and> t' = t(n \<mapsto> (Regular (take 255 (''/'' @ cwd @ ''/pid'')), True))"
proof -
  from assms obtain m n where m: "free_fd limit t = Some m"
    and n: "free_fd limit (close_fd m (t(m \<mapsto> (Regular (take 255 (''/'' @ cwd @ ''/XXXXXX'')), False)))) = Some n"
    and t': "t' = (close_fd m (t(m \<mapsto> (Regular (take 255 (''/'' @ cwd @ ''/XXXXXX'')), False))))(n \<mapsto>
      (Regular (take 255 (''/'' @ cwd @ ''/pid'')), True))"
    by (auto simp: setupWorkingDir_def bind_eq_Some_conv open_fd_Some Let_def split: if_splits)
  have close: "close_fd m (t(m \<mapsto> x)) = t" for x using free_fd_Some [OF m] by (auto simp: close_fd_def fun_eq_iff)
  have free: "t n = None" using free_fd_Some [OF n] unfolding close by simp
  then show "exec_fds t' = exec_fds t" unfolding t' close by (rule exec_fds_cloexec)
  show "\<exists>n. t n = None \<and> t' = t(n \<mapsto> (Regular (take 255 (''/'' @ cwd @ ''/pid'')), True))"
    using free unfolding t' close by blast
qed

end
