(* ===== verification/ZurgClient.thy ===== *)
theory ZurgClient
  imports Heartbeat RpcServer SlaveService
begin

text \<open>
  The start of the zurg slave and its connection to the master: the configuration and the command line
  (examples/zurg/slave/SlaveConfig.h, main.cc), the log levels (common/ProtobufLog.cc), the resolution
  of the master's address and the client (slave/RpcClient.cc), which drives the heartbeat over an RPC
  channel, and the application (slave/SlaveApp.cc). The results of \<^verbatim>\<open>getopt\<close>,
  \<^verbatim>\<open>gethostbyname\<close> and \<^verbatim>\<open>getservbyname\<close> are parameters, the latter two in host
  byte order. \<open>None\<close> is a failing assertion or a fatal log message.
\<close>

section \<open>Configuration\<close>

record slave_config =
  cf_name :: string
  cf_prefix :: string
  cf_masterAddress :: string
  cf_error :: bool
  cf_listenPort :: int
  cf_zombieInterval :: int
  cf_heartbeatInterval :: int

definition new_config :: slave_config where
  "new_config = \<lparr>cf_name = [], cf_prefix = ''/var/tmp'', cf_masterAddress = [], cf_error = False,
     cf_listenPort = -1, cf_zombieInterval = 10, cf_heartbeatInterval = 10\<rparr>"

definition valid :: "slave_config \<Rightarrow> bool" where
  "valid config \<longleftrightarrow> \<not> (cf_error config \<or> cf_name config = [] \<or> cf_masterAddress config = [])"

text \<open>One option as \<^verbatim>\<open>getopt\<close> returns it, with its argument.\<close>

definition parse_option :: "char \<times> string \<Rightarrow> slave_config \<Rightarrow> slave_config" where
  "parse_option opt config =
     (case opt of (c, optarg) \<Rightarrow>
        if c = CHR ''d'' then config\<lparr>cf_listenPort := atoi optarg\<rparr>
        else if c = CHR ''n'' then config\<lparr>cf_name := optarg\<rparr>
        else config\<lparr>cf_error := True\<rparr>)"

text \<open>The options, and the arguments from \<^verbatim>\<open>optind\<close> on.\<close>

definition parseCommandLine :: "(char \<times> string) list \<Rightarrow> string list \<Rightarrow> slave_config" where
  "parseCommandLine opts args =
     (let config = fold parse_option opts new_config
      in case args of [] \<Rightarrow> config | arg # _ \<Rightarrow> config\<lparr>cf_masterAddress := arg\<rparr>)"

section \<open>Log levels\<close>

datatype protobuf_level = LOGLEVEL_INFO | LOGLEVEL_WARNING | LOGLEVEL_ERROR | LOGLEVEL_FATAL

datatype log_level = TRACE | DEBUG | INFO | WARN | ERROR_level | FATAL

definition toMuduoLogLevel :: "protobuf_level \<Rightarrow> log_level" where
  "toMuduoLogLevel level =
     (case level of LOGLEVEL_WARNING \<Rightarrow> WARN | LOGLEVEL_ERROR \<Rightarrow> ERROR_level | LOGLEVEL_FATAL \<Rightarrow> FATAL
      | LOGLEVEL_INFO \<Rightarrow> INFO)"

definition level_rank :: "log_level \<Rightarrow> nat" where
  "level_rank l = (case l of TRACE \<Rightarrow> 0 | DEBUG \<Rightarrow> 1 | INFO \<Rightarrow> 2 | WARN \<Rightarrow> 3 | ERROR_level \<Rightarrow> 4 | FATAL \<Rightarrow> 5)"

definition zurgLogHandler :: "log_level \<Rightarrow> protobuf_level \<Rightarrow> string \<Rightarrow> (log_level \<times> string) option" where
  "zurgLogHandler current level message =
     (let logLevel = toMuduoLogLevel level
      in if level_rank current \<le> level_rank logLevel then Some (logLevel, ''Protobuf - '' @ message) else None)"

section \<open>The address of the master\<close>

definition syncResolve :: "(string \<Rightarrow> int option) \<Rightarrow> (string \<Rightarrow> int option) \<Rightarrow> string \<Rightarrow> int \<times> int" where
  "syncResolve gethostbyname getservbyname hostport =
     (case str_find_char CHR '':'' hostport of
        None \<Rightarrow> (0, 0)
      | Some pos \<Rightarrow>
          (let ip = (case gethostbyname (take pos hostport) of None \<Rightarrow> 0 | Some a \<Rightarrow> a);
               port = drop (pos + 1) hostport;
               (portHostEndian, rest) = strtoll_end port
           in (ip, if rest = [] then portHostEndian mod 65536
                   else (case getservbyname port of None \<Rightarrow> 0 | Some p \<Rightarrow> p mod 65536))))"

section \<open>The client of the master\<close>

text \<open>The messages of the master's service.\<close>

datatype master_message = Slave_heartbeat slave_heartbeat | Empty_message

definition slaveHeartbeat_method :: "master_message method_desc" where
  "slaveHeartbeat_method = \<lparr>md_name = ''slaveHeartbeat'', md_full_name = ''zurg.MasterService.slaveHeartbeat'',
     md_service = ''zurg.MasterService'', md_input = ''zurg.SlaveHeartbeat'', md_output = ''rpc2.Empty'',
     md_request = Empty_message, md_response = Empty_message\<rparr>"

record ('f, 'conn) rpc_client =
  cl_server :: "int \<times> int"
  cl_channel :: "(master_message, unit, 'conn) channel"
  cl_heartbeat :: "'f heartbeat"

definition RpcClient :: "(string \<Rightarrow> int option) \<Rightarrow> (string \<Rightarrow> int option) \<Rightarrow> slave_config \<Rightarrow>
    ('f, 'conn) rpc_client option" where
  "RpcClient gethostbyname getservbyname config =
     (let addr = syncResolve gethostbyname getservbyname (cf_masterAddress config)
      in if 0 < fst addr \<and> 0 < snd addr
         then Some \<lparr>cl_server = addr, cl_channel = RpcChannel_new,
           cl_heartbeat = new_heartbeat (cf_name config) (cf_listenPort config)\<rparr>
         else None)"

text \<open>What is sent: the connection of the channel, the heartbeat, and the messages.\<close>

type_synonym 'conn sent = "'conn option \<times> slave_heartbeat \<times> rpc_message list"

definition messages_of :: "(master_message, unit) effect list \<Rightarrow> rpc_message list" where
  "messages_of es = concat (map (\<lambda>e. case e of Send m \<Rightarrow> [m] | _ \<Rightarrow> []) es)"

text \<open>\<^verbatim>\<open>stub_->slaveHeartbeat(hb, ignoreCallback)\<close>.\<close>

definition slaveHeartbeat :: "(master_message \<Rightarrow> string) \<Rightarrow> slave_heartbeat \<Rightarrow>
    (master_message, unit, 'conn) channel \<Rightarrow> 'conn sent \<times> (master_message, unit, 'conn) channel" where
  "slaveHeartbeat serialize hb ch =
     (let (ch', es) = CallMethod serialize \<lparr>rc_method = slaveHeartbeat_method, rc_request = Slave_heartbeat hb,
            rc_response = Some Empty_message, rc_done = Some ()\<rparr> ch
      in ((ch_conn ch, hb, messages_of es), ch'))"

definition send_beats :: "(master_message \<Rightarrow> string) \<Rightarrow> slave_heartbeat list \<times> 'f heartbeat \<Rightarrow>
    ('f, 'conn) rpc_client \<Rightarrow> 'conn sent list \<times> ('f, 'conn) rpc_client" where
  "send_beats serialize beats c =
     (let (sent, ch) = fold (\<lambda>hb (sent, ch). let (m, ch) = slaveHeartbeat serialize hb ch in (sent @ [m], ch))
            (fst beats) ([], cl_channel c)
      in (sent, c\<lparr>cl_channel := ch, cl_heartbeat := snd beats\<rparr>))"

definition client_onConnection :: "(master_message \<Rightarrow> string) \<Rightarrow> 'f host \<Rightarrow> 'conn \<Rightarrow> bool \<Rightarrow>
    ('f, 'conn) rpc_client \<Rightarrow> ('conn sent list \<times> ('f, 'conn) rpc_client) option" where
  "client_onConnection serialize h conn connected c =
     (if connected then
        (let c = c\<lparr>cl_channel := setConnection (Some conn) (cl_channel c)\<rparr>
         in map_option (\<lambda>beats. send_beats serialize beats c) (Heartbeat.start h (cl_heartbeat c)))
      else Some ([], c\<lparr>cl_heartbeat := stop (cl_heartbeat c), cl_channel := onDisconnect (cl_channel c)\<rparr>))"

definition client_onTimer :: "(master_message \<Rightarrow> string) \<Rightarrow> 'f host \<Rightarrow>
    ('f, 'conn) rpc_client \<Rightarrow> ('conn sent list \<times> ('f, 'conn) rpc_client) option" where
  "client_onTimer serialize h c =
     map_option (\<lambda>beats. send_beats serialize beats c) (onTimer h (cl_heartbeat c))"

text \<open>The events at the client: connections that come up and go down, the timer of the heartbeat, and
  messages of the master.\<close>

datatype ('f, 'conn) client_event =
  Up "'f host" 'conn | Down "'f host" 'conn | Tick "'f host" | Master_message 'conn rpc_message

definition client_event :: "(master_message \<Rightarrow> string) \<Rightarrow> (master_message \<Rightarrow> string \<Rightarrow> master_message) \<Rightarrow>
    ('f, 'conn) client_event \<Rightarrow> ('f, 'conn) rpc_client \<Rightarrow> ('conn sent list \<times> ('f, 'conn) rpc_client) option" where
  "client_event serialize parse e c =
     (case e of
        Up h conn \<Rightarrow> client_onConnection serialize h conn True c
      | Down h conn \<Rightarrow> client_onConnection serialize h conn False c
      | Tick h \<Rightarrow> client_onTimer serialize h c
      | Master_message conn m \<Rightarrow>
          (case onRpcMessage parse (Some conn) m (cl_channel c) of
             Inl failure \<Rightarrow> None
           | Inr (ch, es) \<Rightarrow> Some ([], c\<lparr>cl_channel := ch\<rparr>)))"

fun client_events :: "(master_message \<Rightarrow> string) \<Rightarrow> (master_message \<Rightarrow> string \<Rightarrow> master_message) \<Rightarrow>
    ('f, 'conn) client_event list \<Rightarrow> ('f, 'conn) rpc_client \<Rightarrow> ('conn sent list \<times> ('f, 'conn) rpc_client) option" where
  "client_events serialize parse [] c = Some ([], c)"
| "client_events serialize parse (e # es) c =
     (case client_event serialize parse e c of
        None \<Rightarrow> None
      | Some (sent, c) \<Rightarrow> map_option (\<lambda>(rest, c). (sent @ rest, c)) (client_events serialize parse es c))"

section \<open>The application\<close>

record ('f, 'conn, 'c) slave_app =
  sa_config :: slave_config
  sa_rpcClient :: "('f, 'conn) rpc_client"
  sa_service :: "'c slave"
  sa_cwd :: string
  sa_server :: "((unit, unit, 'conn) server \<times> int) option"

text \<open>\<^verbatim>\<open>SlaveApp\<close>, with whether there was an instance before; the port it listens on is that of
  the server's address.\<close>

definition SlaveApp :: "(string \<Rightarrow> int option) \<Rightarrow> (string \<Rightarrow> int option) \<Rightarrow> unit service \<Rightarrow> unit service \<Rightarrow> bool \<Rightarrow>
    slave_config \<Rightarrow> ('f, 'conn, 'c) slave_app option" where
  "SlaveApp gethostbyname getservbyname metaService slaveService instance_set config =
     (case RpcClient gethostbyname getservbyname config of
        None \<Rightarrow> None
      | Some client \<Rightarrow>
          if \<not> valid config \<or> instance_set then None
          else Some \<lparr>sa_config = config, sa_rpcClient = client, sa_service = new_slave,
            sa_cwd = cf_prefix config @ ''/'' @ cf_name config,
            sa_server = (if 0 < cf_listenPort config
              then Some (registerService slaveService (RpcServer_new metaService), cf_listenPort config mod 65536)
              else None)\<rparr>)"

text \<open>\<^verbatim>\<open>main\<close>, up to the event loop: the exit status, or the running application.\<close>

definition slave_main :: "(string \<Rightarrow> int option) \<Rightarrow> (string \<Rightarrow> int option) \<Rightarrow> unit service \<Rightarrow> unit service \<Rightarrow>
    int \<Rightarrow> int \<Rightarrow> (char \<times> string) list \<Rightarrow> string list \<Rightarrow> (int + ('f, 'conn, 'c) slave_app) option" where
  "slave_main gethostbyname getservbyname metaService slaveService uid euid opts args =
     (if uid = 0 \<or> euid = 0 then Some (Inl 1)
      else
        (let config = parseCommandLine opts args
         in if valid config
            then map_option (\<lambda>app. Inr (app\<lparr>sa_server := map_option (\<lambda>(srv, p). (RpcServer.start srv, p)) (sa_server app)\<rparr>))
              (SlaveApp gethostbyname getservbyname metaService slaveService False config)
            else Some (Inl 1)))"

section \<open>Heartbeats follow the connection\<close>

lemma static_part_fields:
  "static_part h port hb files = (hb', files') \<Longrightarrow> hb_host_name hb' \<noteq> None \<and> hb_slave_name hb' = hb_slave_name hb"
  by (auto simp: static_part_def Let_def split: prod.splits if_splits)

lemma beat_fields:
  assumes "beat h showStatic b = Some (hb, b')"
  shows "hb_slave_name hb = hb_name b" "hb_host_name hb \<noteq> None \<longleftrightarrow> showStatic" "hb_name b' = hb_name b"
    "hb_beating b' = hb_beating b"
  using assms by (auto simp: beat_def Let_def split: prod.splits if_splits option.splits dest!: static_part_fields)

lemma setConnection_sel [simp]: "ch_conn (setConnection x ch) = x" "ch_id (setConnection x ch) = ch_id ch"
  by (simp_all add: setConnection_def)

lemma slaveHeartbeat_sent:
  assumes "slaveHeartbeat serialize hb ch = (m, ch')"
  shows "fst m = ch_conn ch" "fst (snd m) = hb" "map rm_id (snd (snd m)) = [ch_id ch + 1]"
    "ch_conn ch' = ch_conn ch" "ch_id ch' = ch_id ch + 1"
  using assms by (auto simp: slaveHeartbeat_def CallMethod_eq messages_of_def call_store_def request_message_def)

text \<open>What a run sends: for each event, the connection and whether the heartbeat is a full one.\<close>

fun expected :: "'conn option \<Rightarrow> ('f, 'conn) client_event list \<Rightarrow> ('conn option \<times> bool) list" where
  "expected up [] = []"
| "expected up (Up h conn # es) = (Some conn, True) # expected (Some conn) es"
| "expected up (Down h conn # es) = expected None es"
| "expected up (Tick h # es) = (case up of None \<Rightarrow> [] | Some conn \<Rightarrow> [(Some conn, False)]) @ expected up es"
| "expected up (Master_message conn m # es) = expected up es"

text \<open>\<open>up\<close> is the connection that is up.\<close>

definition client_ok :: "string \<Rightarrow> 'conn option \<Rightarrow> ('f, 'conn) rpc_client \<Rightarrow> bool" where
  "client_ok name up c \<longleftrightarrow> hb_name (cl_heartbeat c) = name \<and> (hb_beating (cl_heartbeat c) \<longleftrightarrow> up \<noteq> None) \<and>
     (up \<noteq> None \<longrightarrow> ch_conn (cl_channel c) = up)"

text \<open>The messages sent so far are numbered from the identifier \<open>i\<close> on.\<close>

fun numbered :: "int64 \<Rightarrow> 'conn sent list \<Rightarrow> bool" where
  "numbered i [] \<longleftrightarrow> True"
| "numbered i (m # ms) \<longleftrightarrow> map rm_id (snd (snd m)) = [i + 1] \<and> numbered (i + 1) ms"

lemma numbered_append: "numbered i (ms @ ns) \<longleftrightarrow> numbered i ms \<and> numbered (i + of_nat (length ms)) ns"
  by (induction ms arbitrary: i) (simp_all add: ac_simps)

definition sent_kinds :: "'conn sent list \<Rightarrow> ('conn option \<times> bool) list" where
  "sent_kinds sent = map (\<lambda>(conn, hb, ms). (conn, hb_host_name hb \<noteq> None)) sent"

definition named :: "string \<Rightarrow> 'conn sent list \<Rightarrow> bool" where
  "named name sent \<longleftrightarrow> list_all (\<lambda>(conn, hb, ms). hb_slave_name hb = name) sent"

lemma send_one:
  assumes "send_beats serialize ([hb], b) c = (sent, c')"
  shows "sent_kinds sent = [(ch_conn (cl_channel c), hb_host_name hb \<noteq> None)]" "named (hb_slave_name hb) sent"
    "numbered (ch_id (cl_channel c)) sent" "length sent = 1" "cl_heartbeat c' = b"
    "ch_conn (cl_channel c') = ch_conn (cl_channel c)" "ch_id (cl_channel c') = ch_id (cl_channel c) + 1"
proof -
  obtain m ch where m: "slaveHeartbeat serialize hb (cl_channel c) = (m, ch)" by (cases "slaveHeartbeat serialize hb (cl_channel c)")
  then have "sent = [m]" "c' = c\<lparr>cl_channel := ch, cl_heartbeat := b\<rparr>" using assms by (simp_all add: send_beats_def)
  with slaveHeartbeat_sent [OF m]
  show "sent_kinds sent = [(ch_conn (cl_channel c), hb_host_name hb \<noteq> None)]" "named (hb_slave_name hb) sent"
    "numbered (ch_id (cl_channel c)) sent" "length sent = 1" "cl_heartbeat c' = b"
    "ch_conn (cl_channel c') = ch_conn (cl_channel c)" "ch_id (cl_channel c') = ch_id (cl_channel c) + 1"
    by (auto simp: sent_kinds_def named_def split: prod.splits)
qed

text \<open>One event from the state \<open>c\<close> sends \<open>sent\<close>.\<close>

definition sends :: "string \<Rightarrow> ('conn option \<times> bool) list \<Rightarrow> 'conn option \<Rightarrow> ('f, 'conn) rpc_client \<Rightarrow>
    'conn sent list \<Rightarrow> ('f, 'conn) rpc_client \<Rightarrow> bool" where
  "sends name kinds up c sent c' \<longleftrightarrow> sent_kinds sent = kinds \<and> named name sent \<and>
     numbered (ch_id (cl_channel c)) sent \<and> client_ok name up c' \<and>
     ch_id (cl_channel c') = ch_id (cl_channel c) + of_nat (length sent)"

lemma sends_nothing: "client_ok name up c' \<Longrightarrow> ch_id (cl_channel c') = ch_id (cl_channel c) \<Longrightarrow> sends name [] up c [] c'"
  by (simp add: sends_def sent_kinds_def named_def)

lemma event_up:
  assumes "client_ok name up c" "client_event serialize parse (Up h conn) c = Some (sent, c')"
  shows "sends name [(Some conn, True)] (Some conn) c sent c'"
proof -
  let ?c = "c\<lparr>cl_channel := setConnection (Some conn) (cl_channel c)\<rparr>"
  obtain hb b where b: "beat h True ((cl_heartbeat c)\<lparr>hb_beating := True\<rparr>) = Some (hb, b)"
    "send_beats serialize ([hb], b) ?c = (sent, c')"
    using assms(2) by (auto simp: client_event_def client_onConnection_def Heartbeat.start_def)
  from beat_fields [OF b(1)] send_one [OF b(2)] assms(1) show ?thesis
    by (simp add: sends_def client_ok_def)
qed

lemma event_tick:
  assumes "client_ok name up c" "client_event serialize parse (Tick h) c = Some (sent, c')"
  shows "sends name (case up of None \<Rightarrow> [] | Some conn \<Rightarrow> [(Some conn, False)]) up c sent c'"
proof (cases up)
  case None
  with assms have "sent = [] \<and> c' = c\<lparr>cl_heartbeat := cl_heartbeat c\<rparr>"
    by (auto simp: client_ok_def client_event_def client_onTimer_def onTimer_def send_beats_def)
  with assms(1) None show ?thesis by (simp add: sends_nothing)
next
  case (Some conn)
  with assms obtain hb b where b: "beat h False (cl_heartbeat c) = Some (hb, b)"
    "send_beats serialize ([hb], b) c = (sent, c')"
    by (auto simp: client_ok_def client_event_def client_onTimer_def onTimer_def)
  from beat_fields [OF b(1)] send_one [OF b(2)] assms(1) Some show ?thesis
    by (simp add: sends_def client_ok_def)
qed

lemma onRpcMessage_keeps:
  "onRpcMessage parse conn m ch = Inr (ch', es) \<Longrightarrow> ch_conn ch' = ch_conn ch \<and> ch_id ch' = ch_id ch"
  by (auto simp: onRpcMessage_def Let_def split: if_splits message_type.splits option.splits)

lemma client_events_expected:
  "client_events serialize parse es c = Some (sent, c') \<Longrightarrow> client_ok name up c \<Longrightarrow>
     sent_kinds sent = expected up es \<and> named name sent \<and> numbered (ch_id (cl_channel c)) sent"
proof (induction es arbitrary: c up sent)
  case Nil
  then show ?case by (simp add: sent_kinds_def named_def)
next
  case (Cons e es)
  obtain s1 c1 s2 where run: "client_event serialize parse e c = Some (s1, c1)"
    "client_events serialize parse es c1 = Some (s2, c')" "sent = s1 @ s2"
    using Cons.prems(1) by (auto split: option.splits)
  have step: "sent_kinds sent = kinds @ expected up' es \<and> named name sent \<and> numbered (ch_id (cl_channel c)) sent"
    if "sends name kinds up' c s1 c1" for kinds up'
    using Cons.IH [OF run(2), of up'] that run(3)
    by (auto simp: sends_def sent_kinds_def named_def numbered_append)
  show ?case
  proof (cases e)
    case (Up h conn)
    with step event_up [OF Cons.prems(2)] run(1) show ?thesis by fastforce
  next
    case (Down h conn)
    then have "s1 = []" "c1 = c\<lparr>cl_heartbeat := stop (cl_heartbeat c), cl_channel := onDisconnect (cl_channel c)\<rparr>"
      using run(1) by (auto simp: client_event_def client_onConnection_def)
    then have "sends name [] None c s1 c1"
      using Cons.prems(2) by (auto intro!: sends_nothing simp: client_ok_def stop_def onDisconnect_def)
    from step [OF this] Down show ?thesis by simp
  next
    case (Tick h)
    with step [OF event_tick [OF Cons.prems(2)]] run(1) show ?thesis by simp
  next
    case (Master_message conn m)
    then have "s1 = []" "cl_heartbeat c1 = cl_heartbeat c" "ch_conn (cl_channel c1) = ch_conn (cl_channel c)"
      "ch_id (cl_channel c1) = ch_id (cl_channel c)"
      using run(1) by (auto simp: client_event_def split: sum.splits dest!: onRpcMessage_keeps)
    then have "sends name [] up c s1 c1" using Cons.prems(2) by (auto intro!: sends_nothing simp: client_ok_def)
    from step [OF this] Master_message show ?thesis by simp
  qed
qed

text \<open>C36: The master hears of a slave only while their connection is up, and from the start: on each
  connection the first heartbeat, sent as it comes up, is the full one, the later ones, one for each
  tick of the timer, are not, between two connections nothing is sent, every heartbeat carries the
  configured name, and the messages are numbered one after the other.\<close>

theorem heartbeats_follow_connection:
  assumes "RpcClient gethostbyname getservbyname config = Some c"
    "client_events serialize parse es c = Some (sent, c')"
  shows "map (\<lambda>(conn, hb, ms). (conn, hb_host_name hb \<noteq> None)) sent = expected None es \<and>
    list_all (\<lambda>(conn, hb, ms). hb_slave_name hb = cf_name config) sent \<and> numbered 0 sent"
proof -
  have "client_ok (cf_name config) None c" "ch_id (cl_channel c) = 0"
    using assms(1) by (auto simp: RpcClient_def Let_def client_ok_def new_heartbeat_def RpcChannel_new_def split: if_splits)
  with client_events_expected [OF assms(2)] show ?thesis by (auto simp: sent_kinds_def named_def)
qed

definition quiet_host :: "string host" where
  "quiet_host = \<lparr>new_small_file = (\<lambda>name. name), read_small_file = (\<lambda>f. (2, [])), host_uname = None, host_now = 5,
     host_hostname = ''box'', host_pid = 1, host_start_time = 2, host_slave_version = ''1''\<rparr>"

definition example_config :: slave_config where
  "example_config = parseCommandLine [(CHR ''n'', ''s1'')] [''master:2000'']"

definition example_events :: "(string, nat) client_event list" where
  "example_events = [Tick quiet_host, Up quiet_host 1, Tick quiet_host, Down quiet_host 1, Tick quiet_host, Up quiet_host 2]"

definition example_run :: "(nat sent list \<times> (string, nat) rpc_client) option" where
  "example_run = client_events (\<lambda>m. []) (\<lambda>m b. m) example_events
     (the (RpcClient (\<lambda>host. Some 7) (\<lambda>name. None) example_config))"

lemma strip_empty: "strip_diskstats [] \<noteq> None" "strip_stat [] \<noteq> None"
  by code_simp+

lemma beat_quiet: "\<exists>hb b'. beat quiet_host showStatic b = Some (hb, b')"
proof -
  have fill: "fst (fill_hb quiet_host f files) = None" for f files
    by (simp add: fill_hb_def readTo_def quiet_host_def split: option.splits)
  obtain d st where e: "strip_diskstats [] = Some d" "strip_stat [] = Some st" using strip_empty by auto
  show ?thesis
    unfolding beat_def Let_def by (auto simp: fill mutable_def e split_beta)
qed

lemma quiet_events:
  "\<forall>e\<in>set es. (case e of Up h conn \<Rightarrow> h = quiet_host | Tick h \<Rightarrow> h = quiet_host | Down h conn \<Rightarrow> True | _ \<Rightarrow> False) \<Longrightarrow>
     \<exists>sent c'. client_events serialize parse es (c :: (string, nat) rpc_client) = Some (sent, c')"
proof (induction es arbitrary: c)
  case (Cons e es)
  have pair: "\<exists>sent c'. Some x = Some (sent, c')" for x :: "nat sent list \<times> (string, nat) rpc_client"
    by (cases x) simp
  have total: "\<exists>sent c'. client_event serialize parse e c = Some (sent, c')"
  proof (cases e)
    case (Up h conn)
    obtain hb b where "beat quiet_host True ((cl_heartbeat c)\<lparr>hb_beating := True\<rparr>) = Some (hb, b)"
      using beat_quiet by blast
    with Up Cons.prems pair show ?thesis
      by (simp add: client_event_def client_onConnection_def Heartbeat.start_def)
  next
    case (Tick h)
    obtain hb b where "beat quiet_host False (cl_heartbeat c) = Some (hb, b)" using beat_quiet by blast
    with Tick Cons.prems pair show ?thesis
      by (simp add: client_event_def client_onTimer_def onTimer_def)
  qed (use Cons.prems in \<open>auto simp: client_event_def client_onConnection_def\<close>)
  then obtain s1 c1 where s1: "client_event serialize parse e c = Some (s1, c1)" by blast
  moreover obtain s2 c2 where "client_events serialize parse es c1 = Some (s2, c2)" using Cons by fastforce
  ultimately show ?case by simp
qed simp

theorem heartbeats_follow_connection_witness:
  "\<exists>sent c. example_run = Some (sent, c) \<and> numbered 0 sent \<and>
     map (\<lambda>(conn, hb, ms). (conn, hb_host_name hb \<noteq> None)) sent = [(Some 1, True), (Some 1, False), (Some 2, True)]"
proof -
  have "RpcClient (\<lambda>host. Some 7) (\<lambda>name. None) example_config \<noteq> (None :: (string, nat) rpc_client option)" by code_simp
  then obtain c where c: "RpcClient (\<lambda>host. Some 7) (\<lambda>name. None) example_config = Some (c :: (string, nat) rpc_client)"
    by auto
  have "\<exists>sent c'. client_events (\<lambda>m. []) (\<lambda>m b. m) example_events c = Some (sent, c')"
    by (rule quiet_events) (simp add: example_events_def)
  then obtain sent c' where events: "client_events (\<lambda>m. []) (\<lambda>m b. m) example_events c = Some (sent, c')" by blast
  then have run: "example_run = Some (sent, c')" by (simp add: example_run_def c)
  from heartbeats_follow_connection [OF c events] run show ?thesis
    by (intro exI [of _ sent] exI [of _ c']) (simp add: example_events_def)
qed

end
