(* ===== verification/RpcBench.thy ===== *)
theory RpcBench
  imports Prelude "HOL-Library.Multiset"
begin

text \<open>
  The benchmarks of examples/rpcbench2: the client that measures a fixed number of calls (client.cc),
  the one that measures the rate of calls (bench.cc), and their echo server (server.cc). A call of the
  stub is counted as a request sent; answers come as steps of the system. \<open>None\<close> is a failing
  assertion.
\<close>

section \<open>The server\<close>

definition g_payload :: string where
  "g_payload = ''0123456789ABCDEF''"

definition Echo :: "string \<Rightarrow> string" where
  "Echo payload = payload"

section \<open>A fixed number of calls\<close>

definition kRequests :: int where
  "kRequests = 50000"

text \<open>A client, with whether its channel has its connection, and how many requests it has sent.\<close>

record bench_client =
  bc_connected :: bool
  bc_count :: int
  bc_finished :: bool
  bc_sent :: int

definition new_bench_client :: bench_client where
  "new_bench_client = \<lparr>bc_connected = False, bc_count = 0, bc_finished = False, bc_sent = 0\<rparr>"

text \<open>\<^verbatim>\<open>onConnection\<close>: the client, and by how much the latch \<^verbatim>\<open>allConnected\<close> goes down.\<close>

definition bench_onConnection :: "bool \<Rightarrow> bench_client \<Rightarrow> bench_client \<times> int" where
  "bench_onConnection connected c = (if connected then (c\<lparr>bc_connected := True\<rparr>, 1) else (c, 0))"

text \<open>Without a connection the channel sends to a null pointer.\<close>

definition sendRequest :: "bench_client \<Rightarrow> bench_client option" where
  "sendRequest c = (if bc_connected c then Some (c\<lparr>bc_sent := bc_sent c + 1\<rparr>) else None)"

text \<open>\<^verbatim>\<open>replied\<close>: the client, and by how much the latch \<^verbatim>\<open>allFinished\<close> goes down.\<close>

definition replied :: "string \<Rightarrow> bench_client \<Rightarrow> (bench_client \<times> int) option" where
  "replied payload c =
     (if payload \<noteq> g_payload then None
      else
        (let c = c\<lparr>bc_count := bc_count c + 1\<rparr>
         in if bc_count c < kRequests then map_option (\<lambda>c. (c, 0)) (sendRequest c)
            else Some (if \<not> bc_finished c then (c\<lparr>bc_finished := True\<rparr>, 1) else (c, 0))))"

text \<open>The program: the clients, the two latches, and the requests that \<^verbatim>\<open>main\<close> still has to send, by the numbers
  of their clients: it fills the pipeline of one client after the other, once all are connected, while the
  answers of the first ones already come back.\<close>

record bench =
  bn_clients :: "bench_client list"
  bn_allConnected :: int
  bn_allFinished :: int
  bn_todo :: "nat list"

definition bench_main :: "nat \<Rightarrow> nat \<Rightarrow> bench" where
  "bench_main nClients nPipeline =
     \<lparr>bn_clients = map (\<lambda>i. new_bench_client) [0..<nClients], bn_allConnected = int nClients, bn_allFinished = int nClients,
      bn_todo = concat (map (\<lambda>i. replicate nPipeline i) [0..<nClients])\<rparr>"

text \<open>A step is a connection that comes up, a request of \<^verbatim>\<open>main\<close>, or the answer of the server to a request
  that some client has sent. Connections stay up.\<close>

inductive bench_step :: "bench \<Rightarrow> bench \<Rightarrow> bool" where
  bench_connect: "i < length (bn_clients s) \<Longrightarrow> \<not> bc_connected (bn_clients s ! i) \<Longrightarrow>
    bench_onConnection True (bn_clients s ! i) = (c', d) \<Longrightarrow>
    bench_step s (s\<lparr>bn_clients := (bn_clients s)[i := c'], bn_allConnected := bn_allConnected s - d\<rparr>)"
| bench_send: "bn_allConnected s \<le> 0 \<Longrightarrow> bn_todo s = i # rest \<Longrightarrow> sendRequest (bn_clients s ! i) = Some c' \<Longrightarrow>
    bench_step s (s\<lparr>bn_clients := (bn_clients s)[i := c'], bn_todo := rest\<rparr>)"
| bench_answer: "i < length (bn_clients s) \<Longrightarrow> bc_count (bn_clients s ! i) < bc_sent (bn_clients s ! i) \<Longrightarrow>
    replied (Echo g_payload) (bn_clients s ! i) = Some (c', d) \<Longrightarrow>
    bench_step s (s\<lparr>bn_clients := (bn_clients s)[i := c'], bn_allFinished := bn_allFinished s - d\<rparr>)"

inductive bench_reachable :: "nat \<Rightarrow> nat \<Rightarrow> bench \<Rightarrow> bool" for n p where
  bench_begin: "bench_reachable n p (bench_main n p)"
| bench_next: "bench_reachable n p s \<Longrightarrow> bench_step s s' \<Longrightarrow> bench_reachable n p s'"

text \<open>A client whose pipeline has \<open>q\<close> requests so far.\<close>

definition client_ok :: "nat \<Rightarrow> bench_client \<Rightarrow> bool" where
  "client_ok q c \<longleftrightarrow> 0 \<le> bc_count c \<and> bc_sent c = int q + min (bc_count c) (kRequests - 1) \<and> bc_count c \<le> bc_sent c \<and>
     (bc_finished c \<longleftrightarrow> kRequests \<le> bc_count c) \<and> (0 < bc_sent c \<longrightarrow> bc_connected c) \<and>
     (q = 0 \<longrightarrow> bc_sent c = 0)"

definition bench_ok :: "nat \<Rightarrow> nat \<Rightarrow> bench \<Rightarrow> bool" where
  "bench_ok n p s \<longleftrightarrow> length (bn_clients s) = n \<and> set (bn_todo s) \<subseteq> {..<n} \<and>
     (\<forall>i<n. count_list (bn_todo s) i \<le> p \<and> client_ok (p - count_list (bn_todo s) i) (bn_clients s ! i)) \<and>
     (0 < bn_allConnected s \<longrightarrow> (\<forall>i<n. count_list (bn_todo s) i = p)) \<and>
     bn_allConnected s = int (length (filter (\<lambda>c. \<not> bc_connected c) (bn_clients s))) \<and>
     bn_allFinished s = int (length (filter (\<lambda>c. \<not> bc_finished c) (bn_clients s)))"

lemma todo_main:
  "count_list (concat (map (\<lambda>i. replicate p i) [0..<n])) j = (if j < n then p else 0)"
proof -
  have "count_list (replicate p i) j = (if i = j then p else 0)" for i by (induction p) auto
  then show ?thesis by (induction n) auto
qed

lemma bench_ok_main: "bench_ok n p (bench_main n p)"
proof -
  have "client_ok 0 new_bench_client" by (simp add: client_ok_def new_bench_client_def kRequests_def)
  moreover have "\<not> bc_connected new_bench_client" "\<not> bc_finished new_bench_client" by (simp_all add: new_bench_client_def)
  ultimately show ?thesis by (auto simp: bench_ok_def bench_main_def todo_main comp_def split: if_splits)
qed

lemma sendRequest_ok:
  assumes "client_ok q c" "sendRequest c = Some c'"
  shows "client_ok (Suc q) c'" "bc_count c' = bc_count c" "bc_connected c' = bc_connected c" "bc_finished c' = bc_finished c"
  using assms by (auto simp: sendRequest_def client_ok_def split: if_splits)

lemma replied_total: "client_ok q c \<Longrightarrow> bc_count c < bc_sent c \<Longrightarrow> \<exists>c' d. replied (Echo g_payload) c = Some (c', d)"
  by (auto simp: replied_def Echo_def Let_def sendRequest_def client_ok_def)

lemma replied_ok:
  assumes "client_ok q c" "bc_count c < bc_sent c" "replied (Echo g_payload) c = Some (c', d)"
  shows "client_ok q c'" "bc_count c' = bc_count c + 1" "bc_connected c' = bc_connected c" "bc_finished c \<longrightarrow> bc_finished c'"
    "d = (if bc_finished c then 0 else 1) - (if bc_finished c' then 0 else 1)"
  using assms by (auto simp: replied_def Echo_def Let_def client_ok_def sendRequest_def kRequests_def min_def split: if_splits)

text \<open>The steps still to come.\<close>

definition remaining :: "nat \<Rightarrow> bench \<Rightarrow> int" where
  "remaining p s = bn_allConnected s + int (length (bn_todo s)) + (\<Sum>c\<leftarrow>bn_clients s. int p + kRequests - 1 - bc_count c)"

lemma bench_ok_step:
  assumes "bench_step s s'" "bench_ok n p s"
  shows "bench_ok n p s' \<and> remaining p s' = remaining p s - 1"
  using assms
proof cases
  case (bench_connect i c' d)
  let ?c = "bn_clients s ! i"
  have c': "c' = ?c\<lparr>bc_connected := True\<rparr>" "d = 1" using bench_connect(4) by (simp_all add: bench_onConnection_def)
  have "client_ok q c'" if "client_ok q ?c" for q using that unfolding client_ok_def c' by force
  moreover have "\<forall>j<n. count_list (bn_todo s) j = p" if "1 < bn_allConnected s" using assms(2) that by (simp add: bench_ok_def)
  ultimately show ?thesis using assms(2) bench_connect(1-3) c'
    by (auto simp: bench_ok_def filter_update remaining_def sum_update nth_list_update)
next
  case (bench_send i rest c')
  have i: "i < n" "length (bn_clients s) = n" using assms(2) bench_send(3) by (auto simp: bench_ok_def)
  let ?q = "p - count_list (bn_todo s) i"
  have todo: "count_list (bn_todo s) j = (if i = j then 1 else 0) + count_list rest j" for j using bench_send(3) by simp
  have "client_ok ?q (bn_clients s ! i)" "count_list (bn_todo s) i \<le> p" using assms(2) i by (simp_all add: bench_ok_def)
  note c' = sendRequest_ok [OF this(1) bench_send(4)]
  have "Suc ?q = p - count_list rest i" using \<open>count_list (bn_todo s) i \<le> p\<close> todo [of i] by simp
  with c'(1) have new: "client_ok (p - count_list rest i) c'" by simp
  have "\<forall>j<n. count_list rest j \<le> p \<and> client_ok (p - count_list rest j) ((bn_clients s)[i := c'] ! j)"
    using assms(2) new i todo by (auto simp: bench_ok_def nth_list_update split: if_splits)
  moreover have "filter (\<lambda>c. \<not> bc_connected c) (bn_clients s) = []" using assms(2) bench_send(2) by (auto simp: bench_ok_def)
  ultimately show ?thesis using assms(2) bench_send(1,3) i c'(2-4)
    by (auto simp: bench_ok_def filter_update remaining_def sum_update)
next
  case (bench_answer i c' d)
  have i: "i < n" "length (bn_clients s) = n" using assms(2) bench_answer(2) by (auto simp: bench_ok_def)
  then have "client_ok (p - count_list (bn_todo s) i) (bn_clients s ! i)" using assms(2) by (simp add: bench_ok_def)
  note r = replied_ok [OF this bench_answer(3,4)]
  have "\<forall>j<n. client_ok (p - count_list (bn_todo s) j) ((bn_clients s)[i := c'] ! j)"
    using assms(2) r(1) i by (simp add: bench_ok_def nth_list_update)
  then show ?thesis
    using assms(2) bench_answer(1) i r(2-5) by (simp add: bench_ok_def filter_update remaining_def sum_update)
qed

lemma bench_reachable_ok: "bench_reachable n p s \<Longrightarrow> bench_ok n p s"
  by (induction rule: bench_reachable.induct) (auto simp: bench_ok_main bench_ok_step)

lemma bench_steps_bounded:
  "(bench_step ^^ k) s s' \<Longrightarrow> bench_ok n p s \<Longrightarrow> bench_ok n p s' \<and> remaining p s' = remaining p s - int k"
proof (induction k arbitrary: s')
  case (Suc k)
  then obtain t where "(bench_step ^^ k) s t" "bench_step t s'" by auto
  with Suc bench_ok_step show ?case by fastforce
qed simp

lemma client_remaining: "client_ok q c \<Longrightarrow> q \<le> p \<Longrightarrow> 0 < p \<Longrightarrow> bc_count c \<le> int p + kRequests - 1"
  by (auto simp: client_ok_def kRequests_def min_def split: if_splits)

lemma remaining_nonneg:
  assumes "bench_ok n p s" "0 < p"
  shows "0 \<le> remaining p s"
proof -
  have "0 \<le> (\<Sum>c\<leftarrow>bn_clients s. int p + kRequests - 1 - bc_count c)"
  proof (intro sum_list_nonneg)
    fix x assume "x \<in> set (map (\<lambda>c. int p + kRequests - 1 - bc_count c) (bn_clients s))"
    then obtain i where "i < n" "x = int p + kRequests - 1 - bc_count (bn_clients s ! i)"
      using assms(1) by (auto simp: bench_ok_def in_set_conv_nth)
    then show "0 \<le> x" using assms client_remaining [of _ "bn_clients s ! i" p] by (auto simp: bench_ok_def)
  qed
  then show ?thesis using assms(1) by (simp add: remaining_def bench_ok_def)
qed

lemma client_done:
  assumes "client_ok p c" "0 < p" "bc_count c = bc_sent c"
  shows "bc_sent c = int p + kRequests - 1" "bc_finished c"
proof -
  have "bc_sent c = int p + min (bc_sent c) (kRequests - 1)" using assms(1,3) by (simp add: client_ok_def)
  then show "bc_sent c = int p + kRequests - 1" using assms(2) by (cases "bc_sent c \<le> kRequests - 1") simp_all
  then have "kRequests \<le> bc_count c" using assms(2,3) by simp
  then show "bc_finished c" using assms(1) by (simp add: client_ok_def)
qed

text \<open>Where no step is possible, all are connected, all requests are sent and all answers are there.\<close>

lemma bench_stuck:
  assumes ok: "bench_ok n p s" and stuck: "\<nexists>s'. bench_step s s'"
  shows "bn_allConnected s = 0" "bn_todo s = []" "\<forall>c\<in>set (bn_clients s). client_ok p c \<and> bc_count c = bc_sent c"
proof -
  have len: "length (bn_clients s) = n" using ok by (simp add: bench_ok_def)
  have "bc_connected (bn_clients s ! i)" if "i < n" for i
  proof (rule ccontr)
    assume "\<not> bc_connected (bn_clients s ! i)"
    from bench_step.bench_connect [OF _ this] that len stuck show False by (simp add: bench_onConnection_def)
  qed
  then have up: "\<forall>c\<in>set (bn_clients s). bc_connected c" using len by (auto simp: in_set_conv_nth)
  then have "filter (\<lambda>c. \<not> bc_connected c) (bn_clients s) = []" by (simp add: filter_empty_conv)
  then show zero: "bn_allConnected s = 0" using ok by (simp add: bench_ok_def)
  show todo: "bn_todo s = []"
  proof (cases "bn_todo s")
    case (Cons i rest)
    then have "i < n" using ok by (auto simp: bench_ok_def)
    then have "sendRequest (bn_clients s ! i) = Some ((bn_clients s ! i)\<lparr>bc_sent := bc_sent (bn_clients s ! i) + 1\<rparr>)"
      using up len by (simp add: sendRequest_def)
    from bench_step.bench_send [OF _ Cons this] zero stuck show ?thesis by fastforce
  qed
  show "\<forall>c\<in>set (bn_clients s). client_ok p c \<and> bc_count c = bc_sent c"
  proof
    fix c assume "c \<in> set (bn_clients s)"
    then obtain i where i: "i < length (bn_clients s)" "c = bn_clients s ! i" by (metis in_set_conv_nth)
    then have c: "client_ok p c" using ok todo len by (simp add: bench_ok_def)
    have "\<not> bc_count c < bc_sent c"
    proof
      assume less: "bc_count c < bc_sent c"
      from replied_total [OF c less] obtain c' d where "replied (Echo g_payload) c = Some (c', d)" by blast
      from bench_step.bench_answer [OF i(1)] less this i(2) stuck show False by blast
    qed
    moreover have "bc_count c \<le> bc_sent c" using c unfolding client_ok_def by blast
    ultimately show "client_ok p c \<and> bc_count c = bc_sent c" using c by simp
  qed
qed

text \<open>C37: The benchmark ends: \<^verbatim>\<open>main\<close> sends nothing before all clients are connected; from every reachable
  state, with at least one request in the pipeline, only as many steps as connections, requests and answers are
  missing can follow, and where none can, all are connected, the latch of the finished clients is down, so that
  \<^verbatim>\<open>main\<close> goes on, and every client has sent \<^verbatim>\<open>kRequests\<close> and its pipeline less one and has the
  answers to all; until then the latch counts the clients that are not finished.\<close>

theorem bench_finishes:
  assumes "bench_reachable n p s" "0 < p"
  shows "(\<forall>k s'. (bench_step ^^ k) s s' \<longrightarrow> int k \<le> remaining p s) \<and>
    (0 < bn_allConnected s \<longrightarrow> (\<forall>c\<in>set (bn_clients s). bc_sent c = 0)) \<and>
    bn_allFinished s = int (length (filter (\<lambda>c. \<not> bc_finished c) (bn_clients s))) \<and>
    ((\<nexists>s'. bench_step s s') \<longrightarrow> bn_allConnected s = 0 \<and> bn_allFinished s = 0 \<and> bn_todo s = [] \<and>
       (\<forall>c\<in>set (bn_clients s). bc_sent c = int p + kRequests - 1 \<and> bc_count c = bc_sent c))"
proof (intro conjI impI allI)
  have ok: "bench_ok n p s" by (rule bench_reachable_ok [OF assms(1)])
  then show "bn_allFinished s = int (length (filter (\<lambda>c. \<not> bc_finished c) (bn_clients s)))" by (simp add: bench_ok_def)
  show "int k \<le> remaining p s" if "(bench_step ^^ k) s s'" for k s'
    using bench_steps_bounded [OF that ok] remaining_nonneg [OF _ assms(2)] by fastforce
  show "\<forall>c\<in>set (bn_clients s). bc_sent c = 0" if "0 < bn_allConnected s"
    using ok that by (auto simp: bench_ok_def in_set_conv_nth client_ok_def)
  assume stuck: "\<nexists>s'. bench_step s s'"
  note fin = bench_stuck [OF ok stuck]
  show "bn_allConnected s = 0" "bn_todo s = []" by (rule fin(1), rule fin(2))
  show "\<forall>c\<in>set (bn_clients s). bc_sent c = int p + kRequests - 1 \<and> bc_count c = bc_sent c"
    using fin(3) client_done(1) [OF _ assms(2)] by blast
  have "\<forall>c\<in>set (bn_clients s). bc_finished c" using fin(3) client_done(2) [OF _ assms(2)] by blast
  then have "filter (\<lambda>c. \<not> bc_finished c) (bn_clients s) = []" by (simp add: filter_empty_conv)
  then show "bn_allFinished s = 0" using ok by (simp add: bench_ok_def)
qed

theorem bench_finishes_witness:
  "bench_reachable 2 3 (bench_main 2 3) \<and> bn_allFinished (bench_main 2 3) = 2 \<and>
   \<not> (\<exists>k s'. (bench_step ^^ k) (bench_main 2 3) s' \<and> 100012 < int k)"
proof -
  have r: "bench_reachable 2 3 (bench_main 2 3)" by (rule bench_begin)
  have "remaining 3 (bench_main 2 3) = 100012"
    by (simp add: remaining_def bench_main_def new_bench_client_def kRequests_def numeral_eq_Suc)
  then have "\<forall>k s'. (bench_step ^^ k) (bench_main 2 3) s' \<longrightarrow> int k \<le> 100012"
    using bench_finishes [OF r, THEN conjunct1] by simp
  then show ?thesis using r by (fastforce simp: bench_main_def)
qed

text \<open>With no request in the pipeline nothing is ever sent, and \<^verbatim>\<open>main\<close> waits for ever.\<close>

lemma bench_empty_pipeline:
  assumes "bench_reachable n 0 s"
  shows "bn_allFinished s = int n" "c \<in> set (bn_clients s) \<Longrightarrow> bc_sent c = 0"
proof -
  have ok: "bench_ok n 0 s" by (rule bench_reachable_ok [OF assms])
  then have all: "bc_sent c = 0 \<and> \<not> bc_finished c" if "c \<in> set (bn_clients s)" for c
    using that by (auto simp: bench_ok_def in_set_conv_nth client_ok_def kRequests_def)
  then show "c \<in> set (bn_clients s) \<Longrightarrow> bc_sent c = 0" by blast
  have "filter (\<lambda>c. \<not> bc_finished c) (bn_clients s) = bn_clients s" using all by (simp add: filter_id_conv)
  then show "bn_allFinished s = int n" using ok by (simp add: bench_ok_def)
qed

section \<open>The rate of calls\<close>

text \<open>A thread of bench.cc: its clients, by number, and its meter, which has pointers to the counters of
  the connected ones, here their numbers. The rate is given as the difference of the totals; the
  division by the time, in floating point, is left out.\<close>

record rate_client =
  rt_count :: int
  rt_stop :: bool
  rt_sent :: int
  rt_latch :: bool

definition new_rate_client :: rate_client where
  "new_rate_client = \<lparr>rt_count = 0, rt_stop = False, rt_sent = 0, rt_latch = True\<rparr>"

record meter =
  mt_counts :: "nat list"
  mt_lastTotal :: int

definition new_meter :: meter where
  "new_meter = \<lparr>mt_counts = [], mt_lastTotal = 0\<rparr>"

definition addConnection :: "nat \<Rightarrow> meter \<Rightarrow> meter" where
  "addConnection c m = m\<lparr>mt_counts := mt_counts m @ [c]\<rparr>"

text \<open>\<^verbatim>\<open>std::find\<close>, then the found element is swapped with the last and dropped.\<close>

definition index_of :: "nat \<Rightarrow> nat list \<Rightarrow> nat" where
  "index_of c cs = length (takeWhile (\<lambda>x. x \<noteq> c) cs)"

definition removeConnection :: "nat \<Rightarrow> meter \<Rightarrow> meter option" where
  "removeConnection c m =
     (let it = index_of c (mt_counts m)
      in if it = length (mt_counts m) then None
         else Some (m\<lparr>mt_counts := butlast ((mt_counts m)[it := last (mt_counts m), length (mt_counts m) - 1 := c])\<rparr>))"

definition connections :: "meter \<Rightarrow> nat" where
  "connections m = length (mt_counts m)"

definition total :: "(nat \<Rightarrow> rate_client) \<Rightarrow> meter \<Rightarrow> int" where
  "total cl m = (\<Sum>c\<leftarrow>mt_counts m. rt_count (cl c))"

definition callsPerSecond :: "(nat \<Rightarrow> rate_client) \<Rightarrow> meter \<Rightarrow> int \<times> meter" where
  "callsPerSecond cl m =
     (let thisTotal = total cl m in (thisTotal - mt_lastTotal m, m\<lparr>mt_lastTotal := thisTotal\<rparr>))"

record rate_thread =
  th_clients :: "nat \<Rightarrow> rate_client"
  th_meter :: meter

definition new_rate_thread :: rate_thread where
  "new_rate_thread = \<lparr>th_clients = (\<lambda>c. new_rate_client), th_meter = new_meter\<rparr>"

definition rate_send :: "nat \<Rightarrow> rate_thread \<Rightarrow> rate_thread" where
  "rate_send c t = t\<lparr>th_clients := (th_clients t)(c := (th_clients t c)\<lparr>rt_sent := rt_sent (th_clients t c) + 1\<rparr>)\<rparr>"

text \<open>\<^verbatim>\<open>onConnection\<close>, with whether the connection is up: the thread, and whether the latch
  \<^verbatim>\<open>connected\<close> goes down.\<close>

definition rate_onConnection :: "bool \<Rightarrow> nat \<Rightarrow> rate_thread \<Rightarrow> rate_thread \<times> bool" where
  "rate_onConnection connected c t =
     (if connected then
        (let t = t\<lparr>th_meter := addConnection c (th_meter t)\<rparr>
         in (t\<lparr>th_clients := (th_clients t)(c := (th_clients t c)\<lparr>rt_latch := False\<rparr>)\<rparr>, rt_latch (th_clients t c)))
      else (t, False))"

definition rate_replied :: "string \<Rightarrow> nat \<Rightarrow> rate_thread \<Rightarrow> rate_thread option" where
  "rate_replied payload c t =
     (if payload \<noteq> g_payload then None
      else
        (let t = t\<lparr>th_clients := (th_clients t)(c := (th_clients t c)\<lparr>rt_count := rt_count (th_clients t c) + 1\<rparr>)\<rparr>
         in Some (if \<not> rt_stop (th_clients t c) then rate_send c t else t)))"

definition stopInLoop :: "nat \<Rightarrow> rate_thread \<Rightarrow> rate_thread option" where
  "stopInLoop c t =
     (let t = t\<lparr>th_clients := (th_clients t)(c := (th_clients t c)\<lparr>rt_stop := True\<rparr>)\<rparr>
      in map_option (\<lambda>m. t\<lparr>th_meter := m\<rparr>) (removeConnection c (th_meter t)))"

text \<open>\<^verbatim>\<open>printPerThread\<close>: the number of connections, and the rate if there are any.\<close>

definition printPerThread :: "rate_thread \<Rightarrow> (nat \<times> int option) \<times> rate_thread" where
  "printPerThread t =
     (let conns = connections (th_meter t)
      in if 0 < conns then
           (let (cps, m) = callsPerSecond (th_clients t) (th_meter t) in ((conns, Some cps), t\<lparr>th_meter := m\<rparr>))
         else ((conns, None), t))"

text \<open>The order of \<^verbatim>\<open>main\<close>: a client is connected once, sends its requests, and is stopped once; the
  answers and the timer come in between.\<close>

inductive rate_reachable :: "rate_thread \<Rightarrow> nat list \<Rightarrow> nat list \<Rightarrow> (nat \<times> int option) list \<Rightarrow> bool" where
  rate_begin: "rate_reachable new_rate_thread [] [] []"
| rate_connect: "rate_reachable t up gone log \<Longrightarrow> c \<notin> set up \<Longrightarrow>
    rate_reachable (fst (rate_onConnection True c t)) (c # up) gone log"
| rate_disconnect: "rate_reachable t up gone log \<Longrightarrow> rate_reachable (fst (rate_onConnection False c t)) up gone log"
| rate_request: "rate_reachable t up gone log \<Longrightarrow> c \<in> set up \<Longrightarrow> rate_reachable (rate_send c t) up gone log"
| rate_answer: "rate_reachable t up gone log \<Longrightarrow> rt_count (th_clients t c) < rt_sent (th_clients t c) \<Longrightarrow>
    rate_replied (Echo g_payload) c t = Some t' \<Longrightarrow> rate_reachable t' up gone log"
| rate_stop: "rate_reachable t up gone log \<Longrightarrow> c \<in> set up \<Longrightarrow> c \<notin> set gone \<Longrightarrow> stopInLoop c t = Some t' \<Longrightarrow>
    rate_reachable t' up (c # gone) log"
| rate_print: "rate_reachable t up gone log \<Longrightarrow> printPerThread t = (line, t') \<Longrightarrow> rate_reachable t' up gone (log @ [line])"

lemma index_of_split:
  assumes "c \<in> set cs"
  obtains xs ys where "cs = xs @ c # ys" "index_of c cs = length xs"
proof -
  obtain xs ys where *: "cs = xs @ c # ys" "c \<notin> set xs" using assms by (metis split_list_first)
  then have "takeWhile (\<lambda>x. x \<noteq> c) cs = xs" by (induction xs arbitrary: cs) auto
  with * that show thesis by (simp add: index_of_def)
qed

lemma removeConnection_mset:
  assumes "c \<in> set (mt_counts m)"
  shows "\<exists>m'. removeConnection c m = Some m' \<and> mset (mt_counts m') = mset (mt_counts m) - {#c#} \<and>
    mt_lastTotal m' = mt_lastTotal m"
proof -
  obtain xs ys where cs: "mt_counts m = xs @ c # ys" "index_of c (mt_counts m) = length xs"
    using index_of_split [OF assms] by metis
  show ?thesis
  proof (cases ys rule: rev_cases)
    case Nil
    with cs show ?thesis by (simp add: removeConnection_def Let_def butlast_append)
  next
    case (snoc zs z)
    with cs show ?thesis
      by (simp add: removeConnection_def Let_def list_update_append butlast_append)
  qed
qed

definition rate_ok :: "rate_thread \<Rightarrow> nat list \<Rightarrow> nat list \<Rightarrow> bool" where
  "rate_ok t up gone \<longleftrightarrow> distinct up \<and> set gone \<subseteq> set up \<and>
     mset (mt_counts (th_meter t)) = mset (filter (\<lambda>c. c \<notin> set gone) up) \<and>
     (\<forall>c. rt_stop (th_clients t c) \<longleftrightarrow> c \<in> set gone) \<and>
     (\<forall>c. 0 \<le> rt_count (th_clients t c) \<and> rt_count (th_clients t c) \<le> rt_sent (th_clients t c))"

lemma rate_ok_mem: "rate_ok t up gone \<Longrightarrow> c \<in> set (mt_counts (th_meter t)) \<longleftrightarrow> c \<in> set up \<and> c \<notin> set gone"
  unfolding rate_ok_def by (metis (mono_tags, lifting) mem_Collect_eq set_filter set_mset_mset)

definition rates_of :: "(nat \<times> int option) list \<Rightarrow> int" where
  "rates_of log = (\<Sum>(n, r)\<leftarrow>log. case r of None \<Rightarrow> 0 | Some d \<Rightarrow> d)"

lemma rates_of_simps [simp]:
  "rates_of [] = 0" "rates_of (log @ [(n, r)]) = rates_of log + (case r of None \<Rightarrow> 0 | Some d \<Rightarrow> d)"
  by (simp_all add: rates_of_def)

lemma filter_gone:
  assumes "distinct up" "c \<in> set up" "c \<notin> set gone"
  shows "mset (filter (\<lambda>x. x \<noteq> c \<and> x \<notin> set gone) up) = mset (filter (\<lambda>x. x \<notin> set gone) up) - {#c#}"
  using assms by (induction up) (auto intro: filter_mset_cong)

lemma stopInLoop_ok:
  assumes "rate_ok t up gone" "c \<in> set up" "c \<notin> set gone"
  shows "\<exists>t'. stopInLoop c t = Some t' \<and> rate_ok t' up (c # gone) \<and>
    mt_lastTotal (th_meter t') = mt_lastTotal (th_meter t)"
proof -
  have "c \<in> set (mt_counts (th_meter t))" using assms rate_ok_mem by metis
  from removeConnection_mset [OF this] obtain m' where m: "removeConnection c (th_meter t) = Some m'"
    "mset (mt_counts m') = mset (mt_counts (th_meter t)) - {#c#}" "mt_lastTotal m' = mt_lastTotal (th_meter t)" by blast
  then show ?thesis
    using assms filter_gone [of up c gone] by (auto simp: stopInLoop_def Let_def rate_ok_def)
qed

lemma rate_reachable_ok:
  "rate_reachable t up gone log \<Longrightarrow> rate_ok t up gone \<and> rates_of log = mt_lastTotal (th_meter t)"
proof (induction rule: rate_reachable.induct)
  case rate_begin
  then show ?case by (simp add: rate_ok_def new_rate_thread_def new_meter_def new_rate_client_def)
next
  case (rate_connect t up gone log c)
  then show ?case by (auto simp: rate_ok_def rate_onConnection_def addConnection_def Let_def)
next
  case (rate_disconnect t up gone log c)
  then show ?case by (simp add: rate_onConnection_def)
next
  case (rate_request t up gone log c)
  then show ?case by (auto simp: rate_ok_def rate_send_def intro: le_less_trans less_imp_le)
next
  case (rate_answer t up gone log c t')
  then show ?case by (auto simp: rate_ok_def rate_replied_def rate_send_def Echo_def Let_def split: if_splits)
next
  case (rate_stop t up gone log c t')
  then show ?case using stopInLoop_ok [of t up gone c] by auto
next
  case (rate_print t up gone log line t')
  then show ?case
    by (auto simp: printPerThread_def callsPerSecond_def Let_def rate_ok_def split: if_splits)
qed

text \<open>The meter of a thread has the counters of exactly the clients that are connected and not
  stopped, each once, no assertion fails when a client is stopped or gets an answer, and the rates that
  were printed add up to the total at the last print.\<close>

theorem meter_counts_connections:
  assumes "rate_reachable t up gone log"
  shows "mset (mt_counts (th_meter t)) = mset (filter (\<lambda>c. c \<notin> set gone) up) \<and> distinct (mt_counts (th_meter t)) \<and>
    rates_of log = mt_lastTotal (th_meter t) \<and>
    (\<forall>c. c \<in> set up \<and> c \<notin> set gone \<longrightarrow> stopInLoop c t \<noteq> None) \<and> (\<forall>c. rate_replied (Echo g_payload) c t \<noteq> None)"
proof -
  have ok: "rate_ok t up gone" "rates_of log = mt_lastTotal (th_meter t)" using rate_reachable_ok [OF assms] by simp_all
  then have "mset (mt_counts (th_meter t)) = mset (filter (\<lambda>c. c \<notin> set gone) up)" "distinct up" by (simp_all add: rate_ok_def)
  moreover from this have "distinct (mt_counts (th_meter t))" by (metis distinct_filter mset_eq_imp_distinct_iff)
  moreover have "stopInLoop c t \<noteq> None" if "c \<in> set up" "c \<notin> set gone" for c
    using stopInLoop_ok [OF ok(1) that] by auto
  moreover have "rate_replied (Echo g_payload) c t \<noteq> None" for c by (simp add: rate_replied_def Echo_def Let_def)
  ultimately show ?thesis using ok(2) by blast
qed

text \<open>Two clients; after the first is stopped, the printed rate is negative, since its calls are still
  in the last total.\<close>

definition two_clients :: rate_thread where
  "two_clients = the (rate_replied (Echo g_payload) 7 (rate_send 7
     (fst (rate_onConnection True 8 (fst (rate_onConnection True 7 new_rate_thread))))))"

definition one_stopped :: rate_thread where
  "one_stopped = the (stopInLoop 7 (snd (printPerThread two_clients)))"

lemma rate_after_stop:
  "fst (printPerThread two_clients) = (2, Some 1)" "fst (printPerThread one_stopped) = (1, Some (-1))"
  by code_simp+

lemma two_clients_reachable: "rate_reachable two_clients [8, 7] [] []"
proof -
  let ?t = "rate_send 7 (fst (rate_onConnection True 8 (fst (rate_onConnection True 7 new_rate_thread))))"
  have "rate_replied (Echo g_payload) 7 ?t = Some two_clients"
    by (simp add: two_clients_def rate_replied_def Echo_def Let_def)
  moreover have "rate_reachable ?t [8, 7] [] []"
    by (intro rate_request rate_connect rate_begin) simp_all
  moreover have "rt_count (th_clients ?t 7) < rt_sent (th_clients ?t 7)" by code_simp
  ultimately show ?thesis by (rule rate_answer [rotated 2])
qed

theorem meter_counts_connections_witness:
  "mset (mt_counts (th_meter two_clients)) = {#7, 8#} \<and> stopInLoop 7 two_clients \<noteq> None"
  using meter_counts_connections [OF two_clients_reachable] by simp

end
