(* ===== verification/RpcRateMain.thy ===== *)
theory RpcRateMain
  imports RpcBench
begin

text \<open>
  The main function of the benchmark that measures the rate of calls (examples/rpcbench2/bench.cc), with
  the threads of its pool: it makes one client after the other, waits for its connection and fills its
  pipeline, and stops all of them in the end, while the threads answer, count and print. A thread is that
  of RpcBench. Printing and sleeping are left out of main's operations.
\<close>

datatype main_op = Connect nat | Await nat | Send nat | StopClient nat

definition start_ops :: "nat \<Rightarrow> nat \<Rightarrow> main_op list" where
  "start_ops p i = Connect i # Await i # replicate p (Send i)"

definition rate_main :: "nat \<Rightarrow> nat \<Rightarrow> main_op list" where
  "rate_main n p = concat (map (start_ops p) [0..<n]) @ map StopClient [0..<n]"

text \<open>The connections that are being made, the stops that are in the queues of the loops, and what main
  still has to do.\<close>

record rate_bench =
  rb_threads :: "rate_thread list"
  rb_connecting :: "nat list"
  rb_stopping :: "nat list"
  rb_todo :: "main_op list"

definition new_rate_bench :: "nat \<Rightarrow> nat \<Rightarrow> nat \<Rightarrow> rate_bench" where
  "new_rate_bench k n p =
     \<lparr>rb_threads = replicate k new_rate_thread, rb_connecting = [], rb_stopping = [], rb_todo = rate_main n p\<rparr>"

text \<open>\<^verbatim>\<open>getNextLoop\<close> goes round the threads. Without threads it gives the loop of main, which main
  never runs.\<close>

definition thread_of :: "rate_bench \<Rightarrow> nat \<Rightarrow> rate_thread" where
  "thread_of s i = rb_threads s ! (i mod length (rb_threads s))"

definition set_thread :: "nat \<Rightarrow> rate_thread \<Rightarrow> rate_bench \<Rightarrow> rate_bench" where
  "set_thread i t s = s\<lparr>rb_threads := (rb_threads s)[i mod length (rb_threads s) := t]\<rparr>"

inductive main_step :: "rate_bench \<Rightarrow> rate_bench \<Rightarrow> bool" where
  main_connect: "rb_todo s = Connect i # rest \<Longrightarrow>
    main_step s (s\<lparr>rb_connecting := rb_connecting s @ [i], rb_todo := rest\<rparr>)"
| main_await: "rb_todo s = Await i # rest \<Longrightarrow> rb_threads s \<noteq> [] \<Longrightarrow> \<not> rt_latch (th_clients (thread_of s i) i) \<Longrightarrow>
    main_step s (s\<lparr>rb_todo := rest\<rparr>)"
| main_send: "rb_todo s = Send i # rest \<Longrightarrow> rb_threads s \<noteq> [] \<Longrightarrow>
    main_step s (set_thread i (rate_send i (thread_of s i)) (s\<lparr>rb_todo := rest\<rparr>))"
| main_stop: "rb_todo s = StopClient i # rest \<Longrightarrow> rb_threads s \<noteq> [] \<Longrightarrow>
    main_step s (s\<lparr>rb_stopping := rb_stopping s @ [i], rb_todo := rest\<rparr>)"

inductive loop_step :: "rate_bench \<Rightarrow> rate_bench \<Rightarrow> bool" where
  loop_connected: "i \<in> set (rb_connecting s) \<Longrightarrow> rb_threads s \<noteq> [] \<Longrightarrow>
    loop_step s (set_thread i (fst (rate_onConnection True i (thread_of s i)))
      (s\<lparr>rb_connecting := remove1 i (rb_connecting s)\<rparr>))"
| loop_answer: "rb_threads s \<noteq> [] \<Longrightarrow> rt_count (th_clients (thread_of s i) i) < rt_sent (th_clients (thread_of s i) i) \<Longrightarrow>
    rate_replied (Echo g_payload) i (thread_of s i) = Some t \<Longrightarrow> loop_step s (set_thread i t s)"
| loop_stop: "i \<in> set (rb_stopping s) \<Longrightarrow> rb_threads s \<noteq> [] \<Longrightarrow> stopInLoop i (thread_of s i) = Some t \<Longrightarrow>
    loop_step s (set_thread i t (s\<lparr>rb_stopping := remove1 i (rb_stopping s)\<rparr>))"
| loop_print: "rb_threads s \<noteq> [] \<Longrightarrow> loop_step s (set_thread j (snd (printPerThread (thread_of s j))) s)"

inductive rate_run :: "nat \<Rightarrow> nat \<Rightarrow> nat \<Rightarrow> rate_bench \<Rightarrow> bool" for k n p where
  run_begin: "rate_run k n p (new_rate_bench k n p)"
| run_main: "rate_run k n p s \<Longrightarrow> main_step s s' \<Longrightarrow> rate_run k n p s'"
| run_loop: "rate_run k n p s \<Longrightarrow> loop_step s s' \<Longrightarrow> rate_run k n p s'"

section \<open>The order of main's operations\<close>

fun allowed :: "main_op set \<Rightarrow> main_op \<Rightarrow> bool" where
  "allowed S (Connect i) = (Connect i \<notin> S)"
| "allowed S (Await i) = (Connect i \<in> S)"
| "allowed S (Send i) = (Await i \<in> S)"
| "allowed S (StopClient i) = (StopClient i \<notin> S \<and> Await i \<in> S)"

fun ordered :: "main_op set \<Rightarrow> main_op list \<Rightarrow> bool" where
  "ordered S [] = True"
| "ordered S (x # xs) = (allowed S x \<and> ordered (insert x S) xs)"

lemma ordered_append: "ordered S (xs @ ys) = (ordered S xs \<and> ordered (S \<union> set xs) ys)"
  by (induction xs arbitrary: S) auto

lemma ordered_sends: "Await i \<in> S \<Longrightarrow> ordered S (replicate p (Send i))"
  by (induction p arbitrary: S) auto

lemma set_start_ops: "set (concat (map (start_ops p) [0..<n])) =
    (\<Union>i<n. {Connect i, Await i} \<union> (if p = 0 then {} else {Send i}))"
  by (induction n) (auto simp: start_ops_def lessThan_Suc set_replicate_conv_if)

lemma ordered_starts: "ordered {} (concat (map (start_ops p) [0..<n]))"
proof (induction n)
  case (Suc n)
  then show ?case
    by (simp add: ordered_append set_start_ops start_ops_def ordered_sends split: if_splits)
qed simp

lemma ordered_stops: "\<forall>i<n. Await i \<in> S \<and> StopClient i \<notin> S \<Longrightarrow> ordered S (map StopClient [0..<n])"
  by (induction n) (auto simp: ordered_append)

lemma ordered_main: "ordered {} (rate_main n p)"
  unfolding rate_main_def ordered_append using ordered_starts [of p n]
  by (auto simp: start_ops_def set_replicate_conv_if split: if_splits intro!: ordered_stops bexI)

lemma main_allowed: "rate_main n p = pre @ x # rest \<Longrightarrow> allowed (set pre) x"
  using ordered_main [of n p] by (simp add: ordered_append)

lemma stop_after_await: "rate_main n p = pre @ rest \<Longrightarrow> StopClient i \<in> set pre \<Longrightarrow> Await i \<in> set pre"
  by (fastforce simp: in_set_conv_decomp [of "StopClient i"] dest: main_allowed)

section \<open>The threads\<close>

lemma rate_reachable_latch: "rate_reachable t up gone log \<Longrightarrow> rt_latch (th_clients t c) \<longleftrightarrow> c \<notin> set up"
proof (induction rule: rate_reachable.induct)
  case (rate_stop t up gone log d t')
  then show ?case by (auto simp: stopInLoop_def Let_def split: if_splits)
qed (auto simp: new_rate_thread_def new_rate_client_def rate_onConnection_def rate_send_def rate_replied_def
    printPerThread_def callsPerSecond_def Let_def split: if_splits)

definition thread_run :: "nat \<Rightarrow> nat list \<Rightarrow> nat list \<Rightarrow> nat \<Rightarrow> rate_thread \<Rightarrow> bool" where
  "thread_run k up gone j t \<longleftrightarrow>
     (\<exists>log. rate_reachable t (filter (\<lambda>i. i mod k = j) up) (filter (\<lambda>i. i mod k = j) gone) log)"

definition rate_inv :: "nat \<Rightarrow> nat \<Rightarrow> nat \<Rightarrow> nat list \<Rightarrow> nat list \<Rightarrow> main_op list \<Rightarrow> rate_bench \<Rightarrow> bool" where
  "rate_inv k n p up gone pre s \<longleftrightarrow> length (rb_threads s) = k \<and> rate_main n p = pre @ rb_todo s \<and>
     distinct (rb_connecting s) \<and> set up \<inter> set (rb_connecting s) = {} \<and>
     set up \<union> set (rb_connecting s) = {i. Connect i \<in> set pre} \<and> {i. Await i \<in> set pre} \<subseteq> set up \<and>
     distinct (rb_stopping s) \<and> set gone \<inter> set (rb_stopping s) = {} \<and>
     set gone \<union> set (rb_stopping s) = {i. StopClient i \<in> set pre} \<and>
     (\<forall>j<k. thread_run k up gone j (rb_threads s ! j))"

lemma stopping_up:
  assumes "rate_inv k n p up gone pre s" "i \<in> set (rb_stopping s)"
  shows "i \<in> set up" "i \<notin> set gone"
proof -
  have "StopClient i \<in> set pre" using assms unfolding rate_inv_def by blast
  moreover have "rate_main n p = pre @ rb_todo s" using assms(1) by (simp add: rate_inv_def)
  ultimately have "Await i \<in> set pre" by (rule stop_after_await [rotated])
  then show "i \<in> set up" "i \<notin> set gone" using assms unfolding rate_inv_def by blast+
qed

lemma thread_run_set:
  assumes "\<forall>j<k. thread_run k up gone j (ts ! j)" "length ts = k" "i < k" "thread_run k up' gone' i t"
    "\<forall>j<k. j \<noteq> i \<longrightarrow> filter (\<lambda>c. c mod k = j) up' = filter (\<lambda>c. c mod k = j) up \<and>
       filter (\<lambda>c. c mod k = j) gone' = filter (\<lambda>c. c mod k = j) gone"
  shows "\<forall>j<k. thread_run k up' gone' j (ts[i := t] ! j)"
  using assms by (auto simp: thread_run_def nth_list_update)

lemma rate_inv_begin: "rate_inv k n p [] [] [] (new_rate_bench k n p)"
  by (auto simp: rate_inv_def new_rate_bench_def thread_run_def intro: rate_begin)

lemma rate_inv_main:
  assumes "main_step s s'" "rate_inv k n p up gone pre s"
  shows "\<exists>pre'. rate_inv k n p up gone pre' s'"
  using assms
proof cases
  case (main_connect i rest)
  have "Connect i \<notin> set pre"
    using main_allowed [of n p pre "Connect i" rest] assms(2) main_connect(2) by (simp add: rate_inv_def)
  with assms(2) main_connect show ?thesis
    by (intro exI [of _ "pre @ [Connect i]"]) (auto simp: rate_inv_def)
next
  case (main_await i rest)
  then have len: "i mod k < k" "length (rb_threads s) = k" using assms(2) by (auto simp: rate_inv_def)
  then have "thread_run k up gone (i mod k) (thread_of s i)" using assms(2) by (simp add: rate_inv_def thread_of_def)
  then have "i \<in> set up" using rate_reachable_latch main_await(4) by (fastforce simp: thread_run_def)
  with assms(2) main_await(1,2) show ?thesis by (intro exI [of _ "pre @ [Await i]"]) (auto simp: rate_inv_def)
next
  case (main_send i rest)
  then have len: "i mod k < k" "length (rb_threads s) = k" using assms(2) by (auto simp: rate_inv_def)
  have "i \<in> set up"
    using main_allowed [of n p pre "Send i" rest] assms(2) main_send(2) by (auto simp: rate_inv_def)
  moreover have "thread_run k up gone (i mod k) (thread_of s i)" using len assms(2) by (simp add: rate_inv_def thread_of_def)
  ultimately have "thread_run k up gone (i mod k) (rate_send i (thread_of s i))"
    using rate_request [of "thread_of s i" "filter (\<lambda>c. c mod k = i mod k) up" _ _ i] unfolding thread_run_def by auto
  with len assms(2) have "\<forall>j<k. thread_run k up gone j ((rb_threads s)[i mod k := rate_send i (thread_of s i)] ! j)"
    by (intro thread_run_set [of k up gone]) (simp_all add: rate_inv_def)
  with assms(2) main_send(1,2) len show ?thesis
    by (intro exI [of _ "pre @ [Send i]"]) (auto simp: rate_inv_def set_thread_def)
next
  case (main_stop i rest)
  have "StopClient i \<notin> set pre"
    using main_allowed [of n p pre "StopClient i" rest] assms(2) main_stop(2) by (simp add: rate_inv_def)
  with assms(2) main_stop show ?thesis
    by (intro exI [of _ "pre @ [StopClient i]"]) (auto simp: rate_inv_def)
qed

lemma rate_inv_loop:
  assumes "loop_step s s'" "rate_inv k n p up gone pre s"
  shows "\<exists>up' gone'. rate_inv k n p up' gone' pre s'"
proof -
  have len: "length (rb_threads s) = k" using assms(2) by (simp add: rate_inv_def)
  have run: "thread_run k up gone (i mod k) (thread_of s i)" if "0 < k" for i
    using that assms(2) len by (simp add: rate_inv_def thread_of_def)
  have upd: "\<forall>j<k. thread_run k up' gone' j ((rb_threads s)[i mod k := t] ! j)"
    if "thread_run k up' gone' (i mod k) t" "0 < k" "up' = up \<or> up' = i # up" "gone' = gone \<or> gone' = i # gone" for up' gone' i t
    using assms(2) len that by (intro thread_run_set [of k up gone]) (auto simp: rate_inv_def)
  from assms(1) show ?thesis
  proof cases
    case (loop_connected i)
    then have k: "0 < k" using len by auto
    have "i \<notin> set up" using assms(2) loop_connected(2) by (auto simp: rate_inv_def)
    then have "thread_run k (i # up) gone (i mod k) (fst (rate_onConnection True i (thread_of s i)))"
      using run [OF k, of i] rate_connect [of "thread_of s i" "filter (\<lambda>c. c mod k = i mod k) up" _ _ i]
      unfolding thread_run_def by auto
    from upd [OF this k] assms(2) loop_connected(1,2) len show ?thesis
      by (intro exI [of _ "i # up"] exI [of _ gone]) (auto simp: rate_inv_def set_thread_def)
  next
    case (loop_answer i t)
    then have k: "0 < k" using len by auto
    then have "thread_run k up gone (i mod k) t"
      using run [OF k, of i] loop_answer(3,4) by (auto simp: thread_run_def intro: rate_answer)
    from upd [OF this k] assms(2) loop_answer(1) len show ?thesis
      by (intro exI [of _ up] exI [of _ gone]) (simp add: rate_inv_def set_thread_def)
  next
    case (loop_stop i t)
    then have k: "0 < k" using len by auto
    note i = stopping_up [OF assms(2) loop_stop(2)]
    then have "thread_run k up (i # gone) (i mod k) t"
      using run [OF k, of i] loop_stop(4)
        rate_stop [of "thread_of s i" "filter (\<lambda>c. c mod k = i mod k) up" "filter (\<lambda>c. c mod k = i mod k) gone" _ i t]
      unfolding thread_run_def by auto
    from upd [OF this k] assms(2) loop_stop(1,2) len i show ?thesis
      by (intro exI [of _ up] exI [of _ "i # gone"]) (auto simp: rate_inv_def set_thread_def)
  next
    case (loop_print j)
    then have k: "0 < k" using len by auto
    obtain line t where t: "printPerThread (thread_of s j) = (line, t)" by (cases "printPerThread (thread_of s j)")
    then have "thread_run k up gone (j mod k) t"
      using run [OF k, of j] by (auto simp: thread_run_def intro: rate_print)
    from upd [OF this k] assms(2) loop_print(1) len t show ?thesis
      by (intro exI [of _ up] exI [of _ gone]) (simp add: rate_inv_def set_thread_def)
  qed
qed

lemma rate_run_inv: "rate_run k n p s \<Longrightarrow> \<exists>up gone pre. rate_inv k n p up gone pre s"
proof (induction rule: rate_run.induct)
  case run_begin
  then show ?case using rate_inv_begin by blast
next
  case (run_main s s')
  then show ?case using rate_inv_main by blast
next
  case (run_loop s s')
  then show ?case by (elim exE) (drule rate_inv_loop, assumption, blast)
qed

lemma loop_of: "rate_inv k n p up gone pre s \<Longrightarrow> 0 < k \<Longrightarrow> thread_run k up gone (i mod k) (thread_of s i)"
  by (simp add: rate_inv_def thread_of_def)

lemma connected_latch: "rate_inv k n p up gone pre s \<Longrightarrow> 0 < k \<Longrightarrow> rt_latch (th_clients (thread_of s i) i) \<longleftrightarrow> i \<notin> set up"
  using loop_of rate_reachable_latch by (fastforce simp: thread_run_def)

lemma rate_all_stopped:
  assumes inv: "rate_inv k n p up gone pre s" and "rb_todo s = []" "rb_stopping s = []" "t \<in> set (rb_threads s)"
  shows "mt_counts (th_meter t) = []"
proof -
  obtain j log where t: "rate_reachable t (filter (\<lambda>i. i mod k = j) up) (filter (\<lambda>i. i mod k = j) gone) log"
    using inv assms(4) by (auto simp: rate_inv_def thread_run_def in_set_conv_nth)
  have pre: "pre = rate_main n p" using inv assms(2) by (simp add: rate_inv_def)
  have "set up \<subseteq> {i. Connect i \<in> set (rate_main n p)}" using inv unfolding rate_inv_def pre by blast
  moreover have "set gone = {i. StopClient i \<in> set (rate_main n p)}" using inv assms(3) by (simp add: rate_inv_def pre)
  ultimately have "set up \<subseteq> set gone" by (auto simp: rate_main_def start_ops_def)
  then have "filter (\<lambda>i. i \<notin> set (filter (\<lambda>i. i mod k = j) gone)) (filter (\<lambda>i. i mod k = j) up) = []"
    by (auto simp: filter_empty_conv)
  with rate_reachable_ok [OF t] show ?thesis unfolding rate_ok_def by (metis mset.simps(1) mset_zero_iff)
qed

text \<open>With at least one thread, main of the benchmark goes on: in every state its next operation is possible,
  but for the wait for a connection that is being made; it sends only over a connection that is up; no assertion
  fails in a thread, for an answer or for a stop; and when main has done all and the stops have been run, no
  counter of a client is left in a meter.\<close>

theorem rate_main_goes_on:
  assumes "rate_run k n p s" "0 < k"
  shows "(rb_todo s \<noteq> [] \<longrightarrow> (\<exists>s'. main_step s s') \<or> (\<exists>i rest. rb_todo s = Await i # rest \<and> i \<in> set (rb_connecting s))) \<and>
    (\<forall>i rest. rb_todo s = Send i # rest \<longrightarrow> \<not> rt_latch (th_clients (thread_of s i) i)) \<and>
    (\<forall>i. rate_replied (Echo g_payload) i (thread_of s i) \<noteq> None) \<and>
    (\<forall>i\<in>set (rb_stopping s). stopInLoop i (thread_of s i) \<noteq> None) \<and>
    (rb_todo s = [] \<and> rb_stopping s = [] \<longrightarrow> (\<forall>t\<in>set (rb_threads s). mt_counts (th_meter t) = []))"
proof -
  obtain up gone pre where inv: "rate_inv k n p up gone pre s" using rate_run_inv [OF assms(1)] by blast
  note latch = connected_latch [OF inv assms(2)]
  have threads: "rb_threads s \<noteq> []" using inv assms(2) by (auto simp: rate_inv_def)
  have allowed: "allowed (set pre) x" if "rb_todo s = x # rest" for x rest
    using that inv main_allowed [of n p pre x rest] by (simp add: rate_inv_def)
  have "(\<exists>s'. main_step s s') \<or> (\<exists>i rest. rb_todo s = Await i # rest \<and> i \<in> set (rb_connecting s))" if todo: "rb_todo s \<noteq> []"
  proof -
    from todo obtain x rest where x: "rb_todo s = x # rest" by (auto simp: neq_Nil_conv)
    show ?thesis
    proof (cases x)
      case (Await i)
      then have "i \<in> set up \<union> set (rb_connecting s)" using allowed [OF x] inv by (simp add: rate_inv_def)
      with x Await latch main_await [OF _ threads, of i rest] show ?thesis by blast
    qed (use x threads in \<open>blast intro: main_step.intros\<close>)+
  qed
  moreover have "\<not> rt_latch (th_clients (thread_of s i) i)" if "rb_todo s = Send i # rest" for i rest
    using allowed [OF that] inv latch by (auto simp: rate_inv_def)
  moreover have "stopInLoop i (thread_of s i) \<noteq> None" if "i \<in> set (rb_stopping s)" for i
  proof -
    note i = stopping_up [OF inv that]
    obtain log where "rate_reachable (thread_of s i) (filter (\<lambda>c. c mod k = i mod k) up) (filter (\<lambda>c. c mod k = i mod k) gone) log"
      using loop_of [OF inv assms(2)] by (auto simp: thread_run_def)
    from stopInLoop_ok [of _ _ _ i, OF conjunct1 [OF rate_reachable_ok [OF this]]] i show ?thesis by auto
  qed
  moreover have "rate_replied (Echo g_payload) i (thread_of s i) \<noteq> None" for i by (simp add: rate_replied_def Echo_def Let_def)
  ultimately show ?thesis using rate_all_stopped [OF inv] by blast
qed

theorem rate_main_goes_on_witness:
  "rb_todo (new_rate_bench 2 3 1) \<noteq> [] \<and> (\<exists>s'. main_step (new_rate_bench 2 3 1) s')"
proof -
  have "rb_todo (new_rate_bench 2 3 1) \<noteq> []" "rb_connecting (new_rate_bench 2 3 1) = []"
    by (simp_all add: new_rate_bench_def rate_main_def start_ops_def upt_rec)
  with rate_main_goes_on [OF run_begin [of 2 3 1]] show ?thesis by simp
qed

text \<open>Without threads, main waits for ever for its first connection, which its own loop would have to make.\<close>

theorem rate_main_stuck:
  assumes "rate_run 0 n p s" "0 < n"
  shows "rb_todo s \<noteq> []"
proof -
  obtain m where m: "n = Suc m" using assms(2) by (cases n) auto
  have "rb_threads s = [] \<and> (rb_todo s = rate_main n p \<or> rb_todo s = tl (rate_main n p))" using assms(1)
  proof (induction rule: rate_run.induct)
    case run_begin
    then show ?case by (simp add: new_rate_bench_def)
  next
    case (run_main s s')
    from run_main(2,1,3) show ?case
      by cases (auto simp: m rate_main_def start_ops_def upt_conv_Cons simp del: upt_Suc)
  next
    case (run_loop s s')
    from run_loop(2,1,3) show ?case by cases auto
  qed
  then show ?thesis by (auto simp: m rate_main_def start_ops_def upt_conv_Cons simp del: upt_Suc)
qed

end
