(* ===== verification/DummyLoad.thy ===== *)
theory DummyLoad
  imports ZurgProcessFacts "HOL-Library.Sublist"
begin

text \<open>
  The test program that zurg's commands run (examples/zurg/dummyload/dummyload.cc). Its options are
  the pairs of a letter and an argument that \<^verbatim>\<open>getopt\<close> returns, where \<^verbatim>\<open>?\<close> stands for
  an unknown one. How the program ends is a value; the microseconds of an \<open>-s\<close> option, which are
  computed in floating point, are a parameter, and so are the directory and whether assertions are
  compiled in.
\<close>

datatype ending = Exited int | Aborted | Crashed

record dummyload =
  dl_stdout :: string
  dl_stderr :: string
  dl_slept :: "nat list"

definition charset :: string where
  "charset = ''ABCDEFGHIJKLMNOPQRSTUVWXYZ0123456789'' @ [newline]"

text \<open>The loop writes nothing when the number is negative.\<close>

definition dummy_output :: "int \<Rightarrow> string" where
  "dummy_output bytes = map (\<lambda>i. charset ! (i mod length charset)) [0..<nat bytes]"

record surroundings =
  su_ndebug :: bool
  su_argv :: "string list"
  su_cwd :: "string option"
  su_useconds :: "string \<Rightarrow> nat"

definition print_args :: "string list \<Rightarrow> string" where
  "print_args argv = concat (map (\<lambda>(i, a). show_int (int i) @ '' '' @ [CHR 0x27] @ a @ [CHR 0x27, newline]) (enumerate 0 argv))"

text \<open>One round of the switch: \<open>Inl\<close> ends the program. Without a directory, \<^verbatim>\<open>puts\<close> gets a
  null pointer. Memory is only taken and given back.\<close>

definition dummy_option :: "surroundings \<Rightarrow> char \<times> string \<Rightarrow> dummyload \<Rightarrow> ending \<times> dummyload + dummyload" where
  "dummy_option env = (\<lambda>(opt, optarg) d.
     if opt = CHR ''a'' then (if su_ndebug env then Inr d else Inl (Aborted, d))
     else if opt = CHR ''c'' then Inl (Crashed, d)
     else if opt = CHR ''e'' then Inr (d\<lparr>dl_stderr := dl_stderr d @ dummy_output (atoi optarg)\<rparr>)
     else if opt = CHR ''m'' then Inr d
     else if opt = CHR ''o'' then Inr (d\<lparr>dl_stdout := dl_stdout d @ dummy_output (atoi optarg)\<rparr>)
     else if opt = CHR ''p'' then
       (case su_cwd env of
          None \<Rightarrow> Inl (Crashed, d)
        | Some dir \<Rightarrow> Inr (d\<lparr>dl_stdout := dl_stdout d @ dir @ [newline]\<rparr>))
     else if opt = CHR ''s'' then Inr (d\<lparr>dl_slept := dl_slept d @ [su_useconds env optarg]\<rparr>)
     else if opt = CHR ''v'' then Inr (d\<lparr>dl_stdout := dl_stdout d @ print_args (su_argv env)\<rparr>)
     else Inl (Exited 1, d\<lparr>dl_stderr := dl_stderr d @ ''unknown option '' @ [CHR 0x27, opt, CHR 0x27, newline]\<rparr>))"

fun dummy_loop :: "surroundings \<Rightarrow> (char \<times> string) list \<Rightarrow> dummyload \<Rightarrow> ending \<times> dummyload" where
  "dummy_loop env [] d = (Exited 0, d)"
| "dummy_loop env (opt # opts) d =
     (case dummy_option env opt d of Inl r \<Rightarrow> r | Inr d \<Rightarrow> dummy_loop env opts d)"

definition dummy_main :: "surroundings \<Rightarrow> (char \<times> string) list \<Rightarrow> ending \<times> dummyload" where
  "dummy_main env opts = dummy_loop env opts \<lparr>dl_stdout = [], dl_stderr = [], dl_slept = []\<rparr>"

lemma length_output [simp]: "length (dummy_output n) = nat n"
  by (simp add: dummy_output_def)

lemma nth_dummy_output: "i < nat n \<Longrightarrow> dummy_output n ! i = charset ! (i mod 37)"
  by (simp add: dummy_output_def charset_def)

lemma dummy_outputs:
  "dummy_loop env (map (\<lambda>a. (CHR ''o'', a)) args) d =
    (Exited 0, d\<lparr>dl_stdout := dl_stdout d @ concat (map (dummy_output \<circ> atoi) args)\<rparr>)"
  by (induction args arbitrary: d) (simp_all add: dummy_option_def)

lemma atoi_show: "- (2 ^ 31) \<le> n \<Longrightarrow> n < 2 ^ 31 \<Longrightarrow> atoi (show_int n) = n"
proof -
  assume n: "- (2 ^ 31) \<le> n" "n < 2 ^ 31"
  then have n64: "- (2 ^ 63) \<le> n" "n < 2 ^ 63" by simp_all
  obtain c ds where c: "show_nat (nat \<bar>n\<bar>) = c # ds" "isdigit c"
    using show_nat_digits [of "nat \<bar>n\<bar>"] by (cases "show_nat (nat \<bar>n\<bar>)") auto
  have "set (show_nat (nat \<bar>n\<bar>)) \<subseteq> set (show_int n)" by (auto simp: show_int_def)
  then have "c \<in> set (show_int n)" by (simp add: c(1))
  with digit_not_special(1) [OF c(2)] have "\<exists>c\<in>set (show_int n). \<not> isspace c" by blast
  then have "strtoll (show_int n) = strtoll (show_int n @ [CHR ''.''])"
    by (subst strtoll_append) (simp_all add: isdigit_def)
  also have "\<dots> = n" using strtoll_end_show [of "CHR ''.''" n "[]"] by (simp add: strtoll_def isdigit_def saturate64_id [OF n64])
  finally show "atoi (show_int n) = n" using int32_of_small [OF n] by (simp add: atoi_def int32_of_def)
qed

text \<open>What a sink of zurg keeps of \<^verbatim>\<open>dummyload -o n\<close>, from which it may read at most one piece
  too much: the beginning of the repeated characters.\<close>

theorem sink_of_dummyload:
  assumes "sink_reachable maxLength chunk s" "max maxLength 0 + int chunk < 2 ^ 31" "0 \<le> n" "n < 2 ^ 31"
    "prefix (sl_input s) (dl_stdout (snd (dummy_main env [(CHR ''o'', show_int n)])))"
  shows "int (length (sk_buf (sl_sink s))) \<le> min n (max maxLength 0 + int chunk) \<and>
    (\<forall>i < length (sk_buf (sl_sink s)). sk_buf (sl_sink s) ! i = charset ! (i mod 37))"
proof -
  let ?buf = "sk_buf (sl_sink s)"
  have "?buf = sl_input s" "int (length ?buf) \<le> max maxLength 0 + int chunk"
    using sink_reachable_ok [OF assms(1,2)] by (simp_all add: sink_ok_def)
  moreover have "prefix (sl_input s) (dummy_output n)"
    using assms(3-5) by (simp add: dummy_main_def dummy_option_def atoi_show)
  then have "length (sl_input s) \<le> nat n" "\<forall>i < length (sl_input s). sl_input s ! i = dummy_output n ! i"
    by (auto simp: prefix_def nth_append dest: arg_cong [of _ _ length])
  ultimately show ?thesis using assms(3) by (auto simp: nth_dummy_output)
qed

end
