(* ===== verification/Spec2Isabelle.thy ===== *)
theory Spec2Isabelle
  imports MedianCollector PartitionTests Connections NQueensSystem Resolver Sudoku GeneratedRpc
    Shuffle WordFreqControl ProcFsSnapshot CollectReader Heartbeat SlaveFacts ZurgDescriptors ZurgClient RpcRateMain
    DummyLoad
begin

text \<open>
  Verification of muduo-protorpc: the RPC library under src/muduo/protorpc2, its code generator, and the programs
  under src/examples that are built on it. The library sends protocol-buffer messages over muduo's TCP connections;
  muduo, protocol buffers and the operating system are not part of the repository.

  \<^bold>\<open>The program and its parts.\<close>
  A server (RpcServer) keeps its services by name and makes one channel (RpcChannel) for each connection. A channel
  numbers the calls of its side, keeps them in a table until the response comes, and gives incoming requests to the
  service they name; the handler calls back with its answer at any later time. Generated stubs and dispatchers
  connect this to typed services. The examples are distributed programs: median (the k-th element of data spread over
  sorters), nqueens, wordfreq (a distributed sort of word counts), collect (snapshots of /proc), zurg (a slave that runs
  commands and applications), rpcbench2, resolver and sudoku.

  \<^bold>\<open>Theories and sources.\<close>

  \<^item> Foundations: \<open>Prelude\<close> (machine integers and the algorithms of the C++ library), \<open>StdMap\<close> (std::map, locale
    \<open>std_map\<close> with its two implementations), \<open>CLib\<close> (text functions of the C library and of boost).
  \<^item> muduo/protorpc2: \<open>RpcChannel\<close> (RpcChannel.h, RpcChannel.cc: a record for the channel, one definition per member
    function, effects as a list), \<open>RpcSystem\<close> (two channels with a connection between them and any number of calling
    threads, as a step relation), \<open>RpcApp\<close> (programs over it: event loops, locale \<open>rpc_app\<close>), \<open>RpcServer\<close>
    (RpcServer.cc, RpcService.cc), \<open>ServerConnections\<close> (a server whose connections come and go, with the lifetime of
    their channels), \<open>RpcGenerator\<close> (gen.cc, cpp_service.cc), \<open>GeneratedRpc\<close> (what the generated stubs and services do
    when they run, with the casts of RpcChannel.h).
  \<^item> examples/median: \<open>Kth\<close> (kth.h, locale \<open>kth_search\<close>), \<open>Sorter\<close> (sorter.cc), \<open>MedianCollector\<close> (collector.cc),
    \<open>UnitTests\<close> and \<open>PartitionTests\<close> (kth_unittest.cc, and partition_unittest.cc of wordfreq), \<open>Connections\<close> (the clients of collector.cc and
    of wordfreq/control.cc, locale \<open>latch_client\<close>).
  \<^item> examples/nqueens: \<open>NQueens\<close> (the solver of server.cc), \<open>NQueensClient\<close> (the callbacks of client.cc and the
    mathematics of the count), \<open>NQueensSystem\<close> (client and server over the RPC system).
  \<^item> examples/resolver and examples/sudoku: \<open>Resolver\<close>, \<open>Sudoku\<close>.
  \<^item> examples/wordfreq: \<open>Partition\<close> (partition.h, locale \<open>histogram_source\<close>), \<open>WordFreq\<close> (the handlers of wordfreq.cc),
    \<open>Shuffle\<close> (its shuffle thread, as a step relation), \<open>WordFreqControl\<close> (control.cc).
  \<^item> examples/collect: \<open>FileCache\<close> (FileCache.h), \<open>ProcReaders\<close>, \<open>ProcFs\<close>, \<open>ProcFsFacts\<close>, \<open>ProcFsSnapshot\<close>
    (ProcFs.h, ProcFs.cc), \<open>Collector\<close> (collector.cc), \<open>CollectReader\<close> (reader.cc).
  \<^item> examples/zurg: \<open>Heartbeat\<close>, \<open>ZurgProcess\<close>, \<open>ZurgProcessFacts\<close>, \<open>ZurgDescriptors\<close> (Process.cc, Sink.h),
    \<open>ChildManager\<close> (locale \<open>exit_watch\<close>), \<open>AppManager\<close>, \<open>SlaveUtil\<close> (Util.cc), \<open>SlaveService\<close> and \<open>SlaveFacts\<close>
    (SlaveService.cc, GetHardwareTask.h, and the slave as a whole), \<open>ZurgClient\<close> (RpcClient.cc, SlaveApp.cc,
    ProtobufLog.cc, main.cc), \<open>DummyLoad\<close> (dummyload.cc).
  \<^item> examples/rpcbench2: \<open>RpcBench\<close> (server.cc, client.cc, and the clients and meters of bench.cc), \<open>RpcRateMain\<close> (main of
    bench.cc with the threads of its pool).

  An object is a record with the members of the class; a member function is a definition that takes and returns the
  record. A failing assertion, a null pointer, an out-of-range access and an exception are \<open>None\<close> or a value of an error
  type. What other threads, the network, the kernel and the event loop decide is a parameter or a choice of a step
  relation. Integers are machine words where their width matters and mathematical integers where the theorems bound them.

  \<^bold>\<open>What the groups of theorems show.\<close>

  \<^item> RPC (C1, C3, C10, C14, C29, C30, C31): whatever the interleaving of threads, handlers and deliveries, a call completes at
    most once and with the answer given to it; when nothing is in flight every call has completed or named an unknown
    method; calls can always be finished; each connection of a server behaves as if it were the only one, and what becomes
    of the calls of one that goes down; a registered service is called and listed. The statements hold below \<open>2 ^ 64\<close> calls
    of a channel, where the counter wraps.
  \<^item> Generated code (C2, C32, C33): over a connection, no cast of the generated stubs and services fails and every callback
    gets a message of its class, if the codec keeps the classes; every text that is printed has balanced braces and its
    variables; the stub's index of each method is the one its service dispatches on.
  \<^item> median (C7, C38): the collector finds the k-th element of all the data for any order of the network's answers
    (data below \<open>2 ^ 63\<close> elements; 65 steps are enough, so the limit of 100 is never reached), and runs only when every
    sorter is connected; \<open>kth_unit_tests_pass\<close> shows that its unit tests pass.
  \<^item> nqueens, resolver, sudoku (C8, C9, C28): the solver counts exactly the extensions of a placement (boards of 2 to 20
    rows), and the programs as a whole end with the right result.
  \<^item> wordfreq (C5, C12, C15, C21, C22, C39, C40): the shuffle sends every key exactly once to its worker and the sorted
    shards are the sorted keys of the cluster; the pivots are balanced; the controller's totals; and where the code
    fails: the shuffle that waits for ever, the histogram that does not fit the pivot search. \<open>PartitionTests\<close> has the
    unit tests of the pivots; the one on random keys passes if no slot of the histogram is crowded.
  \<^item> collect (C6, C11, C16, C17, C23, C34, C35): the file cache leaks no descriptor and is a least-recently-used cache; the
    parsers give the fields of the files of /proc; a snapshot closes what it does not keep; the log describes every process;
    the reader counts the messages of the collector's log, however the files are read.
  \<^item> zurg (C4, C13, C18, C19, C20, C24, C25, C26, C27, C36): every request is answered once, an application runs at most
    once at a time, commands cannot fail an assertion, the slave learns whether a command could be run, no descriptor is
    lost, the captured output is bounded, heartbeats are sent exactly while there is a connection.
  \<^item> rpcbench2 (C37): the client sends nothing before all are connected and ends after its number of calls;
    \<open>meter_counts_connections\<close> and \<open>rate_main_goes_on\<close> show that the meter counts the connections and that main of the
    other client never fails an assertion and waits only for connections that are being made.

  \<^bold>\<open>Interfaces.\<close>
  Each locale is a contract between components and is interpreted on the code that provides it: \<open>std_map\<close> on both
  maps, \<open>kth_search\<close> on the sorter, the collector and the search of the unit test, \<open>histogram_source\<close> on the worker's handler
  and the histogram of the unit test, \<open>exit_watch\<close> on the child manager, \<open>latch_client\<close> on the clients of the collector and
  of the controller, \<open>rpc_app\<close> on nqueens, resolver and sudoku.

  \<^bold>\<open>Bounds and fuel.\<close>
  Loops are structural recursion or have a measure: the k-th search its step counter, the pivot search its number of
  slots, the readers the text that is left, the solver the free columns. Three loops need not end by their text and are partial
  functions: the search for a line in /proc/meminfo (C17 says when it ends), the loop over four indices in the unit
  test (\<open>kth_unit_tests_pass\<close> proves that it ends), and the loop of the reader, which ends if reads make progress
  (C34). No definition uses fuel.

  \<^bold>\<open>What the code does not do as it means to.\<close>
  Besides C29, C39 and C40 (a handler that answers after its connection went down calls a destroyed channel, and the calls
  of the other side stay in its table): after a retry the pivot search fails on its own assertion; a command that cannot read its stat file
  is taken for started; a process whose name contains a parenthesis is parsed wrongly; a file that could not be opened stays
  in the cache; four methods of the slave never answer; a request for an unknown method leaves the caller waiting; a
  client that a benchmark stopped makes its rate negative; the error pipe of a command can be replaced by its output if the
  slave runs without standard descriptors; a benchmark without threads waits for ever. The theories state each of them where it is a theorem.

  \<^bold>\<open>Not modelled.\<close>
  The declarations of interfaces beyond what their implementations show; the command lines of the main functions that
  only pass arguments on; logging; floating point (times, rates, load averages, the skew in testUniform), which is a
  parameter or left out; signal handlers, sockets, compressed files and the codec, which are muduo's. The Go and Java programs and libraries, beside the C++ or under their own directories, are not considered.
\<close>

end
